theory Spec2Isabelle
  imports Main "HOL-Library.Char_ord" "HOL-Library.List_Lexorder"
begin

section \<open>Batch ids\<close>

text \<open>
  Source: \<^verbatim>\<open>src/lale/lib/rasl/_task_graphs.py\<close>.
  A batch id is the Python string \<^verbatim>\<open>fold + str(idx)\<close>. Python compares strings
  lexicographically by code point, a proper prefix being smaller; that is the order of
  \<^typ>\<open>char list\<close> used here.
\<close>

datatype error = AssertionError | IndexError | KeyError | ValueError | NameError
  | AttributeError

definition digit_char :: "nat \<Rightarrow> char" where
  "digit_char d = ''0123456789'' ! d"

fun str_nat :: "nat \<Rightarrow> string" where
  "str_nat n = (if n < 10 then [digit_char n] else str_nat (n div 10) @ [digit_char (n mod 10)])"

declare str_nat.simps [simp del]

definition str_int :: "int \<Rightarrow> string" where
  \<comment> \<open>Python's \<^verbatim>\<open>str\<close> on an int: decimal, a minus sign for negatives.\<close>
  "str_int i = (if i < 0 then CHR ''-'' # str_nat (nat (- i)) else str_nat (nat i))"

definition is_digit :: "char \<Rightarrow> bool" where
  "is_digit c = (48 \<le> (of_char c :: nat) \<and> (of_char c :: nat) \<le> 57)"

definition digit_val :: "char \<Rightarrow> nat" where
  "digit_val c = of_char c - 48"

definition nat_of_digits :: "string \<Rightarrow> nat" where
  "nat_of_digits s = foldl (\<lambda>acc c. 10 * acc + digit_val c) 0 s"

definition int_of_str :: "string \<Rightarrow> error + int" where
  \<comment> \<open>Python's \<^verbatim>\<open>int\<close> on a string, for the strings the program builds: an optional
      minus sign and decimal digits; anything else is a ValueError.\<close>
  "int_of_str s =
     (case s of
        [] \<Rightarrow> Inl ValueError
      | c # r \<Rightarrow>
          if c = CHR ''-'' then
            (if r \<noteq> [] \<and> list_all is_digit r then Inr (- int (nat_of_digits r)) else Inl ValueError)
          else if list_all is_digit s then Inr (int (nat_of_digits s)) else Inl ValueError)"

definition batch_id :: "string \<Rightarrow> int \<Rightarrow> string" where
  "batch_id fld idx = fld @ str_int idx"

definition get_fold :: "string \<Rightarrow> error + string" where
  "get_fold bid = (case bid of [] \<Rightarrow> Inl IndexError | c # _ \<Rightarrow> Inr [c])"

definition get_idx :: "string \<Rightarrow> error + int" where
  "get_idx bid = int_of_str (drop 1 bid)"

section \<open>Python helpers\<close>

definition ebind :: "error + 'a \<Rightarrow> ('a \<Rightarrow> error + 'b) \<Rightarrow> error + 'b" where
  "ebind m f = (case m of Inl e \<Rightarrow> Inl e | Inr x \<Rightarrow> f x)"

definition py_index :: "'a list \<Rightarrow> int \<Rightarrow> error + 'a" where
  \<comment> \<open>\<^verbatim>\<open>xs[i]\<close> for a Python list: indices below zero address the list from its end.\<close>
  "py_index xs i =
     (if 0 \<le> i \<and> i < int (length xs) then Inr (xs ! nat i)
      else if i < 0 \<and> - int (length xs) \<le> i then Inr (xs ! nat (int (length xs) + i))
      else Inl IndexError)"

definition py_range :: "int \<Rightarrow> int list" where
  "py_range n = map int [0..<nat n]"

definition last_slice :: "'a list \<Rightarrow> 'a list" where
  \<comment> \<open>\<^verbatim>\<open>xs[-1:]\<close>\<close>
  "last_slice xs = (if xs = [] then [] else [last xs])"

definition lookup :: "('k \<times> 'v) list \<Rightarrow> 'k \<Rightarrow> error + 'v" where
  \<comment> \<open>\<^verbatim>\<open>d[k]\<close> on a dict kept in insertion order.\<close>
  "lookup d k = (case map_of d k of None \<Rightarrow> Inl KeyError | Some v \<Rightarrow> Inr v)"

section \<open>Tasks, batches and pipelines\<close>

datatype task_status = FRESH | READY | WAITING | DONE

fun status_value :: "task_status \<Rightarrow> int" where
  "status_value FRESH = 1"
| "status_value READY = 2"
| "status_value WAITING = 3"
| "status_value DONE = 4"

datatype batch_status = RESIDENT | SPILLED

datatype operation = SCAN | TRANSFORM | PREDICT | FIT | PARTIAL_FIT | TO_MONOID | COMBINE

definition sys_maxsize :: int where
  "sys_maxsize = 9223372036854775807"

definition DUMMY_INPUT_STEP :: int where
  "DUMMY_INPUT_STEP = - 1"

definition DUMMY_SCORE_STEP :: int where
  "DUMMY_SCORE_STEP = sys_maxsize"

text \<open>
  The operator layer is outside the repository's core. A step is modelled by the
  capabilities the scheduler queries, and by the indices of its predecessor steps
  (\<^verbatim>\<open>pipeline._preds[s]\<close>, mapped through \<^verbatim>\<open>step_ids\<close>).
\<close>

record step =
  is_trained_op :: bool
  is_frozen_trained :: bool
  impl_has_fit :: bool
  has_partial_fit :: bool
  impl_is_monoid_factory :: bool
  is_transformer :: bool
  step_preds :: "nat list"

record pipeline =
  steps_list :: "step list"
  get_last :: "nat option"

definition is_pretrained :: "step \<Rightarrow> bool" where
  "is_pretrained op = (is_trained_op op \<and> (is_frozen_trained op \<or> \<not> impl_has_fit op))"

definition is_incremental :: "step \<Rightarrow> bool" where
  "is_incremental op = (has_partial_fit op \<or> is_pretrained op)"

definition is_associative :: "step \<Rightarrow> bool" where
  "is_associative op = (is_pretrained op \<or> impl_is_monoid_factory op)"

datatype task_class = TrainTask | ApplyTask | MetricTask

type_synonym memo_key = "task_class \<times> int \<times> string list \<times> string option"

text \<open>
  In-memory data as the scheduler sees it: its Python type, and for pandas objects what
  \<^verbatim>\<open>memory_usage()\<close> reports (per column for a frame). A slot of a batch holds
  either such an object or, once spilled, the path of the file that holds it.
\<close>

datatype frame =
    DataFrame "int list"
  | Series int
  | Ndarray
  | SparkDataFrame
  | OtherObject

datatype slot = InMemory frame | Path string frame

record batch =
  batch_X :: slot
  batch_y :: slot
  batch_task :: "nat option"
  space :: int

record monoid =
  is_absorbing :: bool
  payload :: int

type_synonym trained_op = nat

text \<open>
  One record for the three task classes; \<open>cls\<close> is the Python class of the object.
  Tasks are objects on a heap (a list, an object's reference being its index), so that
  \<open>preds\<close> and \<open>succs\<close> hold references as in the source.
\<close>

record task =
  cls :: task_class
  step_id :: int
  batch_ids :: "string list"
  held_out :: "string option"
  status :: task_status
  preds :: "nat list"
  succs :: "nat list"
  deletable_output :: bool
  monoid :: "monoid option"
  trained :: "trained_op option"
  batch :: "batch option"
  mmonoid :: "monoid option"

definition new_task :: "memo_key \<Rightarrow> task" where
  "new_task k = (case k of (c, s, bs, h) \<Rightarrow>
     \<lparr>cls = c, step_id = s, batch_ids = bs, held_out = h, status = FRESH, preds = [],
      succs = [], deletable_output = True, monoid = None, trained = None, batch = None,
      mmonoid = None\<rparr>)"

definition memo_key :: "task \<Rightarrow> memo_key" where
  "memo_key t = (cls t, step_id t, batch_ids t, held_out t)"

section \<open>Task graph construction\<close>

record task_graph =
  step_id_preds :: "(int \<times> int list) list"
  fresh_tasks :: "nat list"
  all_tasks :: "(memo_key \<times> nat) list"
  objs :: "task list"

definition TaskGraph :: "pipeline \<Rightarrow> task_graph" where
  "TaskGraph p =
     \<lparr>step_id_preds =
        map (\<lambda>i. (int i,
                  if step_preds (steps_list p ! i) = [] then [DUMMY_INPUT_STEP]
                  else map int (step_preds (steps_list p ! i))))
            [0..<length (steps_list p)],
      fresh_tasks = [], all_tasks = [], objs = []\<rparr>"

definition find_or_create :: "task_graph \<Rightarrow> memo_key \<Rightarrow> nat \<times> task_graph" where
  "find_or_create tg k =
     (case map_of (all_tasks tg) k of
        Some a \<Rightarrow> (a, tg)
      | None \<Rightarrow>
          (let a = length (objs tg)
           in (a, tg\<lparr>fresh_tasks := fresh_tasks tg @ [a],
                      all_tasks := all_tasks tg @ [(k, a)],
                      objs := objs tg @ [new_task k]\<rparr>)))"

definition update_task :: "task_graph \<Rightarrow> nat \<Rightarrow> (task \<Rightarrow> task) \<Rightarrow> task_graph" where
  "update_task tg a f = tg\<lparr>objs := (objs tg)[a := f (objs tg ! a)]\<rparr>"

definition seed :: "task_graph \<Rightarrow> memo_key \<Rightarrow> task_graph" where
  \<comment> \<open>\<^verbatim>\<open>task = tg.find_or_create(...); task.deletable_output = False\<close>\<close>
  "seed tg k = (case find_or_create tg k of (a, tg') \<Rightarrow>
     update_task tg' a (\<lambda>t. t\<lparr>deletable_output := False\<rparr>))"

definition append_pred :: "nat \<Rightarrow> task_graph \<Rightarrow> memo_key \<Rightarrow> task_graph" where
  \<comment> \<open>\<^verbatim>\<open>task.preds.append(tg.find_or_create(...))\<close>\<close>
  "append_pred a tg k = (case find_or_create tg k of (b, tg') \<Rightarrow>
     update_task tg' a (\<lambda>t. t\<lparr>preds := preds t @ [b]\<rparr>))"

definition link_succs :: "nat \<Rightarrow> task_graph \<Rightarrow> task_graph" where
  \<comment> \<open>\<^verbatim>\<open>for pred_task in task.preds: pred_task.succs.append(task)\<close>\<close>
  "link_succs a tg =
     foldl (\<lambda>g b. update_task g b (\<lambda>t. t\<lparr>succs := succs t @ [a]\<rparr>)) tg (preds (objs tg ! a))"

definition py_last :: "'a list \<Rightarrow> error + 'a" where
  \<comment> \<open>\<^verbatim>\<open>xs[-1]\<close>\<close>
  "py_last xs = (if xs = [] then Inl IndexError else Inr (last xs))"

definition py_first :: "'a list \<Rightarrow> error + 'a" where
  \<comment> \<open>\<^verbatim>\<open>xs[0]\<close>\<close>
  "py_first xs = (case xs of [] \<Rightarrow> Inl IndexError | x # _ \<Rightarrow> Inr x)"

text \<open>
  The body of the work-list loop of \<^verbatim>\<open>_create_tasks_fit\<close> requests the
  predecessors of the popped task one after the other. \<open>fit_requests\<close> lists the
  requested keys in the order of the source's \<^verbatim>\<open>find_or_create\<close> calls; they depend
  only on the task's key and on the pipeline. An exception anywhere in the body aborts
  the build.
\<close>

definition fit_requests ::
  "pipeline \<Rightarrow> task_graph \<Rightarrow> string list \<Rightarrow> bool \<Rightarrow> task \<Rightarrow> error + memo_key list" where
  "fit_requests p tg all_batch_ids incremental t =
     (case cls t of
        TrainTask \<Rightarrow>
          ebind (py_index (steps_list p) (step_id t)) (\<lambda>step.
            if is_pretrained step then Inr []
            else if length (batch_ids t) = 1 then
              ebind (lookup (step_id_preds tg) (step_id t)) (\<lambda>ps.
                Inr (map (\<lambda>q. (ApplyTask, q, batch_ids t, None)) ps))
            else if is_associative step then
              Inr (map (\<lambda>b. (TrainTask, step_id t, [b], None)) (batch_ids t))
            else if is_incremental step then
              ebind (lookup (step_id_preds tg) (step_id t)) (\<lambda>ps.
                Inr ((TrainTask, step_id t, butlast (batch_ids t), None)
                     # map (\<lambda>q. (ApplyTask, q, last_slice (batch_ids t), None)) ps))
            else
              ebind (lookup (step_id_preds tg) (step_id t)) (\<lambda>ps.
                Inr (concat (map (\<lambda>q. map (\<lambda>b. (ApplyTask, q, [b], None)) (batch_ids t)) ps))))
      | ApplyTask \<Rightarrow>
          if step_id t = DUMMY_INPUT_STEP then Inr []
          else
            ebind (if incremental
                   then ebind (py_last (batch_ids t)) (\<lambda>b. ebind (get_idx b) (\<lambda>i. Inr (i + 1)))
                   else Inr (int (length all_batch_ids))) (\<lambda>fit_upto.
            ebind (py_last (batch_ids t)) (\<lambda>b. ebind (get_fold b) (\<lambda>fld.
            ebind (lookup (step_id_preds tg) (step_id t)) (\<lambda>ps.
              Inr ((TrainTask, step_id t, map (batch_id fld) (py_range fit_upto), None)
                   # map (\<lambda>q. (ApplyTask, q, batch_ids t, None)) ps)))))
      | MetricTask \<Rightarrow>
          if length (batch_ids t) \<noteq> 1 then Inl AssertionError
          else (case get_last p of
                  None \<Rightarrow> Inl AssertionError
                | Some sink \<Rightarrow>
                    Inr [(ApplyTask, DUMMY_INPUT_STEP, batch_ids t, None),
                         (ApplyTask, int sink, batch_ids t, None)]))"

definition expand :: "nat \<Rightarrow> memo_key list \<Rightarrow> task_graph \<Rightarrow> task_graph" where
  "expand a ks tg = link_succs a (foldl (append_pred a) tg ks)"

definition pop_fresh :: "task_graph \<Rightarrow> nat \<times> task_graph" where
  \<comment> \<open>\<^verbatim>\<open>tg.fresh_tasks.pop()\<close> on a non-empty list\<close>
  "pop_fresh tg = (last (fresh_tasks tg), tg\<lparr>fresh_tasks := butlast (fresh_tasks tg)\<rparr>)"

partial_function (option) fit_loop ::
  "pipeline \<Rightarrow> string list \<Rightarrow> bool \<Rightarrow> task_graph \<Rightarrow> (error + task_graph) option" where
  "fit_loop p all_batch_ids incremental tg =
     (if fresh_tasks tg = [] then Some (Inr tg)
      else (case pop_fresh tg of (a, tg1) \<Rightarrow>
        (case fit_requests p tg1 all_batch_ids incremental (objs tg1 ! a) of
           Inl e \<Rightarrow> Some (Inl e)
         | Inr ks \<Rightarrow> fit_loop p all_batch_ids incremental (expand a ks tg1))))"

declare fit_loop.simps [code]

definition create_tasks_fit ::
  "pipeline \<Rightarrow> string list \<Rightarrow> bool \<Rightarrow> bool \<Rightarrow> (error + task_graph) option" where
  "create_tasks_fit p all_batch_ids need_metrics incremental =
     (let tg0 = TaskGraph p;
          tg1 = foldl seed tg0
                  (map (\<lambda>s. (TrainTask, s, all_batch_ids, None))
                       (py_range (int (length (steps_list p)))));
          tg2 = (if need_metrics
                 then foldl seed tg1
                        (map (\<lambda>b. (MetricTask, DUMMY_SCORE_STEP, [b], None)) all_batch_ids)
                 else tg1)
      in fit_loop p all_batch_ids incremental tg2)"

subsection \<open>Cross-validation mode\<close>

definition batch_ids_except :: "string list \<Rightarrow> int \<Rightarrow> string option \<Rightarrow> string list" where
  "batch_ids_except folds n_batches_per_fold held =
     concat (map (\<lambda>fld. map (batch_id fld) (py_range n_batches_per_fold))
                 (filter (\<lambda>fld. Some fld \<noteq> held) folds))"

fun emap :: "('a \<Rightarrow> error + 'b) \<Rightarrow> 'a list \<Rightarrow> error + 'b list" where
  "emap f [] = Inr []"
| "emap f (x # xs) = ebind (f x) (\<lambda>v. ebind (emap f xs) (\<lambda>vs. Inr (v # vs)))"

definition first_fold :: "string list \<Rightarrow> error + string" where
  \<comment> \<open>\<^verbatim>\<open>_get_fold(task.batch_ids[0])\<close>\<close>
  "first_fold bids = ebind (py_first bids) get_fold"

text \<open>
  The two loops over \<^verbatim>\<open>tg.step_id_preds[task.step_id]\<close> that reassign the local
  variable \<^verbatim>\<open>held_out\<close>: the new value stays for the later iterations.
\<close>

fun cv_held_loop ::
  "bool \<Rightarrow> string list \<Rightarrow> (int \<Rightarrow> string option \<Rightarrow> memo_key list) \<Rightarrow> int list \<Rightarrow>
   string option \<Rightarrow> error + memo_key list" where
  "cv_held_loop same_fold bids mk [] h = Inr []"
| "cv_held_loop same_fold bids mk (q # qs) h =
     ebind (if q \<noteq> DUMMY_INPUT_STEP \<and> \<not> same_fold
            then ebind (first_fold bids) (\<lambda>fld. Inr (Some fld)) else Inr h) (\<lambda>h'.
     ebind (cv_held_loop same_fold bids mk qs h') (\<lambda>r. Inr (mk q h' @ r)))"

definition cv_requests ::
  "pipeline \<Rightarrow> task_graph \<Rightarrow> string list \<Rightarrow> int \<Rightarrow> bool \<Rightarrow> task \<Rightarrow> error + memo_key list" where
  "cv_requests p tg folds n_batches_per_fold same_fold t =
     (case cls t of
        TrainTask \<Rightarrow>
          ebind (py_index (steps_list p) (step_id t)) (\<lambda>step.
            if is_pretrained step then Inr []
            else if length (batch_ids t) = 1 then
              ebind (lookup (step_id_preds tg) (step_id t)) (\<lambda>ps.
              ebind (emap (\<lambda>q.
                       if q = DUMMY_INPUT_STEP then Inr None
                       else if same_fold then Inr (held_out t)
                       else ebind (first_fold (batch_ids t)) (\<lambda>fld. Inr (Some fld))) ps) (\<lambda>hs.
                Inr (map (\<lambda>(q, h). (ApplyTask, q, batch_ids t, h)) (zip ps hs))))
            else
              ebind (lookup (step_id_preds tg) (step_id t)) (\<lambda>ps.
              ebind (if ps = [DUMMY_INPUT_STEP] then Inr None
                     else (case held_out t of
                             None \<Rightarrow>
                               ebind (emap get_fold (batch_ids t)) (\<lambda>fs.
                                 let hofs = remdups (filter (\<lambda>fld. fld \<notin> set fs) folds)
                                 in if length hofs = 1 then Inr (Some (hd hofs))
                                    else Inl AssertionError)
                           | Some h \<Rightarrow> Inr (Some h))) (\<lambda>held.
                if is_associative step then
                  Inr (map (\<lambda>b. (TrainTask, step_id t, [b], if \<not> same_fold then None else held))
                           (batch_ids t))
                else if is_incremental step then
                  ebind (cv_held_loop same_fold (batch_ids t)
                           (\<lambda>q h. [(ApplyTask, q, last_slice (batch_ids t), h)]) ps held) (\<lambda>r.
                    Inr ((TrainTask, step_id t, butlast (batch_ids t), held) # r))
                else
                  cv_held_loop same_fold (batch_ids t)
                    (\<lambda>q h. map (\<lambda>b. (ApplyTask, q, [b], h)) (batch_ids t)) ps held)))
      | ApplyTask \<Rightarrow>
          if step_id t = DUMMY_INPUT_STEP then Inr []
          else
            ebind (lookup (step_id_preds tg) (step_id t)) (\<lambda>ps.
              Inr ((TrainTask, step_id t,
                    batch_ids_except folds n_batches_per_fold (held_out t), None)
                   # map (\<lambda>q. (ApplyTask, q, batch_ids t,
                                if q = DUMMY_INPUT_STEP then None else held_out t)) ps))
      | MetricTask \<Rightarrow>
          if length (batch_ids t) = 1 then
            (case get_last p of
               None \<Rightarrow> Inl AssertionError
             | Some sink \<Rightarrow>
                 Inr [(ApplyTask, DUMMY_INPUT_STEP, batch_ids t, None),
                      (ApplyTask, int sink, batch_ids t, held_out t)])
          else Inr (map (\<lambda>b. (MetricTask, step_id t, [b], held_out t)) (batch_ids t)))"

partial_function (option) cv_loop ::
  "pipeline \<Rightarrow> string list \<Rightarrow> int \<Rightarrow> bool \<Rightarrow> task_graph \<Rightarrow> (error + task_graph) option" where
  "cv_loop p folds n_batches_per_fold same_fold tg =
     (if fresh_tasks tg = [] then Some (Inr tg)
      else (case pop_fresh tg of (a, tg1) \<Rightarrow>
        (case cv_requests p tg1 folds n_batches_per_fold same_fold (objs tg1 ! a) of
           Inl e \<Rightarrow> Some (Inl e)
         | Inr ks \<Rightarrow> cv_loop p folds n_batches_per_fold same_fold (expand a ks tg1))))"

declare cv_loop.simps [code]

definition create_tasks_cross_val ::
  "pipeline \<Rightarrow> string list \<Rightarrow> int \<Rightarrow> bool \<Rightarrow> bool \<Rightarrow> (error + task_graph) option" where
  "create_tasks_cross_val p folds n_batches_per_fold same_fold keep_estimator =
     (let tg0 = TaskGraph p;
          tg1 = foldl seed tg0
                  (map (\<lambda>h. (MetricTask, DUMMY_SCORE_STEP,
                              map (batch_id h) (py_range n_batches_per_fold), Some h)) folds);
          tg2 = (if keep_estimator
                 then foldl seed tg1
                        (concat (map (\<lambda>s. map (\<lambda>h. (TrainTask, s,
                                    batch_ids_except folds n_batches_per_fold (Some h), Some h))
                                  folds)
                           (py_range (int (length (steps_list p))))))
                 else tg1)
      in cv_loop p folds n_batches_per_fold same_fold tg2)"

subsection \<open>Specification vocabulary for the builders\<close>

text \<open>
  The dict \<^verbatim>\<open>all_tasks\<close> is faithful when it lists every task object of the heap
  exactly once, under the object's own memo key, and no key twice.
\<close>

definition dict_ok :: "task_graph \<Rightarrow> bool" where
  "dict_ok tg \<longleftrightarrow>
     map fst (all_tasks tg) = map memo_key (objs tg) \<and>
     map snd (all_tasks tg) = [0..<length (objs tg)] \<and>
     distinct (map memo_key (objs tg))"

text \<open>
  The atomic mutations a graph build performs: a \<^verbatim>\<open>find_or_create\<close> request, a pop of
  the work list, and an assignment to a field of a task that is not part of its key
  (\<^verbatim>\<open>deletable_output\<close>, \<^verbatim>\<open>preds\<close>, \<^verbatim>\<open>succs\<close>).
\<close>

inductive build_step :: "task_graph \<Rightarrow> task_graph \<Rightarrow> bool" where
  request: "build_step tg (snd (find_or_create tg k))"
| pop: "build_step tg (snd (pop_fresh tg))"
| assign: "(\<And>t. memo_key (f t) = memo_key t) \<Longrightarrow> build_step tg (update_task tg a f)"

text \<open>
  The effect of a run of requests on a graph: the heap only grows at its end, the
  objects already there keep their keys, every new object is on the work list, has no
  predecessors yet and carries one of the requested keys.
\<close>

definition extends :: "memo_key list \<Rightarrow> task_graph \<Rightarrow> task_graph \<Rightarrow> bool" where
  "extends ks g g' \<longleftrightarrow>
     dict_ok g' \<and> step_id_preds g' = step_id_preds g \<and>
     length (objs g) \<le> length (objs g') \<and>
     fresh_tasks g' = fresh_tasks g @ [length (objs g)..<length (objs g')] \<and>
     (\<forall>c<length (objs g). memo_key (objs g' ! c) = memo_key (objs g ! c)) \<and>
     (\<forall>c. length (objs g) \<le> c \<and> c < length (objs g') \<longrightarrow>
          preds (objs g' ! c) = [] \<and> memo_key (objs g' ! c) \<in> set ks)"

text \<open>
  The invariant of the work-list loop of \<^verbatim>\<open>_create_tasks_fit\<close>: a task still on the
  work list has no predecessors; a task that was popped has as predecessors the objects
  of the keys that the loop body requests for it, in the order of the requests.
\<close>

definition fit_inv :: "pipeline \<Rightarrow> string list \<Rightarrow> bool \<Rightarrow> task_graph \<Rightarrow> bool" where
  "fit_inv p all_batch_ids incremental g \<longleftrightarrow>
     dict_ok g \<and> step_id_preds g = step_id_preds (TaskGraph p) \<and>
     distinct (fresh_tasks g) \<and> (\<forall>a\<in>set (fresh_tasks g). a < length (objs g)) \<and>
     (\<forall>a<length (objs g).
        (a \<in> set (fresh_tasks g) \<longrightarrow> preds (objs g ! a) = []) \<and>
        (a \<notin> set (fresh_tasks g) \<longrightarrow>
           (\<forall>b\<in>set (preds (objs g ! a)). b < length (objs g)) \<and>
           fit_requests p g all_batch_ids incremental (objs g ! a)
             = Inr (map (\<lambda>b. memo_key (objs g ! b)) (preds (objs g ! a)))))"

text \<open>
  The batch ids of the tasks of a fit-mode graph: taken from \<^verbatim>\<open>all_batch_ids\<close>, not
  empty unless \<^verbatim>\<open>all_batch_ids\<close> is, and at most one for an ApplyTask.
\<close>

definition bids_ok :: "string list \<Rightarrow> memo_key \<Rightarrow> bool" where
  "bids_ok all_batch_ids k = (case k of (c, s, bs, h) \<Rightarrow>
     set bs \<subseteq> set all_batch_ids \<and> (all_batch_ids \<noteq> [] \<longrightarrow> bs \<noteq> []) \<and>
     (c = ApplyTask \<longrightarrow> length bs \<le> 1))"

section \<open>Batches\<close>

text \<open>
  The name \<^verbatim>\<open>SparkDataFrame\<close> is bound only when pyspark is installed
  (\<^verbatim>\<open>lale.helpers.spark_installed\<close>); \<^verbatim>\<open>_Batch.status\<close> evaluates it as soon as its
  first test fails. The flag is a parameter of the model.
\<close>

definition Batch :: "frame \<Rightarrow> frame \<Rightarrow> nat option \<Rightarrow> batch" where
  \<comment> \<open>\<^verbatim>\<open>_Batch.__init__\<close>\<close>
  "Batch X y task =
     \<lparr>batch_X = InMemory X, batch_y = InMemory y, batch_task = task,
      space = (case (X, y) of
                 (DataFrame cols, Series usage) \<Rightarrow> sum_list cols + usage
               | _ \<Rightarrow> 1)\<rparr>"

definition batch_status :: "bool \<Rightarrow> batch \<Rightarrow> error + batch_status" where
  "batch_status spark_installed b =
     (case (batch_X b, batch_y b) of
        (InMemory (DataFrame _), InMemory (Series _)) \<Rightarrow> Inr RESIDENT
      | (X, y) \<Rightarrow>
          if \<not> spark_installed then Inl NameError
          else (case (X, y) of
                  (InMemory SparkDataFrame, InMemory SparkDataFrame) \<Rightarrow> Inr RESIDENT
                | (Path _ _, Path _ _) \<Rightarrow> Inr SPILLED
                | (InMemory Ndarray, InMemory (Series _)) \<Rightarrow> Inr RESIDENT
                | (InMemory Ndarray, InMemory Ndarray) \<Rightarrow> Inr RESIDENT
                | _ \<Rightarrow> Inl AssertionError))"

definition Xy :: "bool \<Rightarrow> batch \<Rightarrow> error + slot \<times> slot" where
  "Xy spark_installed b =
     ebind (batch_status spark_installed b) (\<lambda>st.
       if st = RESIDENT then Inr (batch_X b, batch_y b) else Inl AssertionError)"

definition str_opt :: "string option \<Rightarrow> string" where
  \<comment> \<open>\<^verbatim>\<open>str\<close> of an optional fold\<close>
  "str_opt h = (case h of None \<Rightarrow> ''None'' | Some s \<Rightarrow> s)"

definition batch_str :: "task list \<Rightarrow> batch \<Rightarrow> error + string" where
  \<comment> \<open>\<^verbatim>\<open>_Batch.__str__\<close>\<close>
  "batch_str heap b =
     (case batch_task b of
        None \<Rightarrow> Inl AssertionError
      | Some a \<Rightarrow>
          if length (batch_ids (heap ! a)) \<noteq> 1 then Inl AssertionError
          else Inr (str_int (step_id (heap ! a)) @ ''_'' @ hd (batch_ids (heap ! a)) @ ''_''
                    @ str_opt (held_out (heap ! a))))"

text \<open>
  Spilling writes the object of each slot to a file and keeps the path in the slot. The
  file system is not modelled: a path carries the object that was written under it, and
  loading takes it back. The program names the two files after the batch's task.
\<close>

definition spill :: "task list \<Rightarrow> batch \<Rightarrow> string \<Rightarrow> error + batch" where
  "spill heap b spill_dir =
     ebind (batch_str heap b) (\<lambda>s.
       let name_X = spill_dir @ ''/X_'' @ s @ ''.pkl'';
           name_y = spill_dir @ ''/y_'' @ s @ ''.pkl''
       in (case batch_X b of
             InMemory (DataFrame c) \<Rightarrow>
               (case batch_y b of
                  InMemory (Series u) \<Rightarrow>
                    Inr (b\<lparr>batch_X := Path name_X (DataFrame c), batch_y := Path name_y (Series u)\<rparr>)
                | InMemory Ndarray \<Rightarrow>
                    Inr (b\<lparr>batch_X := Path name_X (DataFrame c), batch_y := Path name_y Ndarray\<rparr>)
                | _ \<Rightarrow> Inl ValueError)
           | InMemory Ndarray \<Rightarrow>
               (case batch_y b of
                  InMemory (Series u) \<Rightarrow>
                    Inr (b\<lparr>batch_X := Path name_X Ndarray, batch_y := Path name_y (Series u)\<rparr>)
                | InMemory Ndarray \<Rightarrow>
                    Inr (b\<lparr>batch_X := Path name_X Ndarray, batch_y := Path name_y Ndarray\<rparr>)
                | _ \<Rightarrow> Inl ValueError)
           | _ \<Rightarrow> Inl ValueError))"

definition load_spilled :: "batch \<Rightarrow> error + batch" where
  "load_spilled b =
     (case (batch_X b, batch_y b) of
        (Path _ data_X, Path _ data_y) \<Rightarrow>
          Inr (b\<lparr>batch_X := InMemory data_X, batch_y := InMemory data_y\<rparr>)
      | _ \<Rightarrow> Inl AssertionError)"

section \<open>Priorities\<close>

text \<open>
  A priority is a Python tuple of five components: ints, the float \<^verbatim>\<open>inf\<close> (only in
  \<^verbatim>\<open>bottom()\<close>), and one tuple of batch-id strings. Tuples compare by their first
  differing component. Python raises a TypeError when an int meets a tuple; that cannot
  happen between two priorities of one policy, nor against \<^verbatim>\<open>bottom()\<close>, which
  differs from every task priority in its first component; the comparison is given the
  value False there.
\<close>

datatype pcomp = PNum int | PInf | PStrs "string list"

fun pcomp_lt :: "pcomp \<Rightarrow> pcomp \<Rightarrow> bool" where
  "pcomp_lt (PNum a) (PNum b) = (a < b)"
| "pcomp_lt (PNum a) PInf = True"
| "pcomp_lt (PStrs a) (PStrs b) = (a < b)"
| "pcomp_lt _ _ = False"

fun tuple_lt :: "pcomp list \<Rightarrow> pcomp list \<Rightarrow> bool" where
  "tuple_lt [] [] = False"
| "tuple_lt [] (y # ys) = True"
| "tuple_lt (x # xs) [] = False"
| "tuple_lt (x # xs) (y # ys) = (if x = y then tuple_lt xs ys else pcomp_lt x y)"

datatype prio = PrioStep | PrioBatch | PrioResourceAware

definition bottom :: "pcomp list" where
  "bottom = replicate 5 PInf"

fun non_resident_space :: "bool \<Rightarrow> task list \<Rightarrow> nat list \<Rightarrow> error + int" where
  "non_resident_space spark heap [] = Inr 0"
| "non_resident_space spark heap (a # as) =
     (if cls (heap ! a) = ApplyTask
      then (case batch (heap ! a) of
              None \<Rightarrow> non_resident_space spark heap as
            | Some b \<Rightarrow>
                ebind (batch_status spark b) (\<lambda>st.
                ebind (non_resident_space spark heap as) (\<lambda>r.
                  Inr (if st \<noteq> RESIDENT then space b + r else r))))
      else non_resident_space spark heap as)"

definition train_flag :: "task \<Rightarrow> int" where
  \<comment> \<open>\<^verbatim>\<open>0 if isinstance(task, _TrainTask) else 1\<close>\<close>
  "train_flag t = (if cls t = TrainTask then 0 else 1)"

definition task_priority :: "prio \<Rightarrow> bool \<Rightarrow> task list \<Rightarrow> task \<Rightarrow> error + pcomp list" where
  "task_priority pr spark heap t =
     (case pr of
        PrioStep \<Rightarrow>
          Inr [PNum (status_value (status t)), PNum (step_id t), PNum (int (length (batch_ids t))),
               PStrs (batch_ids t), PNum (train_flag t)]
      | PrioBatch \<Rightarrow>
          Inr [PNum (status_value (status t)), PNum (int (length (batch_ids t))),
               PStrs (batch_ids t), PNum (step_id t), PNum (train_flag t)]
      | PrioResourceAware \<Rightarrow>
          ebind (non_resident_space spark heap (preds t)) (\<lambda>non_res.
            Inr [PNum (status_value (status t)), PNum non_res, PStrs (batch_ids t),
                 PNum (step_id t), PNum (train_flag t)]))"

definition tuple_min :: "pcomp list list \<Rightarrow> pcomp list \<Rightarrow> pcomp list" where
  \<comment> \<open>\<^verbatim>\<open>min(xs, default=d)\<close>: the first of the smallest elements\<close>
  "tuple_min xs d = (case xs of [] \<Rightarrow> d
     | x # r \<Rightarrow> foldl (\<lambda>m v. if tuple_lt v m then v else m) x r)"

definition batch_priority :: "prio \<Rightarrow> bool \<Rightarrow> task list \<Rightarrow> batch \<Rightarrow> error + pcomp list" where
  "batch_priority pr spark heap b =
     (case batch_task b of
        None \<Rightarrow> Inl AssertionError
      | Some a \<Rightarrow>
          ebind (emap (\<lambda>s. task_priority pr spark heap (heap ! s))
                   (filter (\<lambda>s. status (heap ! s) \<in> {READY, WAITING}) (succs (heap ! a)))) (\<lambda>ps.
            Inr (tuple_min ps bottom)))"

text \<open>
  What the builders rely on in a pipeline object: list indices fit a machine word, every
  predecessor and the sink are steps of the pipeline.
\<close>

definition wf_pipeline :: "pipeline \<Rightarrow> bool" where
  "wf_pipeline p \<longleftrightarrow>
     int (length (steps_list p)) \<le> sys_maxsize \<and>
     (\<forall>st\<in>set (steps_list p). \<forall>q\<in>set (step_preds st). q < length (steps_list p)) \<and>
     (\<forall>k. get_last p = Some k \<longrightarrow> k < length (steps_list p))"

definition fit_key_ok :: "pipeline \<Rightarrow> memo_key \<Rightarrow> bool" where
  "fit_key_ok p k = (case k of (c, s, bs, h) \<Rightarrow>
     h = None \<and> (if c = MetricTask then s = DUMMY_SCORE_STEP
                  else s < int (length (steps_list p))))"

text \<open>
  What holds of the key of every task in either mode: a MetricTask has the score step,
  every other task a step of the pipeline or the input step.
\<close>

definition step_key_ok :: "pipeline \<Rightarrow> memo_key \<Rightarrow> bool" where
  "step_key_ok p k = (case k of (c, s, bs, h) \<Rightarrow>
     (if c = MetricTask then s = DUMMY_SCORE_STEP else s < int (length (steps_list p))))"

section \<open>Batch cache\<close>

text \<open>
  The fields of \<^verbatim>\<open>_RunStats\<close> that the cache updates. What the program writes with
  \<^verbatim>\<open>logger.warning\<close> is kept as a list of warnings; what it prints under
  \<^verbatim>\<open>verbose >= 2\<close> is left out.
\<close>

record run_stats =
  spill_count :: int
  load_count :: int
  spill_space :: int
  load_space :: int
  stat_min_resident :: int
  stat_max_resident :: int

datatype warning = EnsureSpaceFailed | AbortedSpill string

record batch_cache =
  cache_tasks :: "(memo_key \<times> nat) list"
  max_resident :: int
  cache_prio :: prio
  spill_path :: "string option"
  stats :: run_stats
  warnings :: "warning list"

definition BatchCache :: "(memo_key \<times> nat) list \<Rightarrow> int option \<Rightarrow> prio \<Rightarrow> batch_cache" where
  \<comment> \<open>\<^verbatim>\<open>_BatchCache.__init__\<close>\<close>
  "BatchCache tasks max_res pr =
     (let m = (case max_res of None \<Rightarrow> sys_maxsize | Some v \<Rightarrow> v)
      in \<lparr>cache_tasks = tasks, max_resident = m, cache_prio = pr, spill_path = None,
          stats = \<lparr>spill_count = 0, load_count = 0, spill_space = 0, load_space = 0,
                    stat_min_resident = 0, stat_max_resident = m\<rparr>,
          warnings = []\<rparr>)"

definition cache_enter :: "string \<Rightarrow> batch_cache \<Rightarrow> batch_cache" where
  \<comment> \<open>\<^verbatim>\<open>__enter__\<close>; the argument is the name of the fresh temporary directory\<close>
  "cache_enter tmp c = (if max_resident c < sys_maxsize then c\<lparr>spill_path := Some tmp\<rparr> else c)"

definition get_apply_preds :: "task list \<Rightarrow> task \<Rightarrow> error + nat list" where
  "get_apply_preds heap t =
     (let result = filter (\<lambda>a. cls (heap ! a) = ApplyTask) (preds t)
      in if list_all (\<lambda>a. batch (heap ! a) \<noteq> None) result then Inr result
         else Inl AssertionError)"

text \<open>
  A batch object is referred to by the reference of the task that owns it
  (\<^verbatim>\<open>batch.task\<close>): the executor creates each batch for one task and never moves it.
\<close>

definition batch_space :: "task list \<Rightarrow> nat \<Rightarrow> error + int" where
  \<comment> \<open>\<^verbatim>\<open>b.space\<close> for the batch of a task\<close>
  "batch_space heap a = (case batch (heap ! a) of None \<Rightarrow> Inl AttributeError | Some b \<Rightarrow> Inr (space b))"

definition sum_spaces :: "task list \<Rightarrow> nat list \<Rightarrow> error + int" where
  "sum_spaces heap as = ebind (emap (batch_space heap) as) (\<lambda>xs. Inr (sum_list xs))"

fun insert_by_key :: "pcomp list \<times> nat \<Rightarrow> (pcomp list \<times> nat) list \<Rightarrow> (pcomp list \<times> nat) list" where
  "insert_by_key x [] = [x]"
| "insert_by_key x (y # ys) =
     (if tuple_lt (fst x) (fst y) then x # y # ys else y # insert_by_key x ys)"

definition sort_by_key :: "(pcomp list \<times> nat) list \<Rightarrow> (pcomp list \<times> nat) list" where
  \<comment> \<open>\<^verbatim>\<open>list.sort(key=...)\<close>: stable, ascending\<close>
  "sort_by_key xs = foldl (\<lambda>acc x. insert_by_key x acc) [] xs"

definition resident_batches :: "bool \<Rightarrow> batch_cache \<Rightarrow> task list \<Rightarrow> error + nat list" where
  "resident_batches spark c heap =
     ebind (emap (\<lambda>a.
              if cls (heap ! a) = ApplyTask
              then (case batch (heap ! a) of
                      None \<Rightarrow> Inr False
                    | Some b \<Rightarrow> ebind (batch_status spark b) (\<lambda>st. Inr (st = RESIDENT)))
              else Inr False) (map snd (cache_tasks c))) (\<lambda>keep.
       Inr (map fst (filter snd (zip (map snd (cache_tasks c)) keep))))"

text \<open>
  The while loop of \<^verbatim>\<open>ensure_space\<close>. The list holds the resident batches still to
  be considered, the next one to pop first (the sorted list, reversed).
\<close>

fun spill_loop ::
  "bool \<Rightarrow> int \<Rightarrow> nat list \<Rightarrow> nat list \<Rightarrow> int \<Rightarrow> batch_cache \<Rightarrow> task list \<Rightarrow>
   error + batch_cache \<times> task list" where
  "spill_loop spark amount_needed no_spill_set [] resident_space c heap =
     (if resident_space + amount_needed > max_resident c
      then Inr (c\<lparr>warnings := warnings c @ [EnsureSpaceFailed]\<rparr>, heap)
      else Inr (c, heap))"
| "spill_loop spark amount_needed no_spill_set (a # rest) resident_space c heap =
     (if resident_space + amount_needed > max_resident c
      then (case batch (heap ! a) of
              None \<Rightarrow> Inl AttributeError
            | Some b \<Rightarrow>
                ebind (batch_status spark b) (\<lambda>st.
                  if st \<noteq> RESIDENT \<or> batch_task b = None then Inl AssertionError
                  else if a \<in> set no_spill_set then
                    ebind (batch_str heap b) (\<lambda>s.
                      spill_loop spark amount_needed no_spill_set rest resident_space
                        (c\<lparr>warnings := warnings c @ [AbortedSpill s]\<rparr>) heap)
                  else (case spill_path c of
                          None \<Rightarrow> Inl AssertionError
                        | Some dir \<Rightarrow>
                            ebind (spill heap b dir) (\<lambda>b'.
                              spill_loop spark amount_needed no_spill_set rest
                                (resident_space - space b')
                                (c\<lparr>stats := (stats c)\<lparr>spill_count := spill_count (stats c) + 1,
                                       spill_space := spill_space (stats c) + space b'\<rparr>\<rparr>)
                                (heap[a := (heap ! a)\<lparr>batch := Some b'\<rparr>])))))
      else Inr (c, heap))"

definition ensure_space ::
  "bool \<Rightarrow> batch_cache \<Rightarrow> task list \<Rightarrow> int \<Rightarrow> nat list \<Rightarrow> error + batch_cache \<times> task list" where
  "ensure_space spark c heap amount_needed no_spill_set =
     ebind (sum_spaces heap no_spill_set) (\<lambda>no_spill_space.
       let min_res = amount_needed + no_spill_space;
           c1 = c\<lparr>stats := (stats c)\<lparr>stat_min_resident := max (stat_min_resident (stats c)) min_res\<rparr>\<rparr>
       in ebind (resident_batches spark c1 heap) (\<lambda>res.
          ebind (emap (\<lambda>a. case batch (heap ! a) of
                              None \<Rightarrow> Inl AttributeError
                            | Some b \<Rightarrow> batch_priority (cache_prio c1) spark heap b) res) (\<lambda>keys.
          ebind (sum_spaces heap res) (\<lambda>resident_space.
            spill_loop spark amount_needed no_spill_set
              (rev (map snd (sort_by_key (zip keys res)))) resident_space c1 heap))))"

fun load_loop ::
  "bool \<Rightarrow> nat list \<Rightarrow> nat list \<Rightarrow> batch_cache \<Rightarrow> task list \<Rightarrow> error + batch_cache \<times> task list" where
  "load_loop spark no_spill_set [] c heap = Inr (c, heap)"
| "load_loop spark no_spill_set (a # rest) c heap =
     (case batch (heap ! a) of
        None \<Rightarrow> Inl AssertionError
      | Some b \<Rightarrow>
          ebind (batch_status spark b) (\<lambda>st.
            if st = SPILLED then
              ebind (ensure_space spark c heap (space b) no_spill_set) (\<lambda>(c1, heap1).
                (case batch (heap1 ! a) of
                   None \<Rightarrow> Inl AttributeError
                 | Some b1 \<Rightarrow>
                     ebind (load_spilled b1) (\<lambda>b2.
                       load_loop spark no_spill_set rest
                         (c1\<lparr>stats := (stats c1)\<lparr>load_count := load_count (stats c1) + 1,
                                 load_space := load_space (stats c1) + space b2\<rparr>\<rparr>)
                         (heap1[a := (heap1 ! a)\<lparr>batch := Some b2\<rparr>]))))
            else load_loop spark no_spill_set rest c heap))"

fun check_resident :: "bool \<Rightarrow> task list \<Rightarrow> nat list \<Rightarrow> error + unit" where
  "check_resident spark heap [] = Inr ()"
| "check_resident spark heap (a # rest) =
     (case batch (heap ! a) of
        None \<Rightarrow> Inl AssertionError
      | Some b \<Rightarrow>
          ebind (batch_status spark b) (\<lambda>st.
            if st = RESIDENT then check_resident spark heap rest else Inl AssertionError))"

definition load_input_batches ::
  "bool \<Rightarrow> batch_cache \<Rightarrow> task list \<Rightarrow> task \<Rightarrow> error + batch_cache \<times> task list" where
  "load_input_batches spark c heap t =
     ebind (get_apply_preds heap t) (\<lambda>apply_preds.
     ebind (load_loop spark (remdups apply_preds) apply_preds c heap) (\<lambda>(c1, heap1).
     ebind (check_resident spark heap1 apply_preds) (\<lambda>_. Inr (c1, heap1))))"

text \<open>
  How the executor reads the batch of a predecessor: every access to \<^verbatim>\<open>Xy\<close> in
  \<^verbatim>\<open>_run_tasks_inner\<close> (in the branches for TRANSFORM and PREDICT, FIT, PARTIAL_FIT
  and TO_MONOID) is on the batch of a predecessor of the task, after the call
  \<^verbatim>\<open>cache.load_input_batches(task)\<close> of the same branch, with nothing between the two
  that touches a batch.
\<close>

definition load_then_Xy ::
  "bool \<Rightarrow> batch_cache \<Rightarrow> task list \<Rightarrow> task \<Rightarrow> nat \<Rightarrow>
   error + (batch_cache \<times> task list) \<times> (slot \<times> slot)" where
  "load_then_Xy spark c heap t a =
     ebind (load_input_batches spark c heap t) (\<lambda>(c1, heap1).
       (case batch (heap1 ! a) of
          None \<Rightarrow> Inl AttributeError
        | Some b \<Rightarrow> ebind (Xy spark b) (\<lambda>xy. Inr ((c1, heap1), xy))))"

subsection \<open>Specification vocabulary for the cache\<close>

text \<open>
  The pandas and numpy representations of a batch: the combinations that
  \<^verbatim>\<open>status\<close> accepts as resident and \<^verbatim>\<open>spill\<close> can write. A well-formed batch holds
  such a pair, both slots in memory or both spilled.
\<close>

fun in_memory_ok :: "frame \<Rightarrow> frame \<Rightarrow> bool" where
  "in_memory_ok (DataFrame _) (Series _) = True"
| "in_memory_ok Ndarray (Series _) = True"
| "in_memory_ok Ndarray Ndarray = True"
| "in_memory_ok _ _ = False"

definition batch_wf :: "batch \<Rightarrow> bool" where
  "batch_wf b = (case (batch_X b, batch_y b) of
      (InMemory fx, InMemory fy) \<Rightarrow> in_memory_ok fx fy
    | (Path _ fx, Path _ fy) \<Rightarrow> in_memory_ok fx fy
    | _ \<Rightarrow> False)"

definition heap_ok :: "task list \<Rightarrow> bool" where
  \<comment> \<open>references are valid; a batch belongs to an ApplyTask over one batch id and points back to it\<close>
  "heap_ok heap \<longleftrightarrow>
     (\<forall>a<length heap.
        (\<forall>q\<in>set (preds (heap ! a)). q < length heap) \<and>
        (\<forall>s\<in>set (succs (heap ! a)). s < length heap) \<and>
        (\<forall>b. batch (heap ! a) = Some b \<longrightarrow>
           batch_wf b \<and> batch_task b = Some a \<and> cls (heap ! a) = ApplyTask \<and>
           length (batch_ids (heap ! a)) = 1))"

definition cache_ok :: "batch_cache \<Rightarrow> task list \<Rightarrow> bool" where
  "cache_ok c heap \<longleftrightarrow>
     heap_ok heap \<and> distinct (map snd (cache_tasks c)) \<and>
     (\<forall>a\<in>set (map snd (cache_tasks c)). a < length heap)"

definition resident_space :: "bool \<Rightarrow> batch_cache \<Rightarrow> task list \<Rightarrow> int" where
  \<comment> \<open>the total space of the resident batches of the cache's tasks\<close>
  "resident_space spark c heap =
     sum_list (map (\<lambda>a. case batch (heap ! a) of
                          None \<Rightarrow> 0
                        | Some b \<Rightarrow> if cls (heap ! a) = ApplyTask \<and> batch_status spark b = Inr RESIDENT
                                    then space b else 0)
                   (map snd (cache_tasks c)))"

definition only_batches_changed :: "task list \<Rightarrow> task list \<Rightarrow> bool" where
  "only_batches_changed heap heap' \<longleftrightarrow>
     length heap' = length heap \<and>
     (\<forall>a<length heap. (heap' ! a)\<lparr>batch := batch (heap ! a)\<rparr> = heap ! a)"

definition is_resident :: "task list \<Rightarrow> nat \<Rightarrow> bool" where
  \<comment> \<open>the task is an ApplyTask that owns a resident batch\<close>
  "is_resident heap a \<longleftrightarrow>
     cls (heap ! a) = ApplyTask \<and>
     (\<exists>b. batch (heap ! a) = Some b \<and> batch_status True b = Inr RESIDENT)"

text \<open>
  What a normal return of the eviction loop over the candidates \<open>L\<close> guarantees: only
  batches changed, none of the protected set and none outside \<open>L\<close>; a batch keeps its
  space and a spilled batch stays as it is; and either the resident total plus the amount
  fits under the ceiling, or the last warning reports the failure and every candidate
  outside the protected set is spilled.
\<close>

definition ensured ::
  "int \<Rightarrow> nat list \<Rightarrow> nat list \<Rightarrow> batch_cache \<Rightarrow> task list \<Rightarrow> batch_cache \<Rightarrow> task list \<Rightarrow> bool" where
  "ensured amount ns L c heap c' heap' \<longleftrightarrow>
     cache_ok c' heap' \<and> only_batches_changed heap heap' \<and>
     cache_tasks c' = cache_tasks c \<and> max_resident c' = max_resident c \<and>
     spill_path c' = spill_path c \<and> cache_prio c' = cache_prio c \<and>
     (\<forall>a<length heap. a \<in> set ns \<or> a \<notin> set L \<longrightarrow> heap' ! a = heap ! a) \<and>
     (\<forall>a<length heap.
        case batch (heap ! a) of
          None \<Rightarrow> batch (heap' ! a) = None
        | Some b \<Rightarrow> (\<exists>b'. batch (heap' ! a) = Some b' \<and> space b' = space b \<and>
                         (batch_status True b = Inr SPILLED \<longrightarrow> b' = b))) \<and>
     (resident_space True c' heap' + amount \<le> max_resident c' \<or>
      (warnings c' \<noteq> [] \<and> last (warnings c') = EnsureSpaceFailed \<and>
       (\<forall>a\<in>set L. a \<notin> set ns \<longrightarrow>
          (\<exists>b. batch (heap' ! a) = Some b \<and> batch_status True b = Inr SPILLED))))"

text \<open>
  The order in which the eviction loop takes its candidates, and how far it goes. The
  candidates are the resident batches of the cache, each with the value of
  \<^verbatim>\<open>batch_priority\<close> at the time of the call as its key. The loop takes them by
  descending key, the batch that is needed last first; among batches of equal key the one
  that comes later in the dict goes first (the sort is stable, and the loop pops from the
  end).
\<close>

definition space_of :: "task list \<Rightarrow> nat \<Rightarrow> int" where
  "space_of heap a = (case batch (heap ! a) of None \<Rightarrow> 0 | Some b \<Rightarrow> space b)"

definition key_of :: "prio \<Rightarrow> task list \<Rightarrow> nat \<Rightarrow> pcomp list" where
  "key_of pr heap a =
     (case batch (heap ! a) of
        None \<Rightarrow> []
      | Some b \<Rightarrow> (case batch_priority pr True heap b of Inr k \<Rightarrow> k | Inl _ \<Rightarrow> []))"

definition batch_name :: "task list \<Rightarrow> nat \<Rightarrow> string" where
  "batch_name heap a =
     (case batch (heap ! a) of
        None \<Rightarrow> []
      | Some b \<Rightarrow> (case batch_str heap b of Inr s \<Rightarrow> s | Inl _ \<Rightarrow> []))"

definition position :: "nat list \<Rightarrow> nat \<Rightarrow> nat" where
  \<comment> \<open>the index of the first occurrence\<close>
  "position xs x = length (takeWhile (\<lambda>z. z \<noteq> x) xs)"

definition comparable_keys :: "prio \<Rightarrow> task list \<Rightarrow> nat list \<Rightarrow> bool" where
  "comparable_keys pr heap residents \<longleftrightarrow>
     (\<forall>a\<in>set residents. \<forall>x\<in>set residents.
        key_of pr heap a = key_of pr heap x \<or>
        tuple_lt (key_of pr heap a) (key_of pr heap x) \<or>
        tuple_lt (key_of pr heap x) (key_of pr heap a))"

definition eviction_order :: "prio \<Rightarrow> task list \<Rightarrow> nat list \<Rightarrow> nat list \<Rightarrow> bool" where
  "eviction_order pr heap residents L \<longleftrightarrow>
     distinct L \<and> set L = set residents \<and>
     sorted_wrt (\<lambda>a x. \<not> tuple_lt (key_of pr heap a) (key_of pr heap x) \<and>
                        (\<not> tuple_lt (key_of pr heap x) (key_of pr heap a) \<longrightarrow>
                           position residents x < position residents a)) L"

definition spill_task :: "batch_cache \<Rightarrow> task list \<Rightarrow> nat \<Rightarrow> task" where
  \<comment> \<open>the task after its batch has been written to the spill directory\<close>
  "spill_task c heap a =
     (case (spill_path c, batch (heap ! a)) of
        (Some dir, Some b) \<Rightarrow>
          (case spill heap b dir of Inr b' \<Rightarrow> (heap ! a)\<lparr>batch := Some b'\<rparr> | Inl _ \<Rightarrow> heap ! a)
      | _ \<Rightarrow> heap ! a)"

text \<open>
  The loop has taken the first \<open>k\<close> candidates of \<open>L\<close>: before each of them the resident
  total plus the amount was above the ceiling; those outside the protected set are
  spilled and nothing else in the heap has changed; for each protected one a warning is
  logged; the loop stopped before the end of the list only with the ceiling met; and the
  failure warning is logged exactly when the total is still above the ceiling on return.
\<close>

definition evicted_prefix ::
  "int \<Rightarrow> nat list \<Rightarrow> nat list \<Rightarrow> nat \<Rightarrow> batch_cache \<Rightarrow> task list \<Rightarrow> batch_cache \<Rightarrow> task list \<Rightarrow> bool" where
  "evicted_prefix amount ns L k c heap c' heap' \<longleftrightarrow>
     k \<le> length L \<and> length heap' = length heap \<and>
     (\<forall>a<length heap.
        heap' ! a = (if a \<in> set (take k L) \<and> a \<notin> set ns then spill_task c heap a else heap ! a)) \<and>
     (\<forall>j<k. resident_space True c heap
               - sum_list (map (space_of heap) (filter (\<lambda>a. a \<notin> set ns) (take j L)))
               + amount > max_resident c) \<and>
     (k < length L \<longrightarrow> resident_space True c' heap' + amount \<le> max_resident c') \<and>
     warnings c' =
       warnings c @ map (\<lambda>a. AbortedSpill (batch_name heap a)) (filter (\<lambda>a. a \<in> set ns) (take k L))
       @ (if resident_space True c' heap' + amount > max_resident c' then [EnsureSpaceFailed] else [])"

section \<open>Executor\<close>

text \<open>
  The first loop of \<^verbatim>\<open>_run_tasks_inner\<close>: every task must be FRESH, and becomes READY
  when it has no predecessors, WAITING otherwise. The dict is walked in insertion order.
\<close>

fun init_status :: "nat list \<Rightarrow> task list \<Rightarrow> error + task list" where
  "init_status [] heap = Inr heap"
| "init_status (a # as) heap =
     (if status (heap ! a) \<noteq> FRESH then Inl AssertionError
      else init_status as
             (heap[a := (heap ! a)\<lparr>status := (if preds (heap ! a) = [] then READY else WAITING)\<rparr>]))"

definition start_run :: "task_graph \<Rightarrow> error + task list" where
  "start_run tg = init_status (map snd (all_tasks tg)) (objs tg)"

definition the_heap :: "error + task list \<Rightarrow> task list" where
  "the_heap r = (case r of Inr h \<Rightarrow> h | Inl _ \<Rightarrow> [])"

section \<open>Example inputs\<close>

text \<open>
  A two-step pipeline: an associative transformer (a scaler, say) followed by a
  classifier that is neither associative nor incremental.
\<close>

definition scaler :: step where
  "scaler = \<lparr>is_trained_op = False, is_frozen_trained = False, impl_has_fit = True,
      has_partial_fit = False, impl_is_monoid_factory = True, is_transformer = True,
      step_preds = []\<rparr>"

definition classifier :: step where
  "classifier = \<lparr>is_trained_op = False, is_frozen_trained = False, impl_has_fit = True,
      has_partial_fit = False, impl_is_monoid_factory = False, is_transformer = False,
      step_preds = [0]\<rparr>"

definition example_pipeline :: pipeline where
  "example_pipeline = \<lparr>steps_list = [scaler, classifier], get_last = Some 1\<rparr>"

definition fit_batch_ids :: "int \<Rightarrow> string list" where
  \<comment> \<open>\<^verbatim>\<open>all_batch_ids\<close> as \<^verbatim>\<open>fit_with_batches\<close> builds it\<close>
  "fit_batch_ids n_batches = map (batch_id ''d'') (py_range n_batches)"

definition built :: "(error + task_graph) option \<Rightarrow> bool" where
  "built r = (case r of Some (Inr _) \<Rightarrow> True | _ \<Rightarrow> False)"

definition the_graph :: "(error + task_graph) option \<Rightarrow> task_graph" where
  "the_graph r = (case r of Some (Inr tg) \<Rightarrow> tg | _ \<Rightarrow> TaskGraph \<lparr>steps_list = [], get_last = None\<rparr>)"

text \<open>
  The executor after it has scanned the first of two input batches, held in the given
  representation, and a cache with a ceiling.
\<close>

definition scanned :: "frame \<Rightarrow> frame \<Rightarrow> task list" where
  "scanned X y =
     [(new_task (ApplyTask, DUMMY_INPUT_STEP, [''d0''], None))
        \<lparr>status := DONE, batch := Some (Batch X y (Some 0))\<rparr>,
      (new_task (ApplyTask, DUMMY_INPUT_STEP, [''d1''], None))\<lparr>status := READY\<rparr>]"

definition scan_cache :: "int \<Rightarrow> batch_cache" where
  "scan_cache ceiling =
     cache_enter ''tmp''
       (BatchCache [((ApplyTask, DUMMY_INPUT_STEP, [''d0''], None), 0),
                    ((ApplyTask, DUMMY_INPUT_STEP, [''d1''], None), 1)]
          (Some ceiling) PrioResourceAware)"

text \<open>
  A state of an incremental fit of a one-step pipeline over three batches, under the
  policy by step order: the first two input batches have been scanned and are resident,
  the third has not; the partial fit on the first batch is ready, the one that continues
  it with the second batch waits for it. Each batch takes 100 units.
\<close>

definition scanned_two :: "task list" where
  "scanned_two =
     [(new_task (ApplyTask, DUMMY_INPUT_STEP, [''d0''], None))
        \<lparr>status := DONE, succs := [3],
         batch := Some (Batch (DataFrame [40, 40]) (Series 20) (Some 0))\<rparr>,
      (new_task (ApplyTask, DUMMY_INPUT_STEP, [''d1''], None))
        \<lparr>status := DONE, succs := [4],
         batch := Some (Batch (DataFrame [40, 40]) (Series 20) (Some 1))\<rparr>,
      (new_task (ApplyTask, DUMMY_INPUT_STEP, [''d2''], None))\<lparr>status := READY, succs := [5]\<rparr>,
      (new_task (TrainTask, 0, [''d0''], None))\<lparr>status := READY, preds := [0], succs := [4]\<rparr>,
      (new_task (TrainTask, 0, [''d0'', ''d1''], None))
        \<lparr>status := WAITING, preds := [3, 1], succs := [5]\<rparr>,
      (new_task (TrainTask, 0, [''d0'', ''d1'', ''d2''], None))
        \<lparr>status := WAITING, preds := [4, 2]\<rparr>]"

definition scan_two_cache :: "int \<Rightarrow> batch_cache" where
  "scan_two_cache ceiling =
     cache_enter ''tmp''
       (BatchCache (zip (map memo_key scanned_two) [0 ..< length scanned_two])
          (Some ceiling) PrioStep)"

definition batch_states :: "error + batch_cache \<times> task list \<Rightarrow> (error + batch_status) option list" where
  \<comment> \<open>the status of the batch of every task after a call of the cache\<close>
  "batch_states r =
     (case r of Inr (c, heap) \<Rightarrow> map (\<lambda>t. map_option (batch_status True) (batch t)) heap
      | Inl _ \<Rightarrow> [])"

text \<open>
  The same state after the second input batch has been spilled, and the task that
  continues the partial fit with that batch.
\<close>

definition spilled_two :: "task list" where
  "spilled_two =
     scanned_two[1 := (scanned_two ! 1)
       \<lparr>batch := Some ((Batch (DataFrame [40, 40]) (Series 20) (Some 1))
          \<lparr>batch_X := Path ''tmp/X_-1_d1_None.pkl'' (DataFrame [40, 40]),
           batch_y := Path ''tmp/y_-1_d1_None.pkl'' (Series 20)\<rparr>)\<rparr>]"

section \<open>Properties of batch ids\<close>

lemma digit_char_code: "d < 10 \<Longrightarrow> (of_char (digit_char d) :: nat) = 48 + d"
proof -
  assume "d < 10"
  then have "d \<in> {0,1,2,3,4,5,6,7,8,9}" by auto
  then show ?thesis by (auto simp: digit_char_def)
qed

lemma is_digit_digit_char: "d < 10 \<Longrightarrow> is_digit (digit_char d)"
  by (simp add: is_digit_def digit_char_code)

lemma digit_val_digit_char: "d < 10 \<Longrightarrow> digit_val (digit_char d) = d"
  by (simp add: digit_val_def digit_char_code)

lemma str_nat_digits: "list_all is_digit (str_nat n)"
proof (induction n rule: str_nat.induct)
  case (1 n)
  show ?case
  proof (cases "n < 10")
    case True
    then show ?thesis by (subst str_nat.simps) (simp add: is_digit_digit_char)
  next
    case False
    with 1 show ?thesis by (subst str_nat.simps) (simp add: is_digit_digit_char)
  qed
qed

lemma str_nat_nonempty: "str_nat n \<noteq> []"
  by (subst str_nat.simps) simp

lemma nat_of_digits_snoc: "nat_of_digits (s @ [c]) = 10 * nat_of_digits s + digit_val c"
  by (simp add: nat_of_digits_def)

lemma nat_of_digits_str_nat: "nat_of_digits (str_nat n) = n"
proof (induction n rule: str_nat.induct)
  case (1 n)
  show ?case
  proof (cases "n < 10")
    case True
    then show ?thesis by (subst str_nat.simps) (simp add: nat_of_digits_def digit_val_digit_char)
  next
    case False
    with 1 show ?thesis
      by (subst str_nat.simps) (simp add: nat_of_digits_snoc digit_val_digit_char)
  qed
qed

lemma foldl_digits_shift:
  "foldl (\<lambda>acc c. 10 * acc + digit_val c) a s = a * 10 ^ length s + nat_of_digits s"
proof (induction s arbitrary: a rule: rev_induct)
  case Nil
  show ?case by (simp add: nat_of_digits_def)
next
  case (snoc c s)
  have "foldl (\<lambda>acc c. 10 * acc + digit_val c) a (s @ [c])
        = 10 * (a * 10 ^ length s + nat_of_digits s) + digit_val c"
    by (simp add: snoc)
  also have "\<dots> = a * 10 ^ length (s @ [c]) + nat_of_digits (s @ [c])"
    by (simp add: nat_of_digits_snoc algebra_simps)
  finally show ?case .
qed

lemma nat_of_digits_Cons: "nat_of_digits (c # s) = digit_val c * 10 ^ length s + nat_of_digits s"
  using foldl_digits_shift [of "digit_val c" s] by (simp add: nat_of_digits_def)

lemma nat_of_digits_bound: "list_all is_digit s \<Longrightarrow> nat_of_digits s < 10 ^ length s"
proof (induction s)
  case Nil
  show ?case by (simp add: nat_of_digits_def)
next
  case (Cons c s)
  then have v: "digit_val c \<le> 9" and b: "nat_of_digits s < 10 ^ length s"
    by (auto simp: is_digit_def digit_val_def)
  have "digit_val c * 10 ^ length s + nat_of_digits s < 9 * 10 ^ length s + 10 ^ length s"
    using v b by (meson add_le_less_mono mult_le_mono1)
  then show ?case by (simp add: nat_of_digits_Cons)
qed

lemma digit_less_iff: "is_digit c \<Longrightarrow> is_digit d \<Longrightarrow> c < d \<longleftrightarrow> digit_val c < digit_val d"
  by (auto simp: is_digit_def digit_val_def less_char_def)

lemma digit_eq_iff: "is_digit c \<Longrightarrow> is_digit d \<Longrightarrow> c = d \<longleftrightarrow> digit_val c = digit_val d"
  by (auto simp: is_digit_def digit_val_def) (metis le_add_diff_inverse2 of_char_eq_iff)

lemma digits_less_iff:
  "length s = length t \<Longrightarrow> list_all is_digit s \<Longrightarrow> list_all is_digit t \<Longrightarrow>
   s < t \<longleftrightarrow> nat_of_digits s < nat_of_digits t"
proof (induction s t rule: list_induct2)
  case Nil
  show ?case by simp
next
  case (Cons c s d t)
  then have ih: "s < t \<longleftrightarrow> nat_of_digits s < nat_of_digits t"
    and cd: "is_digit c" "is_digit d"
    and bs: "nat_of_digits s < 10 ^ length s" and bt: "nat_of_digits t < 10 ^ length s"
    using nat_of_digits_bound [of s] nat_of_digits_bound [of t] by auto
  let ?p = "(10::nat) ^ length s"
  have lt: "digit_val c < digit_val d \<Longrightarrow>
      digit_val c * ?p + nat_of_digits s < digit_val d * ?p + nat_of_digits t"
  proof -
    assume "digit_val c < digit_val d"
    then have "Suc (digit_val c) \<le> digit_val d" by simp
    then have "Suc (digit_val c) * ?p \<le> digit_val d * ?p" by (rule mult_le_mono1)
    then show ?thesis using bs by simp
  qed
  have gt: "digit_val d < digit_val c \<Longrightarrow>
      \<not> digit_val c * ?p + nat_of_digits s < digit_val d * ?p + nat_of_digits t"
  proof -
    assume "digit_val d < digit_val c"
    then have "Suc (digit_val d) \<le> digit_val c" by simp
    then have "Suc (digit_val d) * ?p \<le> digit_val c * ?p" by (rule mult_le_mono1)
    then show ?thesis using bt by simp
  qed
  have lhs: "c # s < d # t \<longleftrightarrow> digit_val c < digit_val d \<or>
      digit_val c = digit_val d \<and> nat_of_digits s < nat_of_digits t"
    by (simp add: digit_less_iff [OF cd] digit_eq_iff [OF cd] ih)
  have len: "length t = length s" using Cons.hyps by simp
  consider "digit_val c < digit_val d" | "digit_val d < digit_val c" | "digit_val c = digit_val d"
    by linarith
  then show ?case
  proof cases
    case 1
    then show ?thesis using lt lhs by (simp add: nat_of_digits_Cons len)
  next
    case 2
    then show ?thesis using gt lhs by (simp add: nat_of_digits_Cons len)
  next
    case 3
    then show ?thesis using lhs by (simp add: nat_of_digits_Cons len)
  qed
qed

lemma str_nat_less_iff:
  "length (str_nat a) = length (str_nat b) \<Longrightarrow> str_nat a < str_nat b \<longleftrightarrow> a < b"
  using digits_less_iff [of "str_nat a" "str_nat b"]
  by (simp add: str_nat_digits nat_of_digits_str_nat)

lemma str_nat_inj: "str_nat a = str_nat b \<Longrightarrow> a = b"
  by (metis nat_of_digits_str_nat)

lemma nat_of_digits_append:
  "nat_of_digits (s @ r) = nat_of_digits s * 10 ^ length r + nat_of_digits r"
  using foldl_digits_shift [of "nat_of_digits s" r] by (simp add: nat_of_digits_def)

lemma nat_of_digits_take:
  assumes "list_all is_digit s"
  shows "nat_of_digits (take m s) = nat_of_digits s div 10 ^ (length s - m)"
proof -
  have d: "list_all is_digit (drop m s)" using assms by (simp add: list_all_iff) (meson in_set_dropD)
  have b: "nat_of_digits (drop m s) < 10 ^ (length s - m)"
    using nat_of_digits_bound [OF d] by simp
  have "nat_of_digits s = nat_of_digits (take m s @ drop m s)" by simp
  also have "\<dots> = nat_of_digits (take m s) * 10 ^ (length s - m) + nat_of_digits (drop m s)"
    by (simp only: nat_of_digits_append length_drop)
  finally show ?thesis using b by simp
qed

lemma digits_eq_iff:
  assumes "length s = length t" and "list_all is_digit s" and "list_all is_digit t"
  shows "s = t \<longleftrightarrow> nat_of_digits s = nat_of_digits t"
proof
  assume "nat_of_digits s = nat_of_digits t"
  then have "\<not> s < t" and "\<not> t < s"
    using digits_less_iff [OF assms] digits_less_iff [OF assms(1) [symmetric] assms(3,2)] by simp_all
  then show "s = t" by simp
qed simp

lemma less_shorter:
  fixes s t :: "'a::linorder list"
  shows "length s < length t \<Longrightarrow> s < t \<longleftrightarrow> s < take (length s) t \<or> s = take (length s) t"
proof (induction s arbitrary: t)
  case Nil
  then show ?case by (cases t) simp_all
next
  case (Cons x s)
  then obtain y t' where t: "t = y # t'" by (cases t) auto
  then have "length s < length t'" using Cons.prems by simp
  from Cons.IH [OF this] show ?case by (auto simp: t)
qed

lemma less_longer:
  fixes s t :: "'a::linorder list"
  shows "length t < length s \<Longrightarrow> s < t \<longleftrightarrow> take (length t) s < t"
proof (induction t arbitrary: s)
  case Nil
  then show ?case by simp
next
  case (Cons y t)
  then obtain x s' where s: "s = x # s'" by (cases s) auto
  then have "length t < length s'" using Cons.prems by simp
  from Cons.IH [OF this] show ?case by (auto simp: s)
qed

lemma str_nat_length_mono: "a \<le> b \<Longrightarrow> length (str_nat a) \<le> length (str_nat b)"
proof (induction b arbitrary: a rule: str_nat.induct)
  case (1 b)
  show ?case
  proof (cases "a < 10")
    case True
    then have "length (str_nat a) = 1" by (subst str_nat.simps) simp
    moreover have "1 \<le> length (str_nat b)" using str_nat_nonempty [of b] by (cases "str_nat b") simp_all
    ultimately show ?thesis by simp
  next
    case False
    then have b10: "\<not> b < 10" using 1(2) by simp
    have "a div 10 \<le> b div 10" using 1(2) by (rule div_le_mono)
    then have "length (str_nat (a div 10)) \<le> length (str_nat (b div 10))"
      using 1(1) [OF b10] by simp
    then show ?thesis
      using False b10 by (subst str_nat.simps, subst (2) str_nat.simps) simp
  qed
qed

lemma str_nat_order:
  "str_nat a < str_nat b \<longleftrightarrow>
     (if length (str_nat a) = length (str_nat b) then a < b
      else if length (str_nat a) < length (str_nat b)
           then a \<le> b div 10 ^ (length (str_nat b) - length (str_nat a))
           else a div 10 ^ (length (str_nat a) - length (str_nat b)) < b)"
proof -
  let ?s = "str_nat a" and ?t = "str_nat b"
  consider (eq) "length ?s = length ?t" | (lt) "length ?s < length ?t" | (gt) "length ?t < length ?s"
    by linarith
  then show ?thesis
  proof cases
    case eq
    then show ?thesis using str_nat_less_iff [OF eq] by simp
  next
    case lt
    let ?u = "take (length ?s) ?t"
    have du: "list_all is_digit ?u" using str_nat_digits [of b] by (simp add: list_all_iff) (meson in_set_takeD)
    have lu: "length ?s = length ?u" using lt by simp
    have nu: "nat_of_digits ?u = b div 10 ^ (length ?t - length ?s)"
      using nat_of_digits_take [OF str_nat_digits, of "length ?s" b] by (simp add: nat_of_digits_str_nat)
    have "?s < ?t \<longleftrightarrow> ?s < ?u \<or> ?s = ?u" using lt by (rule less_shorter)
    also have "\<dots> \<longleftrightarrow> a < nat_of_digits ?u \<or> a = nat_of_digits ?u"
      using digits_less_iff [OF lu str_nat_digits du] digits_eq_iff [OF lu str_nat_digits du]
      by (simp add: nat_of_digits_str_nat)
    also have "\<dots> \<longleftrightarrow> a \<le> b div 10 ^ (length ?t - length ?s)" using nu by auto
    finally show ?thesis using lt by simp
  next
    case gt
    let ?u = "take (length ?t) ?s"
    have du: "list_all is_digit ?u" using str_nat_digits [of a] by (simp add: list_all_iff) (meson in_set_takeD)
    have lu: "length ?u = length ?t" using gt by simp
    have nu: "nat_of_digits ?u = a div 10 ^ (length ?s - length ?t)"
      using nat_of_digits_take [OF str_nat_digits, of "length ?t" a] by (simp add: nat_of_digits_str_nat)
    have "?s < ?t \<longleftrightarrow> ?u < ?t" using gt by (rule less_longer)
    also have "\<dots> \<longleftrightarrow> nat_of_digits ?u < b"
      using digits_less_iff [OF lu du str_nat_digits] by (simp add: nat_of_digits_str_nat)
    finally show ?thesis using gt nu by simp
  qed
qed

lemma str_nat_agrees:
  "(str_nat a < str_nat b \<longleftrightarrow> a < b) \<longleftrightarrow>
     length (str_nat a) = length (str_nat b) \<or>
     length (str_nat a) < length (str_nat b) \<and>
       a \<le> b div 10 ^ (length (str_nat b) - length (str_nat a)) \<or>
     length (str_nat b) < length (str_nat a) \<and>
       b \<le> a div 10 ^ (length (str_nat a) - length (str_nat b))"
proof -
  consider (eq) "length (str_nat a) = length (str_nat b)"
    | (lt) "length (str_nat a) < length (str_nat b)"
    | (gt) "length (str_nat b) < length (str_nat a)"
    by linarith
  then show ?thesis
  proof cases
    case eq
    then show ?thesis using str_nat_order [of a b] by simp
  next
    case lt
    have "a < b" using str_nat_length_mono [of b a] lt by (cases "a < b") simp_all
    then show ?thesis using str_nat_order [of a b] lt by simp
  next
    case gt
    have "b < a" using str_nat_length_mono [of a b] gt by (cases "b < a") simp_all
    then show ?thesis using str_nat_order [of a b] gt by auto
  qed
qed

lemma int_le_div_pow: "0 \<le> i \<Longrightarrow> 0 \<le> j \<Longrightarrow> nat i \<le> nat j div 10 ^ k \<longleftrightarrow> i \<le> j div 10 ^ k"
proof -
  assume i: "0 \<le> i" and j: "0 \<le> j"
  have "int (nat j div 10 ^ k) = j div 10 ^ k" using j by (simp add: zdiv_int)
  then show ?thesis using i by linarith
qed

text \<open>
  Claim C2. Batch ids are compared as Python strings (inside the \<^verbatim>\<open>batch_ids\<close>
  component of the priority tuples). The claim says that this comparison agrees with the
  lexicographic order on the pair (fold, index). It does not once an index has more
  digits than another: \<^verbatim>\<open>"d10" < "d2"\<close> as strings, although 10 is not below 2.
\<close>

theorem batch_id_string_order_counterexample:
  "batch_id ''d'' 10 < batch_id ''d'' 2 \<and>
   \<not> (''d'' < ''d'' \<or> ''d'' = ''d'' \<and> (10::int) < 2)"
  by (simp add: batch_id_def str_int_def str_nat.simps digit_char_def)

text \<open>
  Claim C2, amended. For fold letters (one character) and indices taken from a range
  (non-negative), distinct (fold, index) pairs give distinct batch ids, and the string
  comparison of two batch ids agrees with the lexicographic order on (fold, index)
  exactly when the folds differ, or the decimal renderings of the two indices have the
  same number of digits, or the index with fewer digits is at most the number formed by
  the leading digits, as many, of the other (\<^verbatim>\<open>"d1" < "d10"\<close> agrees, \<^verbatim>\<open>"d2" < "d10"\<close>
  does not hold). In particular the two orders agree on all ids whose indices are
  below 10.
\<close>

theorem batch_id_order:
  assumes "length f1 = 1" and "length f2 = 1" and "0 \<le> i1" and "0 \<le> i2"
  shows "(batch_id f1 i1 = batch_id f2 i2 \<longleftrightarrow> f1 = f2 \<and> i1 = i2) \<and>
         ((batch_id f1 i1 < batch_id f2 i2 \<longleftrightarrow> f1 < f2 \<or> f1 = f2 \<and> i1 < i2) \<longleftrightarrow>
            f1 \<noteq> f2 \<or>
            length (str_int i1) = length (str_int i2) \<or>
            length (str_int i1) < length (str_int i2) \<and>
              i1 \<le> i2 div 10 ^ (length (str_int i2) - length (str_int i1)) \<or>
            length (str_int i2) < length (str_int i1) \<and>
              i2 \<le> i1 div 10 ^ (length (str_int i1) - length (str_int i2)))"
proof -
  obtain c1 c2 where f: "f1 = [c1]" "f2 = [c2]"
    using assms(1,2) by (metis One_nat_def length_0_conv length_Suc_conv)
  let ?a = "nat i1" and ?b = "nat i2"
  have s: "str_int i1 = str_nat ?a" "str_int i2 = str_nat ?b"
    using assms(3,4) by (simp_all add: str_int_def)
  have inj: "str_nat ?a = str_nat ?b \<longleftrightarrow> i1 = i2"
    using str_nat_inj [of ?a ?b] assms(3,4) by auto
  have eq: "batch_id f1 i1 = batch_id f2 i2 \<longleftrightarrow> f1 = f2 \<and> i1 = i2"
    by (simp add: batch_id_def s f inj)
  have lt: "batch_id f1 i1 < batch_id f2 i2 \<longleftrightarrow> c1 < c2 \<or> c1 = c2 \<and> str_nat ?a < str_nat ?b"
    by (simp add: batch_id_def s f)
  have ff: "f1 < f2 \<longleftrightarrow> c1 < c2" "f1 = f2 \<longleftrightarrow> c1 = c2" by (simp_all add: f)
  have ab: "?a < ?b \<longleftrightarrow> i1 < i2" using assms(3,4) by auto
  have d1: "?a \<le> ?b div 10 ^ k \<longleftrightarrow> i1 \<le> i2 div 10 ^ k" for k
    using assms(3,4) by (rule int_le_div_pow)
  have d2: "?b \<le> ?a div 10 ^ k \<longleftrightarrow> i2 \<le> i1 div 10 ^ k" for k
    using assms(4,3) by (rule int_le_div_pow)
  have agree: "(batch_id f1 i1 < batch_id f2 i2 \<longleftrightarrow> f1 < f2 \<or> f1 = f2 \<and> i1 < i2) \<longleftrightarrow>
            f1 \<noteq> f2 \<or>
            length (str_int i1) = length (str_int i2) \<or>
            length (str_int i1) < length (str_int i2) \<and>
              i1 \<le> i2 div 10 ^ (length (str_int i2) - length (str_int i1)) \<or>
            length (str_int i2) < length (str_int i1) \<and>
              i2 \<le> i1 div 10 ^ (length (str_int i1) - length (str_int i2))"
  proof (cases "c1 = c2")
    case True
    have "(batch_id f1 i1 < batch_id f2 i2 \<longleftrightarrow> f1 < f2 \<or> f1 = f2 \<and> i1 < i2)
          \<longleftrightarrow> (str_nat ?a < str_nat ?b \<longleftrightarrow> ?a < ?b)"
      unfolding lt ff ab using True by simp
    then show ?thesis
      unfolding str_nat_agrees [of ?a ?b] s d1 d2 ff using True by simp
  next
    case False
    then show ?thesis unfolding lt ff by simp
  qed
  show ?thesis using eq agree by (rule conjI)
qed

theorem batch_id_order_witness:
  "length ''d'' = 1 \<and> (0::int) \<le> 1 \<and> (0::int) \<le> 10 \<and>
   length (str_int 1) < length (str_int 10) \<and>
   (1::int) \<le> 10 div 10 ^ (length (str_int 10) - length (str_int 1)) \<and>
   (batch_id ''d'' 1 < batch_id ''d'' 10 \<longleftrightarrow> ''d'' < ''d'' \<or> ''d'' = ''d'' \<and> (1::int) < 10)"
  using batch_id_order [of "''d''" "''d''" 1 10]
  by (simp add: str_int_def str_nat.simps digit_char_def)

section \<open>Task memoization\<close>

lemma memo_key_new_task: "memo_key (new_task k) = k"
  by (cases k) (simp add: memo_key_def new_task_def)

lemma dict_ok_mem:
  assumes ok: "dict_ok tg"
  shows "(k, a) \<in> set (all_tasks tg) \<longleftrightarrow> a < length (objs tg) \<and> memo_key (objs tg ! a) = k"
proof -
  have len: "length (all_tasks tg) = length (objs tg)"
    using ok by (metis dict_ok_def length_map)
  have nth: "\<And>i. i < length (objs tg) \<Longrightarrow> all_tasks tg ! i = (memo_key (objs tg ! i), i)"
  proof -
    fix i assume i: "i < length (objs tg)"
    have "fst (all_tasks tg ! i) = map fst (all_tasks tg) ! i" using i len by simp
    moreover have "snd (all_tasks tg ! i) = map snd (all_tasks tg) ! i" using i len by simp
    ultimately show "all_tasks tg ! i = (memo_key (objs tg ! i), i)"
      using ok i by (simp add: dict_ok_def prod_eq_iff)
  qed
  show ?thesis
  proof
    assume "(k, a) \<in> set (all_tasks tg)"
    then obtain i where "i < length (all_tasks tg)" "all_tasks tg ! i = (k, a)"
      by (auto simp: in_set_conv_nth)
    then show "a < length (objs tg) \<and> memo_key (objs tg ! a) = k"
      using nth [of i] len by auto
  next
    assume "a < length (objs tg) \<and> memo_key (objs tg ! a) = k"
    then show "(k, a) \<in> set (all_tasks tg)"
      using nth [of a] len by (metis nth_mem)
  qed
qed

lemma dict_ok_lookup:
  assumes ok: "dict_ok tg"
  shows "map_of (all_tasks tg) k = Some a \<longleftrightarrow> a < length (objs tg) \<and> memo_key (objs tg ! a) = k"
proof -
  have d: "distinct (map fst (all_tasks tg))" using ok by (simp add: dict_ok_def)
  have "map_of (all_tasks tg) k = Some a \<longleftrightarrow> (k, a) \<in> set (all_tasks tg)"
    using d by (auto intro: map_of_is_SomeI dest: map_of_SomeD)
  then show ?thesis using dict_ok_mem [OF ok] by simp
qed

lemma dict_ok_lookup_None:
  "dict_ok tg \<Longrightarrow> map_of (all_tasks tg) k = None \<longleftrightarrow> k \<notin> set (map memo_key (objs tg))"
  by (metis dict_ok_def map_of_eq_None_iff set_map)

lemma find_or_create_hit:
  "map_of (all_tasks tg) k = Some a \<Longrightarrow> find_or_create tg k = (a, tg)"
  by (simp add: find_or_create_def)

lemma find_or_create_miss:
  "map_of (all_tasks tg) k = None \<Longrightarrow>
   find_or_create tg k =
     (length (objs tg), tg\<lparr>fresh_tasks := fresh_tasks tg @ [length (objs tg)],
        all_tasks := all_tasks tg @ [(k, length (objs tg))],
        objs := objs tg @ [new_task k]\<rparr>)"
  by (simp add: find_or_create_def Let_def)

lemma dict_ok_find_or_create: "dict_ok tg \<Longrightarrow> dict_ok (snd (find_or_create tg k))"
proof -
  assume ok: "dict_ok tg"
  show ?thesis
  proof (cases "map_of (all_tasks tg) k")
    case None
    then have "k \<notin> set (map memo_key (objs tg))" using ok dict_ok_lookup_None by blast
    then show ?thesis using ok
      by (simp add: find_or_create_miss [OF None] dict_ok_def memo_key_new_task)
  next
    case (Some a)
    then show ?thesis using ok by (simp add: find_or_create_hit)
  qed
qed

lemma map_memo_key_update:
  "(\<And>t. memo_key (f t) = memo_key t) \<Longrightarrow> map memo_key (xs[a := f (xs ! a)]) = map memo_key xs"
  by (cases "a < length xs") (auto simp: list_eq_iff_nth_eq nth_list_update)

lemma dict_ok_update_task:
  "dict_ok tg \<Longrightarrow> (\<And>t. memo_key (f t) = memo_key t) \<Longrightarrow> dict_ok (update_task tg a f)"
  by (simp add: dict_ok_def update_task_def map_memo_key_update)

lemma dict_ok_pop_fresh: "dict_ok tg \<Longrightarrow> dict_ok (snd (pop_fresh tg))"
  by (simp add: dict_ok_def pop_fresh_def)

lemma dict_ok_build_step: "build_step tg tg' \<Longrightarrow> dict_ok tg \<Longrightarrow> dict_ok tg'"
  by (induction rule: build_step.induct)
     (simp_all add: dict_ok_find_or_create dict_ok_update_task dict_ok_pop_fresh)

lemma dict_ok_build_steps: "rtranclp build_step tg tg' \<Longrightarrow> dict_ok tg \<Longrightarrow> dict_ok tg'"
  by (induction rule: rtranclp_induct) (simp_all add: dict_ok_build_step)

lemma dict_ok_TaskGraph: "dict_ok (TaskGraph p)"
  by (simp add: dict_ok_def TaskGraph_def)

text \<open>A key once in the dict stays, bound to the same object.\<close>

lemma build_step_lookup:
  "build_step tg tg' \<Longrightarrow> map_of (all_tasks tg) k = Some a \<Longrightarrow> map_of (all_tasks tg') k = Some a"
proof (induction rule: build_step.induct)
  case (request tg k')
  then show ?case
    by (cases "map_of (all_tasks tg) k'") (simp_all add: find_or_create_miss find_or_create_hit)
next
  case (pop tg)
  then show ?case by (simp add: pop_fresh_def)
next
  case (assign f tg b)
  then show ?case by (simp add: update_task_def)
qed

lemma build_steps_lookup:
  "rtranclp build_step tg tg' \<Longrightarrow> map_of (all_tasks tg) k = Some a \<Longrightarrow> map_of (all_tasks tg') k = Some a"
  by (induction rule: rtranclp_induct) (simp_all add: build_step_lookup)

lemma find_or_create_registers:
  "find_or_create tg k = (a, tg') \<Longrightarrow> map_of (all_tasks tg') k = Some a"
  by (cases "map_of (all_tasks tg) k") (auto simp: find_or_create_miss find_or_create_hit map_add_def)

lemma request_stable:
  assumes "find_or_create tg1 k = (a, tg2)" and "rtranclp build_step tg2 tg3"
  shows "find_or_create tg3 k = (a, tg3)"
  using assms find_or_create_registers build_steps_lookup find_or_create_hit by blast

text \<open>The builders only perform build steps.\<close>

lemma build_steps_seed: "rtranclp build_step tg (seed tg k)"
proof -
  obtain a tg' where f: "find_or_create tg k = (a, tg')" by (cases "find_or_create tg k")
  have 1: "build_step tg tg'" using build_step.request [of tg k] f by simp
  have 2: "build_step tg' (update_task tg' a (\<lambda>t. t\<lparr>deletable_output := False\<rparr>))"
    by (rule build_step.assign) (simp add: memo_key_def)
  show ?thesis using 1 2 f by (simp add: seed_def)
qed

lemma build_steps_foldl:
  assumes "\<And>g x. rtranclp build_step g (f g x)"
  shows "rtranclp build_step tg (foldl f tg xs)"
proof (induction xs arbitrary: tg)
  case Nil
  show ?case by simp
next
  case (Cons x xs)
  have "rtranclp build_step tg (f tg x)" by (rule assms)
  moreover have "rtranclp build_step (f tg x) (foldl f (f tg x) xs)" by (rule Cons.IH)
  ultimately show ?case by simp
qed

lemma build_steps_append_pred: "rtranclp build_step tg (append_pred a tg k)"
proof -
  obtain b tg' where f: "find_or_create tg k = (b, tg')" by (cases "find_or_create tg k")
  have 1: "build_step tg tg'" using build_step.request [of tg k] f by simp
  have 2: "build_step tg' (update_task tg' a (\<lambda>t. t\<lparr>preds := preds t @ [b]\<rparr>))"
    by (rule build_step.assign) (simp add: memo_key_def)
  show ?thesis using 1 2 f by (simp add: append_pred_def)
qed

lemma build_steps_link_succs: "rtranclp build_step tg (link_succs a tg)"
  unfolding link_succs_def
proof (rule build_steps_foldl)
  fix g x
  have "build_step g (update_task g x (\<lambda>t. t\<lparr>succs := succs t @ [a]\<rparr>))"
    by (rule build_step.assign) (simp add: memo_key_def)
  then show "rtranclp build_step g (update_task g x (\<lambda>t. t\<lparr>succs := succs t @ [a]\<rparr>))" by simp
qed

lemma build_steps_expand: "rtranclp build_step tg (expand a ks tg)"
proof -
  have "rtranclp build_step tg (foldl (append_pred a) tg ks)"
    by (rule build_steps_foldl) (rule build_steps_append_pred)
  then show ?thesis unfolding expand_def
    using build_steps_link_succs rtranclp_trans by fastforce
qed

lemma fit_loop_invariant_aux:
  "fit_loop p ids inc tg = Some r \<Longrightarrow>
   (\<forall>g a g1 ks. I g \<longrightarrow> fresh_tasks g \<noteq> [] \<longrightarrow> pop_fresh g = (a, g1) \<longrightarrow>
       fit_requests p g1 ids inc (objs g1 ! a) = Inr ks \<longrightarrow> I (expand a ks g1)) \<longrightarrow>
   I tg \<longrightarrow> (\<forall>tg'. r = Inr tg' \<longrightarrow> I tg' \<and> fresh_tasks tg' = [])"
proof (induction p ids inc tg r rule: fit_loop.raw_induct [rotated 1, consumes 1])
  case (1 loop p ids inc tg r)
  note IH = 1(1) and body = 1(2)
  show ?case
  proof (intro impI allI)
    fix tg'
    assume step: "\<forall>g a g1 ks. I g \<longrightarrow> fresh_tasks g \<noteq> [] \<longrightarrow> pop_fresh g = (a, g1) \<longrightarrow>
       fit_requests p g1 ids inc (objs g1 ! a) = Inr ks \<longrightarrow> I (expand a ks g1)"
      and I0: "I tg" and res: "r = Inr tg'"
    show "I tg' \<and> fresh_tasks tg' = []"
    proof (cases "fresh_tasks tg = []")
      case True
      with body res I0 show ?thesis by auto
    next
      case False
      obtain a tg1 where pf: "pop_fresh tg = (a, tg1)" by (cases "pop_fresh tg")
      from body res False pf obtain ks where
        ks: "fit_requests p tg1 ids inc (objs tg1 ! a) = Inr ks"
        and rec: "loop p ids inc (expand a ks tg1) = Some r"
        by (auto split: sum.splits)
      have "I (expand a ks tg1)" using step I0 False pf ks by blast
      then show ?thesis using IH [OF rec] step res by blast
    qed
  qed
qed

lemma fit_loop_invariant:
  assumes "fit_loop p ids inc tg = Some (Inr tg')" and "I tg"
    and "\<And>g a g1 ks. I g \<Longrightarrow> fresh_tasks g \<noteq> [] \<Longrightarrow> pop_fresh g = (a, g1) \<Longrightarrow>
       fit_requests p g1 ids inc (objs g1 ! a) = Inr ks \<Longrightarrow> I (expand a ks g1)"
  shows "I tg' \<and> fresh_tasks tg' = []"
  using fit_loop_invariant_aux [OF assms(1), of I] assms(2,3) by blast

lemma build_steps_fit_loop:
  assumes "fit_loop p ids inc tg = Some (Inr tg')"
  shows "rtranclp build_step tg tg'"
proof -
  have "rtranclp build_step tg tg' \<and> fresh_tasks tg' = []"
  proof (rule fit_loop_invariant [OF assms, where I = "rtranclp build_step tg"])
    show "rtranclp build_step tg tg" by simp
  next
    fix g a g1 ks
    assume g: "rtranclp build_step tg g" and pf: "pop_fresh g = (a, g1)"
    have "build_step g g1" using build_step.pop [of g] pf by simp
    then show "rtranclp build_step tg (expand a ks g1)"
      using g build_steps_expand [of g1 a ks]
      by (meson rtranclp.rtrancl_into_rtrancl rtranclp_trans)
  qed
  then show ?thesis by simp
qed

lemma cv_loop_invariant_aux:
  "cv_loop p folds n sf tg = Some r \<Longrightarrow>
   (\<forall>g a g1 ks. I g \<longrightarrow> fresh_tasks g \<noteq> [] \<longrightarrow> pop_fresh g = (a, g1) \<longrightarrow>
       cv_requests p g1 folds n sf (objs g1 ! a) = Inr ks \<longrightarrow> I (expand a ks g1)) \<longrightarrow>
   I tg \<longrightarrow> (\<forall>tg'. r = Inr tg' \<longrightarrow> I tg' \<and> fresh_tasks tg' = [])"
proof (induction p folds n sf tg r rule: cv_loop.raw_induct [rotated 1, consumes 1])
  case (1 loop p folds n sf tg r)
  note IH = 1(1) and body = 1(2)
  show ?case
  proof (intro impI allI)
    fix tg'
    assume step: "\<forall>g a g1 ks. I g \<longrightarrow> fresh_tasks g \<noteq> [] \<longrightarrow> pop_fresh g = (a, g1) \<longrightarrow>
       cv_requests p g1 folds n sf (objs g1 ! a) = Inr ks \<longrightarrow> I (expand a ks g1)"
      and I0: "I tg" and res: "r = Inr tg'"
    show "I tg' \<and> fresh_tasks tg' = []"
    proof (cases "fresh_tasks tg = []")
      case True
      with body res I0 show ?thesis by auto
    next
      case False
      obtain a tg1 where pf: "pop_fresh tg = (a, tg1)" by (cases "pop_fresh tg")
      from body res False pf obtain ks where
        ks: "cv_requests p tg1 folds n sf (objs tg1 ! a) = Inr ks"
        and rec: "loop p folds n sf (expand a ks tg1) = Some r"
        by (auto split: sum.splits)
      have "I (expand a ks tg1)" using step I0 False pf ks by blast
      then show ?thesis using IH [OF rec] step res by blast
    qed
  qed
qed

lemma cv_loop_invariant:
  assumes "cv_loop p folds n sf tg = Some (Inr tg')" and "I tg"
    and "\<And>g a g1 ks. I g \<Longrightarrow> fresh_tasks g \<noteq> [] \<Longrightarrow> pop_fresh g = (a, g1) \<Longrightarrow>
       cv_requests p g1 folds n sf (objs g1 ! a) = Inr ks \<Longrightarrow> I (expand a ks g1)"
  shows "I tg' \<and> fresh_tasks tg' = []"
  using cv_loop_invariant_aux [OF assms(1), of I] assms(2,3) by blast

lemma build_steps_cv_loop:
  assumes "cv_loop p folds n sf tg = Some (Inr tg')"
  shows "rtranclp build_step tg tg'"
proof -
  have "rtranclp build_step tg tg' \<and> fresh_tasks tg' = []"
  proof (rule cv_loop_invariant [OF assms, where I = "rtranclp build_step tg"])
    show "rtranclp build_step tg tg" by simp
  next
    fix g a g1 ks
    assume g: "rtranclp build_step tg g" and pf: "pop_fresh g = (a, g1)"
    have "build_step g g1" using build_step.pop [of g] pf by simp
    then show "rtranclp build_step tg (expand a ks g1)"
      using g build_steps_expand [of g1 a ks]
      by (meson rtranclp.rtrancl_into_rtrancl rtranclp_trans)
  qed
  then show ?thesis by simp
qed

lemma build_steps_create_tasks_fit:
  assumes "create_tasks_fit p ids nm inc = Some (Inr tg)"
  shows "rtranclp build_step (TaskGraph p) tg"
proof -
  let ?tg1 = "foldl seed (TaskGraph p)
      (map (\<lambda>s. (TrainTask, s, ids, None)) (py_range (int (length (steps_list p)))))"
  let ?tg2 = "if nm then foldl seed ?tg1 (map (\<lambda>b. (MetricTask, DUMMY_SCORE_STEP, [b], None)) ids)
              else ?tg1"
  have 1: "rtranclp build_step (TaskGraph p) ?tg1"
    by (rule build_steps_foldl) (rule build_steps_seed)
  have "rtranclp build_step ?tg1 ?tg2"
  proof (cases nm)
    case True
    have "rtranclp build_step ?tg1
        (foldl seed ?tg1 (map (\<lambda>b. (MetricTask, DUMMY_SCORE_STEP, [b], None)) ids))"
      by (rule build_steps_foldl) (rule build_steps_seed)
    then show ?thesis using True by simp
  next
    case False
    then show ?thesis by simp
  qed
  with 1 have 2: "rtranclp build_step (TaskGraph p) ?tg2" by (rule rtranclp_trans)
  have "fit_loop p ids inc ?tg2 = Some (Inr tg)"
    using assms unfolding create_tasks_fit_def Let_def .
  then have "rtranclp build_step ?tg2 tg" by (rule build_steps_fit_loop)
  with 2 show ?thesis by (rule rtranclp_trans)
qed

lemma build_steps_create_tasks_cross_val:
  assumes "create_tasks_cross_val p folds n sf ke = Some (Inr tg)"
  shows "rtranclp build_step (TaskGraph p) tg"
proof -
  let ?tg1 = "foldl seed (TaskGraph p)
      (map (\<lambda>h. (MetricTask, DUMMY_SCORE_STEP, map (batch_id h) (py_range n), Some h)) folds)"
  let ?tg2 = "if ke then foldl seed ?tg1
                 (concat (map (\<lambda>s. map (\<lambda>h. (TrainTask, s,
                      batch_ids_except folds n (Some h), Some h)) folds)
                    (py_range (int (length (steps_list p))))))
              else ?tg1"
  have 1: "rtranclp build_step (TaskGraph p) ?tg1"
    by (rule build_steps_foldl) (rule build_steps_seed)
  have "rtranclp build_step ?tg1 ?tg2"
  proof (cases ke)
    case True
    have "rtranclp build_step ?tg1
        (foldl seed ?tg1 (concat (map (\<lambda>s. map (\<lambda>h. (TrainTask, s,
                      batch_ids_except folds n (Some h), Some h)) folds)
                    (py_range (int (length (steps_list p)))))))"
      by (rule build_steps_foldl) (rule build_steps_seed)
    then show ?thesis using True by simp
  next
    case False
    then show ?thesis by simp
  qed
  with 1 have 2: "rtranclp build_step (TaskGraph p) ?tg2" by (rule rtranclp_trans)
  have "cv_loop p folds n sf ?tg2 = Some (Inr tg)"
    using assms unfolding create_tasks_cross_val_def Let_def .
  then have "rtranclp build_step ?tg2 tg" by (rule build_steps_cv_loop)
  with 2 show ?thesis by (rule rtranclp_trans)
qed

lemma built_the_graph: "built r \<Longrightarrow> r = Some (Inr (the_graph r))"
  by (auto simp: built_def the_graph_def split: option.splits sum.splits)

text \<open>
  Claim C4. Within one graph build, in fit or in cross-validation mode, a request to
  \<^verbatim>\<open>find_or_create\<close> for a key that was requested before returns the task object
  of the first request and creates nothing, whatever build steps lie between the two
  requests; and the finished graph lists every task object exactly once, under its own
  memo key, with no key twice.
\<close>

theorem task_memoization:
  assumes "create_tasks_fit p ids nm inc = Some (Inr tg) \<or>
           create_tasks_cross_val p folds n sf ke = Some (Inr tg)"
  shows "rtranclp build_step (TaskGraph p) tg \<and>
         (\<forall>tg1 k a tg2 tg3. rtranclp build_step (TaskGraph p) tg1 \<longrightarrow>
            find_or_create tg1 k = (a, tg2) \<longrightarrow> rtranclp build_step tg2 tg3 \<longrightarrow>
            find_or_create tg3 k = (a, tg3) \<and> a < length (objs tg3) \<and>
            memo_key (objs tg3 ! a) = k) \<and>
         map fst (all_tasks tg) = map memo_key (objs tg) \<and>
         map snd (all_tasks tg) = [0..<length (objs tg)] \<and>
         distinct (map fst (all_tasks tg))"
proof -
  have r: "rtranclp build_step (TaskGraph p) tg"
    using assms build_steps_create_tasks_fit build_steps_create_tasks_cross_val by blast
  have ok: "dict_ok tg" using dict_ok_build_steps [OF r dict_ok_TaskGraph] .
  have st: "\<And>tg1 k a tg2 tg3. rtranclp build_step (TaskGraph p) tg1 \<Longrightarrow>
      find_or_create tg1 k = (a, tg2) \<Longrightarrow> rtranclp build_step tg2 tg3 \<Longrightarrow>
      find_or_create tg3 k = (a, tg3) \<and> a < length (objs tg3) \<and> memo_key (objs tg3 ! a) = k"
  proof -
    fix tg1 k a tg2 tg3
    assume a1: "rtranclp build_step (TaskGraph p) tg1" and a2: "find_or_create tg1 k = (a, tg2)"
      and a3: "rtranclp build_step tg2 tg3"
    have "build_step tg1 tg2" using build_step.request [of tg1 k] a2 by simp
    with a1 a3 have "rtranclp build_step (TaskGraph p) tg3"
      by (meson rtranclp.rtrancl_into_rtrancl rtranclp_trans)
    then have ok3: "dict_ok tg3" using dict_ok_build_steps dict_ok_TaskGraph by blast
    have f: "find_or_create tg3 k = (a, tg3)" using request_stable [OF a2 a3] .
    then have "map_of (all_tasks tg3) k = Some a" by (rule find_or_create_registers)
    then show "find_or_create tg3 k = (a, tg3) \<and> a < length (objs tg3) \<and> memo_key (objs tg3 ! a) = k"
      using f dict_ok_lookup [OF ok3] by simp
  qed
  have d: "distinct (map fst (all_tasks tg))" using ok by (simp add: dict_ok_def)
  have m1: "map fst (all_tasks tg) = map memo_key (objs tg)" using ok by (simp add: dict_ok_def)
  have m2: "map snd (all_tasks tg) = [0..<length (objs tg)]" using ok by (simp add: dict_ok_def)
  show ?thesis using r st d m1 m2 by blast
qed

theorem task_memoization_witness:
  "built (create_tasks_fit example_pipeline (fit_batch_ids 2) True False) \<and>
   built (create_tasks_cross_val example_pipeline [''d'', ''e'', ''f''] 1 True True) \<and>
   distinct (map fst (all_tasks
      (the_graph (create_tasks_fit example_pipeline (fit_batch_ids 2) True False)))) \<and>
   distinct (map fst (all_tasks
      (the_graph (create_tasks_cross_val example_pipeline [''d'', ''e'', ''f''] 1 True True)))) \<and>
   find_or_create (the_graph (create_tasks_fit example_pipeline (fit_batch_ids 2) True False))
      (TrainTask, 0, fit_batch_ids 2, None)
     = (0, the_graph (create_tasks_fit example_pipeline (fit_batch_ids 2) True False)) \<and>
   memo_key (objs (the_graph (create_tasks_fit example_pipeline (fit_batch_ids 2) True False)) ! 0)
     = (TrainTask, 0, fit_batch_ids 2, None)"
proof -
  let ?r = "create_tasks_fit example_pipeline (fit_batch_ids 2) True False"
  let ?c = "create_tasks_cross_val example_pipeline [''d'', ''e'', ''f''] 1 True True"
  have b: "built ?r" by code_simp
  have c: "built ?c" by code_simp
  have f: "find_or_create (the_graph ?r) (TrainTask, 0, fit_batch_ids 2, None) = (0, the_graph ?r)"
    by code_simp
  note t1 = task_memoization [of example_pipeline "fit_batch_ids 2" True False "the_graph ?r",
      OF disjI1, OF built_the_graph [OF b]]
  note t2 = task_memoization [of example_pipeline _ _ _ "the_graph ?c" "[''d'', ''e'', ''f'']" 1 True True,
      OF disjI2, OF built_the_graph [OF c]]
  have "memo_key (objs (the_graph ?r) ! 0) = (TrainTask, 0, fit_batch_ids 2, None)"
    using t1 f by blast
  then show ?thesis using b c f t1 t2 by blast
qed

section \<open>Effect of the requests of one loop iteration\<close>

lemma memo_key_preds_update [simp]: "memo_key (t\<lparr>preds := x\<rparr>) = memo_key t"
  by (simp add: memo_key_def)

lemma memo_key_succs_update [simp]: "memo_key (t\<lparr>succs := x\<rparr>) = memo_key t"
  by (simp add: memo_key_def)

lemma memo_key_deletable_update [simp]: "memo_key (t\<lparr>deletable_output := x\<rparr>) = memo_key t"
  by (simp add: memo_key_def)

lemma preds_new_task [simp]: "preds (new_task k) = []"
  by (cases k) (simp add: new_task_def)

lemma extends_refl: "dict_ok g \<Longrightarrow> extends ks g g"
  by (auto simp: extends_def)

lemma extends_mono: "extends ks g g' \<Longrightarrow> set ks \<subseteq> set ks' \<Longrightarrow> extends ks' g g'"
  by (auto simp: extends_def)

lemma extends_trans:
  assumes 1: "extends ks1 g g1" and 2: "extends ks2 g1 g2"
    and keep: "\<forall>c. length (objs g) \<le> c \<and> c < length (objs g1) \<longrightarrow> preds (objs g2 ! c) = []"
  shows "extends (ks1 @ ks2) g g2"
proof -
  let ?l = "length (objs g)" and ?l1 = "length (objs g1)" and ?l2 = "length (objs g2)"
  have le: "?l \<le> ?l1" "?l1 \<le> ?l2" using 1 2 by (simp_all add: extends_def)
  have fr: "fresh_tasks g2 = fresh_tasks g @ [?l..<?l2]"
  proof -
    have "[?l..<?l2] = [?l..<?l1] @ [?l1..<?l2]"
      using le by (metis le_Suc_ex upt_add_eq_append)
    then show ?thesis using 1 2 by (simp add: extends_def)
  qed
  have old: "\<forall>c<?l. memo_key (objs g2 ! c) = memo_key (objs g ! c)"
    using 1 2 le by (simp add: extends_def)
  have new: "\<forall>c. ?l \<le> c \<and> c < ?l2 \<longrightarrow>
      preds (objs g2 ! c) = [] \<and> memo_key (objs g2 ! c) \<in> set (ks1 @ ks2)"
  proof (intro allI impI)
    fix c assume c: "?l \<le> c \<and> c < ?l2"
    show "preds (objs g2 ! c) = [] \<and> memo_key (objs g2 ! c) \<in> set (ks1 @ ks2)"
    proof (cases "c < ?l1")
      case True
      then have "memo_key (objs g2 ! c) = memo_key (objs g1 ! c)" using 2 by (simp add: extends_def)
      moreover have "memo_key (objs g1 ! c) \<in> set ks1" using 1 c True by (simp add: extends_def)
      ultimately show ?thesis using keep c True by simp
    next
      case False
      then show ?thesis using 2 c by (simp add: extends_def)
    qed
  qed
  show ?thesis using 1 2 le fr old new unfolding extends_def by simp
qed

lemma find_or_create_extends:
  assumes ok: "dict_ok g"
  shows "extends [k] g (snd (find_or_create g k)) \<and>
         fst (find_or_create g k) < length (objs (snd (find_or_create g k))) \<and>
         memo_key (objs (snd (find_or_create g k)) ! fst (find_or_create g k)) = k \<and>
         (\<forall>c<length (objs g). objs (snd (find_or_create g k)) ! c = objs g ! c)"
proof (cases "map_of (all_tasks g) k")
  case None
  have d: "dict_ok (snd (find_or_create g k))" by (rule dict_ok_find_or_create [OF ok])
  show ?thesis using d
    by (simp add: find_or_create_miss [OF None] extends_def nth_append memo_key_new_task)
next
  case (Some a)
  then show ?thesis using ok dict_ok_lookup [OF ok, of k a]
    by (auto simp: find_or_create_hit extends_def)
qed

lemma nth_update_if: "c < length xs \<Longrightarrow> xs[a := v] ! c = (if a = c then v else xs ! c)"
  by (cases "a = c") simp_all

lemma extends_update_task:
  assumes e: "extends ks g g0" and mk: "\<And>t. memo_key (f t) = memo_key t"
    and a: "a < length (objs g) \<or> (\<forall>t. preds (f t) = preds t)"
  shows "extends ks g (update_task g0 a f)"
proof -
  have d: "dict_ok (update_task g0 a f)"
    using e mk by (simp add: extends_def dict_ok_update_task)
  have k: "\<And>c. c < length (objs g0) \<Longrightarrow>
      memo_key (objs (update_task g0 a f) ! c) = memo_key (objs g0 ! c)"
    using mk by (simp add: update_task_def nth_update_if)
  have pr: "\<And>c. length (objs g) \<le> c \<Longrightarrow> c < length (objs g0) \<Longrightarrow>
      preds (objs (update_task g0 a f) ! c) = preds (objs g0 ! c)"
    using a by (auto simp: update_task_def nth_update_if)
  have l: "length (objs (update_task g0 a f)) = length (objs g0)"
    and fr: "fresh_tasks (update_task g0 a f) = fresh_tasks g0"
    and sp: "step_id_preds (update_task g0 a f) = step_id_preds g0"
    by (simp_all add: update_task_def)
  show ?thesis
    unfolding extends_def
  proof (intro conjI allI impI)
    show "dict_ok (update_task g0 a f)" by (rule d)
    show "step_id_preds (update_task g0 a f) = step_id_preds g" using e sp by (simp add: extends_def)
    show "length (objs g) \<le> length (objs (update_task g0 a f))" using e l by (simp add: extends_def)
    show "fresh_tasks (update_task g0 a f) =
        fresh_tasks g @ [length (objs g)..<length (objs (update_task g0 a f))]"
      using e l fr by (simp add: extends_def)
  next
    fix c assume "c < length (objs g)"
    then show "memo_key (objs (update_task g0 a f) ! c) = memo_key (objs g ! c)"
      using e k [of c] by (simp add: extends_def)
  next
    fix c assume c: "length (objs g) \<le> c \<and> c < length (objs (update_task g0 a f))"
    then show "preds (objs (update_task g0 a f) ! c) = []"
      using e pr [of c] l by (simp add: extends_def)
    show "memo_key (objs (update_task g0 a f) ! c) \<in> set ks"
      using c e k [of c] l by (simp add: extends_def)
  qed
qed

lemma append_pred_effect:
  assumes ok: "dict_ok g" and a: "a < length (objs g)"
  shows "extends [k] g (append_pred a g k) \<and>
         (\<forall>c<length (objs g). c \<noteq> a \<longrightarrow> objs (append_pred a g k) ! c = objs g ! c) \<and>
         (\<exists>b. objs (append_pred a g k) ! a = (objs g ! a)\<lparr>preds := preds (objs g ! a) @ [b]\<rparr> \<and>
              b < length (objs (append_pred a g k)) \<and>
              memo_key (objs (append_pred a g k) ! b) = k)"
proof -
  obtain b g0 where f: "find_or_create g k = (b, g0)" by (cases "find_or_create g k")
  let ?g1 = "update_task g0 a (\<lambda>t. t\<lparr>preds := preds t @ [b]\<rparr>)"
  have g1: "append_pred a g k = ?g1" using f by (simp add: append_pred_def)
  have e0: "extends [k] g g0" and b: "b < length (objs g0)" and kb: "memo_key (objs g0 ! b) = k"
    and same: "\<forall>c<length (objs g). objs g0 ! c = objs g ! c"
    using find_or_create_extends [OF ok, of k] f by simp_all
  have le: "length (objs g) \<le> length (objs g0)" using e0 by (simp add: extends_def)
  have e1: "extends [k] g ?g1"
    by (rule extends_update_task [OF e0]) (simp_all add: a)
  have oth: "\<forall>c<length (objs g). c \<noteq> a \<longrightarrow> objs ?g1 ! c = objs g ! c"
    using same by (simp add: update_task_def)
  have at: "objs ?g1 ! a = (objs g ! a)\<lparr>preds := preds (objs g ! a) @ [b]\<rparr>"
    using same a le by (simp add: update_task_def)
  have kb1: "memo_key (objs ?g1 ! b) = k"
    using kb b by (simp add: update_task_def nth_update_if)
  have b1: "b < length (objs ?g1)" using b by (simp add: update_task_def)
  show ?thesis unfolding g1 using e1 oth at kb1 b1 by blast
qed

lemma append_preds_effect:
  assumes "dict_ok g" and "a < length (objs g)"
  shows "extends ks g (foldl (append_pred a) g ks) \<and>
         (\<forall>c<length (objs g). c \<noteq> a \<longrightarrow> objs (foldl (append_pred a) g ks) ! c = objs g ! c) \<and>
         (\<exists>bs. objs (foldl (append_pred a) g ks) ! a
                  = (objs g ! a)\<lparr>preds := preds (objs g ! a) @ bs\<rparr> \<and>
               map (\<lambda>b. memo_key (objs (foldl (append_pred a) g ks) ! b)) bs = ks \<and>
               (\<forall>b\<in>set bs. b < length (objs (foldl (append_pred a) g ks))))"
  using assms
proof (induction ks arbitrary: g)
  case Nil
  then show ?case by (simp add: extends_refl)
next
  case (Cons k ks)
  let ?g1 = "append_pred a g k"
  let ?g2 = "foldl (append_pred a) ?g1 ks"
  from append_pred_effect [OF Cons.prems, of k] obtain b where
    e1: "extends [k] g ?g1"
    and o1: "\<forall>c<length (objs g). c \<noteq> a \<longrightarrow> objs ?g1 ! c = objs g ! c"
    and a1: "objs ?g1 ! a = (objs g ! a)\<lparr>preds := preds (objs g ! a) @ [b]\<rparr>"
    and b1: "b < length (objs ?g1)" and k1: "memo_key (objs ?g1 ! b) = k"
    by blast
  have ok1: "dict_ok ?g1" and le1: "length (objs g) \<le> length (objs ?g1)"
    using e1 by (simp_all add: extends_def)
  have al1: "a < length (objs ?g1)" using Cons.prems(2) le1 by simp
  from Cons.IH [OF ok1 al1] obtain bs where
    e2: "extends ks ?g1 ?g2"
    and o2: "\<forall>c<length (objs ?g1). c \<noteq> a \<longrightarrow> objs ?g2 ! c = objs ?g1 ! c"
    and a2: "objs ?g2 ! a = (objs ?g1 ! a)\<lparr>preds := preds (objs ?g1 ! a) @ bs\<rparr>"
    and m2: "map (\<lambda>b. memo_key (objs ?g2 ! b)) bs = ks"
    and b2: "\<forall>b\<in>set bs. b < length (objs ?g2)"
    by blast
  have le2: "length (objs ?g1) \<le> length (objs ?g2)" using e2 by (simp add: extends_def)
  have keep: "\<forall>c. length (objs g) \<le> c \<and> c < length (objs ?g1) \<longrightarrow> preds (objs ?g2 ! c) = []"
  proof (intro allI impI)
    fix c assume c: "length (objs g) \<le> c \<and> c < length (objs ?g1)"
    then have "c \<noteq> a" using Cons.prems(2) by simp
    then have "objs ?g2 ! c = objs ?g1 ! c" using o2 c by simp
    then show "preds (objs ?g2 ! c) = []" using e1 c by (simp add: extends_def)
  qed
  have e: "extends (k # ks) g ?g2" using extends_trans [OF e1 e2 keep] by simp
  have o: "\<forall>c<length (objs g). c \<noteq> a \<longrightarrow> objs ?g2 ! c = objs g ! c"
    using o1 o2 le1 by simp
  have at: "objs ?g2 ! a = (objs g ! a)\<lparr>preds := preds (objs g ! a) @ (b # bs)\<rparr>"
    using a1 a2 by simp
  have kb: "memo_key (objs ?g2 ! b) = k"
    using e2 b1 k1 by (simp add: extends_def)
  have m: "map (\<lambda>b. memo_key (objs ?g2 ! b)) (b # bs) = k # ks" using kb m2 by simp
  have bb: "\<forall>x\<in>set (b # bs). x < length (objs ?g2)" using b1 le2 b2 by simp
  have ex: "\<exists>bs'. objs ?g2 ! a = (objs g ! a)\<lparr>preds := preds (objs g ! a) @ bs'\<rparr> \<and>
      map (\<lambda>b. memo_key (objs ?g2 ! b)) bs' = k # ks \<and> (\<forall>x\<in>set bs'. x < length (objs ?g2))"
    using at m bb by (intro exI [of _ "b # bs"] conjI)
  show ?case unfolding foldl_Cons using e o ex by blast
qed

lemma succs_updates_effect:
  "dict_ok g \<Longrightarrow>
   dict_ok (foldl (\<lambda>g b. update_task g b (\<lambda>t. t\<lparr>succs := succs t @ [a]\<rparr>)) g xs) \<and>
   fresh_tasks (foldl (\<lambda>g b. update_task g b (\<lambda>t. t\<lparr>succs := succs t @ [a]\<rparr>)) g xs) = fresh_tasks g \<and>
   step_id_preds (foldl (\<lambda>g b. update_task g b (\<lambda>t. t\<lparr>succs := succs t @ [a]\<rparr>)) g xs) = step_id_preds g \<and>
   length (objs (foldl (\<lambda>g b. update_task g b (\<lambda>t. t\<lparr>succs := succs t @ [a]\<rparr>)) g xs)) = length (objs g) \<and>
   (\<forall>c<length (objs g).
      preds (objs (foldl (\<lambda>g b. update_task g b (\<lambda>t. t\<lparr>succs := succs t @ [a]\<rparr>)) g xs) ! c)
        = preds (objs g ! c) \<and>
      memo_key (objs (foldl (\<lambda>g b. update_task g b (\<lambda>t. t\<lparr>succs := succs t @ [a]\<rparr>)) g xs) ! c)
        = memo_key (objs g ! c))"
proof (induction xs arbitrary: g)
  case Nil
  then show ?case by simp
next
  case (Cons x xs)
  let ?g1 = "update_task g x (\<lambda>t. t\<lparr>succs := succs t @ [a]\<rparr>)"
  have ok1: "dict_ok ?g1" using Cons.prems by (simp add: dict_ok_update_task)
  have l1: "length (objs ?g1) = length (objs g)" by (simp add: update_task_def)
  have f1: "fresh_tasks ?g1 = fresh_tasks g" "step_id_preds ?g1 = step_id_preds g"
    by (simp_all add: update_task_def)
  have p1: "\<forall>c<length (objs g). preds (objs ?g1 ! c) = preds (objs g ! c) \<and>
      memo_key (objs ?g1 ! c) = memo_key (objs g ! c)"
    by (simp add: update_task_def nth_update_if)
  show ?case using Cons.IH [OF ok1] l1 f1 p1 by simp
qed

lemma link_succs_effect:
  assumes "dict_ok g"
  shows "dict_ok (link_succs a g)" and "fresh_tasks (link_succs a g) = fresh_tasks g"
    and "step_id_preds (link_succs a g) = step_id_preds g"
    and "length (objs (link_succs a g)) = length (objs g)"
    and "c < length (objs g) \<Longrightarrow> preds (objs (link_succs a g) ! c) = preds (objs g ! c)"
    and "c < length (objs g) \<Longrightarrow> memo_key (objs (link_succs a g) ! c) = memo_key (objs g ! c)"
  using succs_updates_effect [OF assms, of a "preds (objs g ! a)"]
  by (simp_all add: link_succs_def)

lemma fit_requests_cong:
  assumes "memo_key t = memo_key t'" and sp: "step_id_preds g = step_id_preds g'"
  shows "fit_requests p g ids inc t = fit_requests p g' ids inc t'"
proof -
  have "cls t = cls t'" "step_id t = step_id t'" "batch_ids t = batch_ids t'"
    using assms(1) by (simp_all add: memo_key_def)
  then show ?thesis unfolding fit_requests_def by (simp only: sp)
qed

lemma seed_effect:
  assumes ok: "dict_ok g"
  shows "extends [k] g (seed g k) \<and>
         (\<forall>c<length (objs g). preds (objs (seed g k) ! c) = preds (objs g ! c))"
proof -
  obtain b g0 where f: "find_or_create g k = (b, g0)" by (cases "find_or_create g k")
  let ?g1 = "update_task g0 b (\<lambda>t. t\<lparr>deletable_output := False\<rparr>)"
  have g1: "seed g k = ?g1" using f by (simp add: seed_def)
  have e0: "extends [k] g g0" and same: "\<forall>c<length (objs g). objs g0 ! c = objs g ! c"
    using find_or_create_extends [OF ok, of k] f by simp_all
  have le: "length (objs g) \<le> length (objs g0)" using e0 by (simp add: extends_def)
  have e1: "extends [k] g ?g1" by (rule extends_update_task [OF e0]) simp_all
  have "\<forall>c<length (objs g). preds (objs ?g1 ! c) = preds (objs g ! c)"
    using same le by (simp add: update_task_def nth_update_if)
  then show ?thesis using e1 g1 by simp
qed

lemma seeds_effect:
  assumes "dict_ok g"
  shows "extends ks g (foldl seed g ks) \<and>
         (\<forall>c<length (objs g). preds (objs (foldl seed g ks) ! c) = preds (objs g ! c))"
  using assms
proof (induction ks arbitrary: g)
  case Nil
  then show ?case by (simp add: extends_refl)
next
  case (Cons k ks)
  let ?g1 = "seed g k"
  let ?g2 = "foldl seed ?g1 ks"
  have e1: "extends [k] g ?g1"
    and p1: "\<forall>c<length (objs g). preds (objs ?g1 ! c) = preds (objs g ! c)"
    using seed_effect [OF Cons.prems, of k] by simp_all
  have ok1: "dict_ok ?g1" and le1: "length (objs g) \<le> length (objs ?g1)"
    using e1 by (simp_all add: extends_def)
  have e2: "extends ks ?g1 ?g2"
    and p2: "\<forall>c<length (objs ?g1). preds (objs ?g2 ! c) = preds (objs ?g1 ! c)"
    using Cons.IH [OF ok1] by simp_all
  have keep: "\<forall>c. length (objs g) \<le> c \<and> c < length (objs ?g1) \<longrightarrow> preds (objs ?g2 ! c) = []"
    using p2 e1 by (simp add: extends_def)
  have e: "extends (k # ks) g ?g2" using extends_trans [OF e1 e2 keep] by simp
  have "\<forall>c<length (objs g). preds (objs ?g2 ! c) = preds (objs g ! c)"
    using p1 p2 le1 by simp
  then show ?case unfolding foldl_Cons using e by blast
qed

section \<open>The loop invariant of the fit-mode builder\<close>

lemma last_notin_butlast: "distinct xs \<Longrightarrow> xs \<noteq> [] \<Longrightarrow> last xs \<notin> set (butlast xs)"
  by (induction xs) auto

lemma set_butlast_last: "xs \<noteq> [] \<Longrightarrow> set xs = insert (last xs) (set (butlast xs))"
  by (induction xs) auto

lemma fit_inv_step:
  assumes inv: "fit_inv p ids inc g" and ne: "fresh_tasks g \<noteq> []"
    and pf: "pop_fresh g = (a, g1)"
    and rq: "fit_requests p g1 ids inc (objs g1 ! a) = Inr ks"
  shows "fit_inv p ids inc (expand a ks g1) \<and> extends ks g1 (expand a ks g1)"
proof -
  let ?l = "length (objs g)"
  let ?g2 = "foldl (append_pred a) g1 ks"
  let ?g3 = "link_succs a ?g2"
  have g3: "expand a ks g1 = ?g3" by (simp add: expand_def)
  have a_def: "a = last (fresh_tasks g)"
    and g1_def: "g1 = g\<lparr>fresh_tasks := butlast (fresh_tasks g)\<rparr>"
    using pf by (auto simp: pop_fresh_def)
  have fr: "set (fresh_tasks g) = insert a (set (butlast (fresh_tasks g)))"
    using set_butlast_last [OF ne] a_def by simp
  have ok: "dict_ok g" and sp: "step_id_preds g = step_id_preds (TaskGraph p)"
    and df: "distinct (fresh_tasks g)" and fl: "\<forall>c\<in>set (fresh_tasks g). c < ?l"
    using inv by (simp_all add: fit_inv_def)
  have a_in: "a \<in> set (fresh_tasks g)" using ne a_def by simp
  have al: "a < ?l" using fl a_in by simp
  have a_nb: "a \<notin> set (butlast (fresh_tasks g))"
    using last_notin_butlast [OF df ne] a_def by simp
  have pa: "preds (objs g ! a) = []" using inv al a_in by (simp add: fit_inv_def)
  have ok1: "dict_ok g1" using ok by (simp add: g1_def dict_ok_def)
  have o1: "objs g1 = objs g" and f1: "fresh_tasks g1 = butlast (fresh_tasks g)"
    and sp1: "step_id_preds g1 = step_id_preds g"
    by (simp_all add: g1_def)
  have al1: "a < length (objs g1)" using al o1 by simp
  from append_preds_effect [OF ok1 al1, of ks] obtain bs where
    e2: "extends ks g1 ?g2"
    and oth: "\<forall>c<?l. c \<noteq> a \<longrightarrow> objs ?g2 ! c = objs g ! c"
    and at: "objs ?g2 ! a = (objs g ! a)\<lparr>preds := bs\<rparr>"
    and mk: "map (\<lambda>b. memo_key (objs ?g2 ! b)) bs = ks"
    and bl: "\<forall>b\<in>set bs. b < length (objs ?g2)"
    using o1 pa by auto
  let ?l2 = "length (objs ?g2)"
  have ok2: "dict_ok ?g2" and sp2: "step_id_preds ?g2 = step_id_preds g"
    and le2: "?l \<le> ?l2" and fr2: "fresh_tasks ?g2 = butlast (fresh_tasks g) @ [?l..<?l2]"
    and old2: "\<forall>c<?l. memo_key (objs ?g2 ! c) = memo_key (objs g ! c)"
    and new2: "\<forall>c. ?l \<le> c \<and> c < ?l2 \<longrightarrow> preds (objs ?g2 ! c) = []"
    using e2 o1 f1 sp1 by (simp_all add: extends_def)
  note ls = link_succs_effect [OF ok2, where a = a]
  have ok3: "dict_ok ?g3" and fr3: "fresh_tasks ?g3 = butlast (fresh_tasks g) @ [?l..<?l2]"
    and sp3: "step_id_preds ?g3 = step_id_preds g" and l3: "length (objs ?g3) = ?l2"
    using ls(1-4) fr2 sp2 by simp_all
  have p3: "\<And>c. c < ?l2 \<Longrightarrow> preds (objs ?g3 ! c) = preds (objs ?g2 ! c)"
    and k3: "\<And>c. c < ?l2 \<Longrightarrow> memo_key (objs ?g3 ! c) = memo_key (objs ?g2 ! c)"
    using ls(5,6) by simp_all
  have kold: "\<And>c. c < ?l \<Longrightarrow> memo_key (objs ?g3 ! c) = memo_key (objs g ! c)"
    using k3 old2 le2 by simp
  have newk: "\<forall>c. ?l \<le> c \<and> c < ?l2 \<longrightarrow> memo_key (objs ?g2 ! c) \<in> set ks"
    using e2 o1 by (simp add: extends_def)
  have e3: "extends ks g1 ?g3"
    unfolding extends_def
  proof (intro conjI allI impI)
    show "dict_ok ?g3" by (rule ok3)
    show "step_id_preds ?g3 = step_id_preds g1" using sp3 sp1 by simp
    show "length (objs g1) \<le> length (objs ?g3)" using l3 le2 o1 by simp
    show "fresh_tasks ?g3 = fresh_tasks g1 @ [length (objs g1)..<length (objs ?g3)]"
      using fr3 f1 o1 l3 by simp
  next
    fix c assume "c < length (objs g1)"
    then show "memo_key (objs ?g3 ! c) = memo_key (objs g1 ! c)" using kold o1 by simp
  next
    fix c assume c: "length (objs g1) \<le> c \<and> c < length (objs ?g3)"
    then have c2: "?l \<le> c \<and> c < ?l2" using o1 l3 by simp
    show "preds (objs ?g3 ! c) = []" using p3 [of c] new2 c2 by simp
    show "memo_key (objs ?g3 ! c) \<in> set ks" using k3 [of c] newk c2 by simp
  qed
  have bf: "\<forall>c\<in>set (butlast (fresh_tasks g)). c < ?l"
    using fl by (meson in_set_butlastD)
  have d3: "distinct (fresh_tasks ?g3)"
    using df bf unfolding fr3 by (auto simp: distinct_butlast)
  have fl3: "\<forall>c\<in>set (fresh_tasks ?g3). c < length (objs ?g3)"
    using bf le2 unfolding fr3 l3 by auto
  have main: "\<forall>c<length (objs ?g3).
        (c \<in> set (fresh_tasks ?g3) \<longrightarrow> preds (objs ?g3 ! c) = []) \<and>
        (c \<notin> set (fresh_tasks ?g3) \<longrightarrow>
           (\<forall>b\<in>set (preds (objs ?g3 ! c)). b < length (objs ?g3)) \<and>
           fit_requests p ?g3 ids inc (objs ?g3 ! c)
             = Inr (map (\<lambda>b. memo_key (objs ?g3 ! b)) (preds (objs ?g3 ! c))))"
  proof (intro allI impI conjI)
    fix c assume c: "c < length (objs ?g3)" and cf: "c \<in> set (fresh_tasks ?g3)"
    show "preds (objs ?g3 ! c) = []"
    proof (cases "c < ?l")
      case True
      then have cb: "c \<in> set (butlast (fresh_tasks g))" using cf unfolding fr3 by auto
      then have "c \<noteq> a" using a_nb by auto
      then have "objs ?g2 ! c = objs g ! c" using oth True by simp
      moreover have "c \<in> set (fresh_tasks g)" using cb by (meson in_set_butlastD)
      ultimately show ?thesis using inv True p3 [of c] c l3 by (simp add: fit_inv_def)
    next
      case False
      then show ?thesis using new2 c l3 p3 [of c] by simp
    qed
  next
    fix c assume c: "c < length (objs ?g3)" and cf: "c \<notin> set (fresh_tasks ?g3)"
    have cl: "c < ?l" using c cf unfolding fr3 l3 by auto
    have cnb: "c \<notin> set (butlast (fresh_tasks g))" using cf unfolding fr3 by simp
    have pc: "preds (objs ?g3 ! c) = preds (objs ?g2 ! c)" using p3 c l3 by simp
    have rq3: "fit_requests p ?g3 ids inc (objs ?g3 ! c) = fit_requests p g ids inc (objs g ! c)"
      by (rule fit_requests_cong) (simp_all add: kold cl sp3)
    show "\<forall>b\<in>set (preds (objs ?g3 ! c)). b < length (objs ?g3)"
    proof (cases "c = a")
      case True
      then show ?thesis using pc at bl l3 by simp
    next
      case False
      then have "c \<notin> set (fresh_tasks g)" using cnb fr by simp
      then have "\<forall>b\<in>set (preds (objs g ! c)). b < ?l" using inv cl by (simp add: fit_inv_def)
      moreover have "objs ?g2 ! c = objs g ! c" using oth cl False by simp
      ultimately show ?thesis using pc le2 l3 by auto
    qed
    show "fit_requests p ?g3 ids inc (objs ?g3 ! c)
        = Inr (map (\<lambda>b. memo_key (objs ?g3 ! b)) (preds (objs ?g3 ! c)))"
    proof (cases "c = a")
      case True
      have "fit_requests p g ids inc (objs g ! a) = Inr ks"
        using rq fit_requests_cong [of "objs g ! a" "objs g1 ! a" g g1 p ids inc] o1 sp1 by simp
      moreover have "map (\<lambda>b. memo_key (objs ?g3 ! b)) bs = ks"
      proof -
        have "map (\<lambda>b. memo_key (objs ?g3 ! b)) bs = map (\<lambda>b. memo_key (objs ?g2 ! b)) bs"
          using bl k3 by (intro map_cong) simp_all
        then show ?thesis using mk by simp
      qed
      ultimately show ?thesis using rq3 pc at True by simp
    next
      case False
      then have nf: "c \<notin> set (fresh_tasks g)" using cnb fr by simp
      then have pb: "\<forall>b\<in>set (preds (objs g ! c)). b < ?l"
        and rqc: "fit_requests p g ids inc (objs g ! c)
            = Inr (map (\<lambda>b. memo_key (objs g ! b)) (preds (objs g ! c)))"
        using inv cl by (simp_all add: fit_inv_def)
      have same: "objs ?g2 ! c = objs g ! c" using oth cl False by simp
      have "map (\<lambda>b. memo_key (objs ?g3 ! b)) (preds (objs g ! c))
          = map (\<lambda>b. memo_key (objs g ! b)) (preds (objs g ! c))"
        using pb kold by simp
      then show ?thesis using rq3 rqc pc same by simp
    qed
  qed
  have "fit_inv p ids inc ?g3"
    unfolding fit_inv_def using ok3 sp3 sp d3 fl3 main by (intro conjI) simp_all
  then show ?thesis using e3 g3 by simp
qed

section \<open>Batch ids of fit-mode tasks\<close>

lemma str_nat_hd_digit: "\<exists>c r. str_nat n = c # r \<and> is_digit c"
  using str_nat_digits [of n] str_nat_nonempty [of n] by (cases "str_nat n") auto

lemma int_of_str_str_nat: "int_of_str (str_nat n) = Inr (int n)"
proof -
  obtain c r where cr: "str_nat n = c # r" and d: "is_digit c" using str_nat_hd_digit by blast
  have "c \<noteq> CHR ''-''" using d by (auto simp: is_digit_def)
  then show ?thesis
    using str_nat_digits [of n] nat_of_digits_str_nat [of n] cr
    by (simp add: int_of_str_def)
qed

lemma get_idx_batch_id: "length fld = 1 \<Longrightarrow> 0 \<le> i \<Longrightarrow> get_idx (batch_id fld i) = Inr i"
  by (simp add: get_idx_def batch_id_def str_int_def int_of_str_str_nat)

lemma get_fold_batch_id: "length fld = 1 \<Longrightarrow> get_fold (batch_id fld i) = Inr fld"
  by (cases fld) (simp_all add: get_fold_def batch_id_def)

lemma in_fit_batch_ids: "b \<in> set (fit_batch_ids n) \<longleftrightarrow> (\<exists>i. 0 \<le> i \<and> i < n \<and> b = batch_id ''d'' i)"
proof
  assume "b \<in> set (fit_batch_ids n)"
  then obtain j where "j < nat n" "b = batch_id ''d'' (int j)"
    by (auto simp: fit_batch_ids_def py_range_def)
  then show "\<exists>i. 0 \<le> i \<and> i < n \<and> b = batch_id ''d'' i"
    by (intro exI [of _ "int j"]) simp
next
  assume "\<exists>i. 0 \<le> i \<and> i < n \<and> b = batch_id ''d'' i"
  then obtain i where i: "0 \<le> i" "i < n" "b = batch_id ''d'' i" by blast
  have 1: "nat i < nat n" using i by simp
  have 2: "b = batch_id ''d'' (int (nat i))" using i by simp
  have "batch_id ''d'' (int (nat i)) \<in> (\<lambda>x. batch_id ''d'' (int x)) ` {0..<nat n}"
    using 1 by (intro imageI) simp
  then show "b \<in> set (fit_batch_ids n)"
    unfolding fit_batch_ids_def py_range_def 2 by (simp add: image_image)
qed

lemma length_fit_batch_ids: "length (fit_batch_ids n) = nat n"
  by (simp add: fit_batch_ids_def py_range_def)

lemma range_subset_fit_batch_ids:
  "m \<le> n \<Longrightarrow> set (map (batch_id ''d'') (py_range m)) \<subseteq> set (fit_batch_ids n)"
  by (auto simp: fit_batch_ids_def py_range_def)

lemma fit_batch_ids_as_range: "map (batch_id ''d'') (py_range (int (length (fit_batch_ids n)))) = fit_batch_ids n"
  by (simp add: fit_batch_ids_def py_range_def)

lemma ebind_Inr_iff: "ebind m f = Inr y \<longleftrightarrow> (\<exists>x. m = Inr x \<and> f x = Inr y)"
  by (cases m) (simp_all add: ebind_def)

lemma py_last_Inr_iff: "py_last xs = Inr b \<longleftrightarrow> xs \<noteq> [] \<and> b = last xs"
  by (auto simp: py_last_def)

lemma apply_requests_form:
  assumes c: "cls t = ApplyTask" and s: "step_id t \<noteq> DUMMY_INPUT_STEP"
    and ok: "bids_ok (fit_batch_ids n) (memo_key t)"
    and rq: "fit_requests p g (fit_batch_ids n) inc t = Inr ks"
  shows "\<exists>i ps. 0 \<le> i \<and> i < n \<and> batch_ids t = [batch_id ''d'' i] \<and>
           lookup (step_id_preds g) (step_id t) = Inr ps \<and>
           ks = (TrainTask, step_id t,
                  (if inc then map (batch_id ''d'') (py_range (i + 1)) else fit_batch_ids n),
                  None)
                # map (\<lambda>q. (ApplyTask, q, batch_ids t, None)) ps"
proof -
  from rq c s obtain fit_upto b fld ps where
    fu: "(if inc then ebind (py_last (batch_ids t)) (\<lambda>b. ebind (get_idx b) (\<lambda>i. Inr (i + 1)))
          else Inr (int (length (fit_batch_ids n)))) = Inr fit_upto"
    and b: "py_last (batch_ids t) = Inr b" and fld: "get_fold b = Inr fld"
    and ps: "lookup (step_id_preds g) (step_id t) = Inr ps"
    and ks: "ks = (TrainTask, step_id t, map (batch_id fld) (py_range fit_upto), None)
                  # map (\<lambda>q. (ApplyTask, q, batch_ids t, None)) ps"
    by (auto simp: fit_requests_def ebind_Inr_iff)
  have ne: "batch_ids t \<noteq> []" and bl: "b = last (batch_ids t)"
    using b by (simp_all add: py_last_Inr_iff)
  have "length (batch_ids t) \<le> 1" and sub: "set (batch_ids t) \<subseteq> set (fit_batch_ids n)"
    using ok c by (simp_all add: bids_ok_def memo_key_def)
  then have one: "batch_ids t = [b]"
    using ne bl by (cases "batch_ids t") auto
  then have "b \<in> set (fit_batch_ids n)" using sub by simp
  then obtain i where i: "0 \<le> i" "i < n" "b = batch_id ''d'' i"
    using in_fit_batch_ids by blast
  have f: "fld = ''d''" using fld i get_fold_batch_id [of "''d''" i] by simp
  have gi: "get_idx b = Inr i" using i get_idx_batch_id [of "''d''" i] by simp
  have "map (batch_id fld) (py_range fit_upto)
      = (if inc then map (batch_id ''d'') (py_range (i + 1)) else fit_batch_ids n)"
  proof (cases inc)
    case True
    then have "fit_upto = i + 1" using fu b gi by (simp add: ebind_def)
    then show ?thesis using True f by simp
  next
    case False
    then have "fit_upto = int (length (fit_batch_ids n))" using fu by simp
    then show ?thesis using False f fit_batch_ids_as_range by simp
  qed
  then show ?thesis using i one ps ks by auto
qed

lemma bids_ok_apply_requests:
  assumes c: "cls t = ApplyTask"
    and ok: "bids_ok (fit_batch_ids n) (memo_key t)"
    and rq: "fit_requests p g (fit_batch_ids n) inc t = Inr ks"
  shows "\<forall>k\<in>set ks. bids_ok (fit_batch_ids n) k"
proof (cases "step_id t = DUMMY_INPUT_STEP")
  case True
  then show ?thesis using rq c by (simp add: fit_requests_def)
next
  case False
  from apply_requests_form [OF c False ok rq] obtain i ps where
    i: "0 \<le> i" "i < n" and one: "batch_ids t = [batch_id ''d'' i]"
    and ks: "ks = (TrainTask, step_id t,
                  (if inc then map (batch_id ''d'') (py_range (i + 1)) else fit_batch_ids n),
                  None)
                # map (\<lambda>q. (ApplyTask, q, batch_ids t, None)) ps"
    by blast
  have in_ids: "batch_id ''d'' i \<in> set (fit_batch_ids n)" using i in_fit_batch_ids by blast
  have ne: "fit_batch_ids n \<noteq> []" using in_ids by auto
  have r: "set (map (batch_id ''d'') (py_range (i + 1))) \<subseteq> set (fit_batch_ids n)"
    using i by (intro range_subset_fit_batch_ids) simp
  have rne: "map (batch_id ''d'') (py_range (i + 1)) \<noteq> []"
    using i by (simp add: py_range_def)
  have "bids_ok (fit_batch_ids n) (TrainTask, step_id t,
          (if inc then map (batch_id ''d'') (py_range (i + 1)) else fit_batch_ids n), None)"
    using r rne ne by (simp add: bids_ok_def)
  moreover have "\<forall>q. bids_ok (fit_batch_ids n) (ApplyTask, q, batch_ids t, None)"
    using one in_ids by (simp add: bids_ok_def)
  ultimately show ?thesis unfolding ks by auto
qed

lemma bids_ok_metric_requests:
  assumes c: "cls t = MetricTask"
    and ok: "bids_ok (fit_batch_ids n) (memo_key t)"
    and rq: "fit_requests p g (fit_batch_ids n) inc t = Inr ks"
  shows "\<forall>k\<in>set ks. bids_ok (fit_batch_ids n) k"
proof -
  have l: "length (batch_ids t) = 1" using rq c by (auto simp: fit_requests_def split: if_splits)
  have sub: "set (batch_ids t) \<subseteq> set (fit_batch_ids n)" using ok by (simp add: bids_ok_def memo_key_def)
  have ne: "batch_ids t \<noteq> []" using l by auto
  have "\<forall>q. bids_ok (fit_batch_ids n) (ApplyTask, q, batch_ids t, None)"
    using l sub ne by (simp add: bids_ok_def)
  then show ?thesis using rq c l by (auto simp: fit_requests_def split: option.splits)
qed

lemma bids_ok_train_requests:
  assumes c: "cls t = TrainTask"
    and ok: "bids_ok (fit_batch_ids n) (memo_key t)"
    and rq: "fit_requests p g (fit_batch_ids n) inc t = Inr ks"
  shows "\<forall>k\<in>set ks. bids_ok (fit_batch_ids n) k"
proof -
  let ?bs = "batch_ids t" and ?ids = "fit_batch_ids n"
  have sub: "set ?bs \<subseteq> set ?ids" and ne: "?ids \<noteq> [] \<longrightarrow> ?bs \<noteq> []"
    using ok by (simp_all add: bids_ok_def memo_key_def)
  have single: "\<forall>b\<in>set ?bs. \<forall>c q. bids_ok ?ids (c, q, [b], None)"
    using sub by (auto simp: bids_ok_def)
  have whole: "length ?bs = 1 \<longrightarrow> (\<forall>c q. bids_ok ?ids (c, q, ?bs, None))"
    using sub by (auto simp: bids_ok_def)
  have bl: "length ?bs \<noteq> 1 \<longrightarrow> bids_ok ?ids (TrainTask, step_id t, butlast ?bs, None)"
  proof
    assume l: "length ?bs \<noteq> 1"
    have "set (butlast ?bs) \<subseteq> set ?ids" using sub by (meson in_set_butlastD subset_iff)
    moreover have "?ids \<noteq> [] \<longrightarrow> butlast ?bs \<noteq> []"
      using ne l by (cases ?bs) (auto split: if_splits)
    ultimately show "bids_ok ?ids (TrainTask, step_id t, butlast ?bs, None)"
      by (simp add: bids_ok_def)
  qed
  have ls: "\<forall>c q. bids_ok ?ids (c, q, last_slice ?bs, None)"
    using sub ne by (auto simp: bids_ok_def last_slice_def)
  from rq c obtain step where
    body: "(if is_pretrained step then Inr []
            else if length ?bs = 1 then
              ebind (lookup (step_id_preds g) (step_id t)) (\<lambda>ps.
                Inr (map (\<lambda>q. (ApplyTask, q, ?bs, None)) ps))
            else if is_associative step then
              Inr (map (\<lambda>b. (TrainTask, step_id t, [b], None)) ?bs)
            else if is_incremental step then
              ebind (lookup (step_id_preds g) (step_id t)) (\<lambda>ps.
                Inr ((TrainTask, step_id t, butlast ?bs, None)
                     # map (\<lambda>q. (ApplyTask, q, last_slice ?bs, None)) ps))
            else
              ebind (lookup (step_id_preds g) (step_id t)) (\<lambda>ps.
                Inr (concat (map (\<lambda>q. map (\<lambda>b. (ApplyTask, q, [b], None)) ?bs) ps)))) = Inr ks"
    by (auto simp: fit_requests_def ebind_Inr_iff)
  show ?thesis
  proof (cases "is_pretrained step")
    case True
    then show ?thesis using body by simp
  next
    case np: False
    show ?thesis
    proof (cases "length ?bs = 1")
      case True
      then show ?thesis using body np whole by (auto simp: ebind_Inr_iff)
    next
      case nl: False
      show ?thesis
      proof (cases "is_associative step")
        case True
        then show ?thesis using body np nl single by auto
      next
        case na: False
        show ?thesis
        proof (cases "is_incremental step")
          case True
          then show ?thesis using body np nl na bl ls by (auto simp: ebind_Inr_iff)
        next
          case False
          then show ?thesis using body np nl na single by (auto simp: ebind_Inr_iff)
        qed
      qed
    qed
  qed
qed

lemma bids_ok_requests:
  assumes "bids_ok (fit_batch_ids n) (memo_key t)"
    and "fit_requests p g (fit_batch_ids n) inc t = Inr ks"
  shows "\<forall>k\<in>set ks. bids_ok (fit_batch_ids n) k"
  using assms bids_ok_train_requests bids_ok_apply_requests bids_ok_metric_requests
  by (cases "cls t") blast+

lemma keys_extends:
  assumes e: "extends ks g g'"
    and old: "\<forall>c<length (objs g). K (memo_key (objs g ! c))"
    and new: "\<forall>k\<in>set ks. K k"
  shows "\<forall>c<length (objs g'). K (memo_key (objs g' ! c))"
proof (intro allI impI)
  fix c assume c: "c < length (objs g')"
  show "K (memo_key (objs g' ! c))"
  proof (cases "c < length (objs g)")
    case True
    then show ?thesis using e old by (simp add: extends_def)
  next
    case False
    then have "memo_key (objs g' ! c) \<in> set ks" using e c by (simp add: extends_def)
    then show ?thesis using new by blast
  qed
qed

lemma fit_inv_seeds:
  "fit_inv p ids inc (foldl seed (TaskGraph p) ks) \<and>
   (\<forall>c<length (objs (foldl seed (TaskGraph p) ks)).
      memo_key (objs (foldl seed (TaskGraph p) ks) ! c) \<in> set ks)"
proof -
  let ?g = "foldl seed (TaskGraph p) ks"
  have e: "extends ks (TaskGraph p) ?g"
    using seeds_effect [OF dict_ok_TaskGraph, of ks p] by simp
  have o0: "objs (TaskGraph p) = []" and f0: "fresh_tasks (TaskGraph p) = []"
    by (simp_all add: TaskGraph_def)
  have ok: "dict_ok ?g" and sp: "step_id_preds ?g = step_id_preds (TaskGraph p)"
    and fr: "fresh_tasks ?g = [0..<length (objs ?g)]"
    and new: "\<forall>c<length (objs ?g). preds (objs ?g ! c) = [] \<and> memo_key (objs ?g ! c) \<in> set ks"
    using e o0 f0 by (simp_all add: extends_def)
  have "fit_inv p ids inc ?g"
    unfolding fit_inv_def using ok sp fr new by (intro conjI) simp_all
  then show ?thesis using new by simp
qed

lemma fit_loop_bids:
  assumes run: "fit_loop p (fit_batch_ids n) inc g = Some (Inr tg)"
    and inv: "fit_inv p (fit_batch_ids n) inc g"
    and keys: "\<forall>c<length (objs g). bids_ok (fit_batch_ids n) (memo_key (objs g ! c))"
  shows "fit_inv p (fit_batch_ids n) inc tg \<and> fresh_tasks tg = [] \<and>
         (\<forall>c<length (objs tg). bids_ok (fit_batch_ids n) (memo_key (objs tg ! c)))"
proof -
  let ?I = "\<lambda>g. fit_inv p (fit_batch_ids n) inc g \<and>
      (\<forall>c<length (objs g). bids_ok (fit_batch_ids n) (memo_key (objs g ! c)))"
  have "?I tg \<and> fresh_tasks tg = []"
  proof (rule fit_loop_invariant [OF run, where I = ?I])
    show "?I g" using inv keys by simp
  next
    fix g a g1 ks
    assume I: "?I g" and ne: "fresh_tasks g \<noteq> []" and pf: "pop_fresh g = (a, g1)"
      and rq: "fit_requests p g1 (fit_batch_ids n) inc (objs g1 ! a) = Inr ks"
    have st: "fit_inv p (fit_batch_ids n) inc (expand a ks g1) \<and> extends ks g1 (expand a ks g1)"
      using fit_inv_step [OF _ ne pf rq] I by simp
    have o1: "objs g1 = objs g" and a: "a = last (fresh_tasks g)"
      using pf by (auto simp: pop_fresh_def)
    have "a \<in> set (fresh_tasks g)" using ne a by simp
    then have al: "a < length (objs g)" using I by (simp add: fit_inv_def)
    then have "bids_ok (fit_batch_ids n) (memo_key (objs g1 ! a))" using I o1 by simp
    then have new: "\<forall>k\<in>set ks. bids_ok (fit_batch_ids n) k" using bids_ok_requests rq by blast
    have old: "\<forall>c<length (objs g1). bids_ok (fit_batch_ids n) (memo_key (objs g1 ! c))"
      using I o1 by simp
    have "\<forall>c<length (objs (expand a ks g1)).
        bids_ok (fit_batch_ids n) (memo_key (objs (expand a ks g1) ! c))"
      using keys_extends [of ks g1 "expand a ks g1" "bids_ok (fit_batch_ids n)"] st old new by blast
    then show "?I (expand a ks g1)" using st by simp
  qed
  then show ?thesis by simp
qed

lemma create_tasks_fit_inv:
  assumes "create_tasks_fit p (fit_batch_ids n) nm inc = Some (Inr tg)"
  shows "fit_inv p (fit_batch_ids n) inc tg \<and> fresh_tasks tg = [] \<and>
         (\<forall>c<length (objs tg). bids_ok (fit_batch_ids n) (memo_key (objs tg ! c)))"
proof -
  let ?ids = "fit_batch_ids n"
  let ?k1 = "map (\<lambda>s. (TrainTask, s, ?ids, None)) (py_range (int (length (steps_list p))))"
  let ?k2 = "if nm then map (\<lambda>b. (MetricTask, DUMMY_SCORE_STEP, [b], None)) ?ids else []"
  let ?g = "foldl seed (TaskGraph p) (?k1 @ ?k2)"
  have run: "fit_loop p ?ids inc ?g = Some (Inr tg)"
    using assms unfolding create_tasks_fit_def Let_def by (cases nm) simp_all
  have seeds: "\<forall>k\<in>set (?k1 @ ?k2). bids_ok ?ids k"
    by (auto simp: bids_ok_def)
  have inv: "fit_inv p ?ids inc ?g"
    and keys: "\<forall>c<length (objs ?g). memo_key (objs ?g ! c) \<in> set (?k1 @ ?k2)"
    using fit_inv_seeds [of p ?ids inc "?k1 @ ?k2"] by blast+
  have "\<forall>c<length (objs ?g). bids_ok ?ids (memo_key (objs ?g ! c))"
    using keys seeds by blast
  then show ?thesis using fit_loop_bids [OF run inv] by blast
qed

section \<open>Predecessors of an ApplyTask in fit mode\<close>

lemma lookup_step_id_preds:
  assumes "lookup (step_id_preds (TaskGraph p)) s = Inr ps"
  shows "\<exists>j<length (steps_list p). s = int j \<and>
           ps = (if step_preds (steps_list p ! j) = [] then [DUMMY_INPUT_STEP]
                 else map int (step_preds (steps_list p ! j)))"
proof -
  have "map_of (step_id_preds (TaskGraph p)) s = Some ps"
    using assms by (simp add: lookup_def split: option.splits)
  then have "(s, ps) \<in> set (step_id_preds (TaskGraph p))" by (rule map_of_SomeD)
  then show ?thesis by (auto simp: TaskGraph_def)
qed

text \<open>
  Claim C5. In the task graph that \<^verbatim>\<open>fit_with_batches\<close> builds for \<open>n\<close> batches,
  every ApplyTask of a step other than the input step is over one batch id \<^verbatim>\<open>d\<close>\<open>i\<close>,
  and its predecessors are, in this order: the TrainTask of its step over all batch ids
  when \<^verbatim>\<open>incremental\<close> is false, over \<^verbatim>\<open>d0\<close> .. \<^verbatim>\<open>d\<close>\<open>i\<close> when it is true; then one
  ApplyTask over the same batch id for each entry of the step's predecessor list (the
  input step when the step has no predecessor step). Each predecessor is the task object
  that the graph keeps under that key.
\<close>

theorem fit_apply_task_predecessors:
  assumes "create_tasks_fit p (fit_batch_ids n) need_metrics incremental = Some (Inr tg)"
    and "a < length (objs tg)" and "cls (objs tg ! a) = ApplyTask"
    and "step_id (objs tg ! a) \<noteq> DUMMY_INPUT_STEP"
  shows "\<exists>i j. 0 \<le> i \<and> i < n \<and> batch_ids (objs tg ! a) = [batch_id ''d'' i] \<and>
           j < length (steps_list p) \<and> step_id (objs tg ! a) = int j \<and>
           map (\<lambda>b. memo_key (objs tg ! b)) (preds (objs tg ! a)) =
             (TrainTask, int j,
               (if incremental then map (batch_id ''d'') (py_range (i + 1)) else fit_batch_ids n),
               None)
             # map (\<lambda>q. (ApplyTask, q, [batch_id ''d'' i], None))
                 (if step_preds (steps_list p ! j) = [] then [DUMMY_INPUT_STEP]
                  else map int (step_preds (steps_list p ! j))) \<and>
           (\<forall>b\<in>set (preds (objs tg ! a)).
              b < length (objs tg) \<and> map_of (all_tasks tg) (memo_key (objs tg ! b)) = Some b)"
proof -
  let ?t = "objs tg ! a"
  from create_tasks_fit_inv [OF assms(1)] have
    inv: "fit_inv p (fit_batch_ids n) incremental tg" and fr: "fresh_tasks tg = []"
    and keys: "\<forall>c<length (objs tg). bids_ok (fit_batch_ids n) (memo_key (objs tg ! c))"
    by blast+
  have ok: "dict_ok tg" and sp: "step_id_preds tg = step_id_preds (TaskGraph p)"
    using inv by (simp_all add: fit_inv_def)
  have pl: "\<forall>b\<in>set (preds ?t). b < length (objs tg)"
    and rq: "fit_requests p tg (fit_batch_ids n) incremental ?t
        = Inr (map (\<lambda>b. memo_key (objs tg ! b)) (preds ?t))"
    using inv fr assms(2) by (simp_all add: fit_inv_def)
  have bok: "bids_ok (fit_batch_ids n) (memo_key ?t)" using keys assms(2) by simp
  have "\<exists>i ps. 0 \<le> i \<and> i < n \<and> batch_ids ?t = [batch_id ''d'' i] \<and>
      lookup (step_id_preds tg) (step_id ?t) = Inr ps \<and>
      map (\<lambda>b. memo_key (objs tg ! b)) (preds ?t) =
        (TrainTask, step_id ?t,
          (if incremental then map (batch_id ''d'') (py_range (i + 1)) else fit_batch_ids n), None)
        # map (\<lambda>q. (ApplyTask, q, batch_ids ?t, None)) ps"
    by (rule apply_requests_form [OF assms(3,4) bok rq])
  then obtain i ps where all: "0 \<le> i \<and> i < n \<and> batch_ids ?t = [batch_id ''d'' i] \<and>
      lookup (step_id_preds tg) (step_id ?t) = Inr ps \<and>
      map (\<lambda>b. memo_key (objs tg ! b)) (preds ?t) =
        (TrainTask, step_id ?t,
          (if incremental then map (batch_id ''d'') (py_range (i + 1)) else fit_batch_ids n), None)
        # map (\<lambda>q. (ApplyTask, q, batch_ids ?t, None)) ps"
    by (elim exE) (erule that)
  note i = all [THEN conjunct1] all [THEN conjunct2, THEN conjunct1]
    and one = all [THEN conjunct2, THEN conjunct2, THEN conjunct1]
    and lk = all [THEN conjunct2, THEN conjunct2, THEN conjunct2, THEN conjunct1]
    and ks = all [THEN conjunct2, THEN conjunct2, THEN conjunct2, THEN conjunct2]
  from lookup_step_id_preds [of p "step_id ?t" ps] lk sp obtain j where
    j: "j < length (steps_list p)" "step_id ?t = int j"
    and ps: "ps = (if step_preds (steps_list p ! j) = [] then [DUMMY_INPUT_STEP]
                   else map int (step_preds (steps_list p ! j)))"
    by auto
  have refs: "\<forall>b\<in>set (preds ?t).
      b < length (objs tg) \<and> map_of (all_tasks tg) (memo_key (objs tg ! b)) = Some b"
  proof
    fix b assume "b \<in> set (preds ?t)"
    then have "b < length (objs tg)" using pl by blast
    then show "b < length (objs tg) \<and> map_of (all_tasks tg) (memo_key (objs tg ! b)) = Some b"
      using dict_ok_lookup [OF ok, of "memo_key (objs tg ! b)" b] by simp
  qed
  have "map (\<lambda>b. memo_key (objs tg ! b)) (preds ?t) =
        (TrainTask, int j,
          (if incremental then map (batch_id ''d'') (py_range (i + 1)) else fit_batch_ids n), None)
        # map (\<lambda>q. (ApplyTask, q, [batch_id ''d'' i], None))
            (if step_preds (steps_list p ! j) = [] then [DUMMY_INPUT_STEP]
             else map int (step_preds (steps_list p ! j)))"
    using ks one j(2) ps by simp
  then show ?thesis using i one j refs
    by (intro exI [of _ i] exI [of _ j] conjI)
qed

theorem fit_apply_task_predecessors_witness:
  "built (create_tasks_fit example_pipeline (fit_batch_ids 3) True True) \<and>
   9 < length (objs (the_graph (create_tasks_fit example_pipeline (fit_batch_ids 3) True True))) \<and>
   memo_key (objs (the_graph (create_tasks_fit example_pipeline (fit_batch_ids 3) True True)) ! 9)
     = (ApplyTask, 1, [''d1''], None) \<and>
   (\<exists>i j. 0 \<le> i \<and> i < 3 \<and>
      batch_ids (objs (the_graph (create_tasks_fit example_pipeline (fit_batch_ids 3) True True)) ! 9)
        = [batch_id ''d'' i] \<and>
      j < length (steps_list example_pipeline) \<and>
      step_id (objs (the_graph (create_tasks_fit example_pipeline (fit_batch_ids 3) True True)) ! 9)
        = int j \<and>
      map (\<lambda>b. memo_key
              (objs (the_graph (create_tasks_fit example_pipeline (fit_batch_ids 3) True True)) ! b))
        (preds (objs (the_graph (create_tasks_fit example_pipeline (fit_batch_ids 3) True True)) ! 9))
      = (TrainTask, int j,
          (if True then map (batch_id ''d'') (py_range (i + 1)) else fit_batch_ids 3), None)
        # map (\<lambda>q. (ApplyTask, q, [batch_id ''d'' i], None))
            (if step_preds (steps_list example_pipeline ! j) = [] then [DUMMY_INPUT_STEP]
             else map int (step_preds (steps_list example_pipeline ! j))) \<and>
      (\<forall>b\<in>set (preds
            (objs (the_graph (create_tasks_fit example_pipeline (fit_batch_ids 3) True True)) ! 9)).
         b < length (objs (the_graph (create_tasks_fit example_pipeline (fit_batch_ids 3) True True))) \<and>
         map_of (all_tasks (the_graph (create_tasks_fit example_pipeline (fit_batch_ids 3) True True)))
           (memo_key
             (objs (the_graph (create_tasks_fit example_pipeline (fit_batch_ids 3) True True)) ! b))
         = Some b))"
proof -
  let ?G = "the_graph (create_tasks_fit example_pipeline (fit_batch_ids 3) True True)"
  have b: "built (create_tasks_fit example_pipeline (fit_batch_ids 3) True True)" by code_simp
  have l: "9 < length (objs ?G)" by code_simp
  have k: "memo_key (objs ?G ! 9) = (ApplyTask, 1, [''d1''], None)" by code_simp
  have c: "cls (objs ?G ! 9) = ApplyTask" using k by (simp add: memo_key_def)
  have s: "step_id (objs ?G ! 9) \<noteq> DUMMY_INPUT_STEP"
    using k by (simp add: memo_key_def DUMMY_INPUT_STEP_def)
  note th = fit_apply_task_predecessors [OF built_the_graph [OF b] l c s]
  show ?thesis using b l k th by (intro conjI)
qed

section \<open>Order on priorities\<close>

lemma pcomp_lt_irrefl: "\<not> pcomp_lt x x"
  by (cases x) simp_all

lemma pcomp_lt_trans: "pcomp_lt x y \<Longrightarrow> pcomp_lt y z \<Longrightarrow> pcomp_lt x z"
  by (cases x; cases y; cases z) auto

lemma pcomp_lt_asym: "pcomp_lt x y \<Longrightarrow> \<not> pcomp_lt y x"
  using pcomp_lt_irrefl pcomp_lt_trans by blast

lemma tuple_lt_irrefl: "\<not> tuple_lt xs xs"
  by (induction xs) simp_all

lemma tuple_lt_trans: "tuple_lt xs ys \<Longrightarrow> tuple_lt ys zs \<Longrightarrow> tuple_lt xs zs"
proof (induction xs ys arbitrary: zs rule: tuple_lt.induct)
  case 1
  then show ?case by simp
next
  case (2 y ys)
  then show ?case by (cases zs) simp_all
next
  case (3 x xs)
  then show ?case by simp
next
  case (4 x xs y ys)
  then obtain z zs' where zs: "zs = z # zs'" by (cases zs) auto
  show ?case
  proof (cases "x = y")
    case True
    show ?thesis
    proof (cases "y = z")
      case yz: True
      then show ?thesis using 4 True zs by simp
    next
      case False
      then show ?thesis using 4 True zs by simp
    qed
  next
    case xy: False
    then have lxy: "pcomp_lt x y" using 4(2) by simp
    show ?thesis
    proof (cases "y = z")
      case True
      then show ?thesis using xy lxy zs by simp
    next
      case False
      then have lyz: "pcomp_lt y z" using 4(3) zs by simp
      have "x \<noteq> z" using lxy lyz pcomp_lt_asym by blast
      then show ?thesis using pcomp_lt_trans [OF lxy lyz] zs by simp
    qed
  qed
qed

lemma tuple_lt_asym: "tuple_lt xs ys \<Longrightarrow> \<not> tuple_lt ys xs"
  using tuple_lt_irrefl tuple_lt_trans by blast

text \<open>Two priorities of one policy carry the same kind of value at each position.\<close>

lemma pcomp_total:
  "(case x of PStrs _ \<Rightarrow> True | _ \<Rightarrow> False) = (case y of PStrs _ \<Rightarrow> True | _ \<Rightarrow> False) \<Longrightarrow>
   x = y \<or> pcomp_lt x y \<or> pcomp_lt y x"
  by (cases x; cases y) auto

lemma tuple_total:
  "list_all2 (\<lambda>x y. (case x of PStrs _ \<Rightarrow> True | _ \<Rightarrow> False)
                    = (case y of PStrs _ \<Rightarrow> True | _ \<Rightarrow> False)) xs ys \<Longrightarrow>
   xs = ys \<or> tuple_lt xs ys \<or> tuple_lt ys xs"
proof (induction rule: list_all2_induct)
  case Nil
  then show ?case by simp
next
  case (Cons x xs y ys)
  show ?case
  proof (cases "x = y")
    case True
    then show ?thesis using Cons.IH by auto
  next
    case False
    then have "pcomp_lt x y \<or> pcomp_lt y x" using pcomp_total [OF Cons.hyps(1)] by simp
    then show ?thesis using False by auto
  qed
qed

lemma task_priority_kinds:
  assumes "task_priority pr spark h t1 = Inr p1" and "task_priority pr spark h' t2 = Inr p2"
  shows "list_all2 (\<lambda>x y. (case x of PStrs _ \<Rightarrow> True | _ \<Rightarrow> False)
                    = (case y of PStrs _ \<Rightarrow> True | _ \<Rightarrow> False)) p1 p2"
  using assms by (cases pr) (auto simp: task_priority_def ebind_Inr_iff)

lemma task_priority_total:
  assumes "task_priority pr spark h t1 = Inr p1" and "task_priority pr spark h' t2 = Inr p2"
  shows "p1 = p2 \<or> tuple_lt p1 p2 \<or> tuple_lt p2 p1"
  using tuple_total [OF task_priority_kinds [OF assms]] .

lemma ready_before_waiting:
  assumes "status t1 = READY" and "status t2 = WAITING"
    and "task_priority pr spark h t1 = Inr p1" and "task_priority pr spark h' t2 = Inr p2"
  shows "tuple_lt p1 p2"
  using assms by (cases pr) (auto simp: task_priority_def ebind_Inr_iff)

lemma task_priority_eq:
  assumes "task_priority pr spark h t1 = Inr p1" and "task_priority pr spark h' t2 = Inr p2"
    and "p1 = p2"
  shows "status_value (status t1) = status_value (status t2) \<and> step_id t1 = step_id t2 \<and>
         batch_ids t1 = batch_ids t2 \<and> train_flag t1 = train_flag t2"
  using assms by (cases pr) (auto simp: task_priority_def ebind_Inr_iff)

section \<open>Keys of fit-mode tasks\<close>

lemma fit_loop_keys:
  assumes run: "fit_loop p ids inc g = Some (Inr tg)"
    and inv: "fit_inv p ids inc g"
    and keys: "\<forall>c<length (objs g). K (memo_key (objs g ! c))"
    and closed: "\<And>t g ks. K (memo_key t) \<Longrightarrow> step_id_preds g = step_id_preds (TaskGraph p) \<Longrightarrow>
        fit_requests p g ids inc t = Inr ks \<Longrightarrow> \<forall>k\<in>set ks. K k"
  shows "\<forall>c<length (objs tg). K (memo_key (objs tg ! c))"
proof -
  let ?I = "\<lambda>g. fit_inv p ids inc g \<and> (\<forall>c<length (objs g). K (memo_key (objs g ! c)))"
  have "?I tg \<and> fresh_tasks tg = []"
  proof (rule fit_loop_invariant [OF run, where I = ?I])
    show "?I g" using inv keys by simp
  next
    fix g a g1 ks
    assume I: "?I g" and ne: "fresh_tasks g \<noteq> []" and pf: "pop_fresh g = (a, g1)"
      and rq: "fit_requests p g1 ids inc (objs g1 ! a) = Inr ks"
    have st: "fit_inv p ids inc (expand a ks g1) \<and> extends ks g1 (expand a ks g1)"
      using fit_inv_step [OF _ ne pf rq] I by simp
    have o1: "objs g1 = objs g" and a: "a = last (fresh_tasks g)"
      and sp1: "step_id_preds g1 = step_id_preds g"
      using pf by (auto simp: pop_fresh_def)
    have sp: "step_id_preds g1 = step_id_preds (TaskGraph p)"
      using I sp1 by (simp add: fit_inv_def)
    have "a \<in> set (fresh_tasks g)" using ne a by simp
    then have al: "a < length (objs g)" using I by (simp add: fit_inv_def)
    then have "K (memo_key (objs g1 ! a))" using I o1 by simp
    then have new: "\<forall>k\<in>set ks. K k" using closed sp rq by blast
    have old: "\<forall>c<length (objs g1). K (memo_key (objs g1 ! c))"
      using I o1 by simp
    have "\<forall>c<length (objs (expand a ks g1)). K (memo_key (objs (expand a ks g1) ! c))"
      using keys_extends [of ks g1 "expand a ks g1" K] st old new by blast
    then show "?I (expand a ks g1)" using st by simp
  qed
  then show ?thesis by simp
qed

lemma lookup_preds_bound:
  assumes wf: "wf_pipeline p" and lk: "lookup (step_id_preds (TaskGraph p)) s = Inr ps"
  shows "\<forall>q\<in>set ps. q < int (length (steps_list p))"
proof -
  from lookup_step_id_preds [OF lk] obtain j where j: "j < length (steps_list p)"
    and ps: "ps = (if step_preds (steps_list p ! j) = [] then [DUMMY_INPUT_STEP]
                   else map int (step_preds (steps_list p ! j)))"
    by blast
  have "\<forall>q\<in>set (step_preds (steps_list p ! j)). q < length (steps_list p)"
    using wf j nth_mem [OF j] by (auto simp: wf_pipeline_def)
  then show ?thesis using ps by (auto simp: DUMMY_INPUT_STEP_def)
qed

lemma fit_key_ok_requests:
  assumes wf: "wf_pipeline p" and ok: "fit_key_ok p (memo_key t)"
    and sp: "step_id_preds g = step_id_preds (TaskGraph p)"
    and rq: "fit_requests p g ids inc t = Inr ks"
  shows "\<forall>k\<in>set ks. fit_key_ok p k"
proof -
  have pb: "\<And>ps. lookup (step_id_preds g) (step_id t) = Inr ps \<Longrightarrow>
       \<forall>q\<in>set ps. \<forall>bs. fit_key_ok p (ApplyTask, q, bs, None)"
    using lookup_preds_bound [OF wf] sp by (simp add: fit_key_ok_def)
  show ?thesis
  proof (cases "cls t")
    case TrainTask
    then have s: "step_id t < int (length (steps_list p))"
      using ok by (simp add: fit_key_ok_def memo_key_def)
    then have tr: "\<forall>bs. fit_key_ok p (TrainTask, step_id t, bs, None)"
      by (simp add: fit_key_ok_def)
    from rq TrainTask obtain step where
      body: "(if is_pretrained step then Inr []
            else if length (batch_ids t) = 1 then
              ebind (lookup (step_id_preds g) (step_id t)) (\<lambda>ps.
                Inr (map (\<lambda>q. (ApplyTask, q, batch_ids t, None)) ps))
            else if is_associative step then
              Inr (map (\<lambda>b. (TrainTask, step_id t, [b], None)) (batch_ids t))
            else if is_incremental step then
              ebind (lookup (step_id_preds g) (step_id t)) (\<lambda>ps.
                Inr ((TrainTask, step_id t, butlast (batch_ids t), None)
                     # map (\<lambda>q. (ApplyTask, q, last_slice (batch_ids t), None)) ps))
            else
              ebind (lookup (step_id_preds g) (step_id t)) (\<lambda>ps.
                Inr (concat (map (\<lambda>q. map (\<lambda>b. (ApplyTask, q, [b], None)) (batch_ids t)) ps))))
          = Inr ks"
      by (auto simp: fit_requests_def ebind_Inr_iff)
    then show ?thesis using pb tr
      by (auto simp: ebind_Inr_iff split: if_splits)
  next
    case ApplyTask
    then have s: "step_id t < int (length (steps_list p))"
      using ok by (simp add: fit_key_ok_def memo_key_def)
    then have tr: "\<forall>bs. fit_key_ok p (TrainTask, step_id t, bs, None)"
      by (simp add: fit_key_ok_def)
    show ?thesis using rq ApplyTask pb tr
      by (auto simp: fit_requests_def ebind_Inr_iff split: if_splits)
  next
    case MetricTask
    have "\<forall>bs. fit_key_ok p (ApplyTask, DUMMY_INPUT_STEP, bs, None)"
      by (simp add: fit_key_ok_def DUMMY_INPUT_STEP_def)
    moreover have "\<forall>k bs. get_last p = Some k \<longrightarrow> fit_key_ok p (ApplyTask, int k, bs, None)"
      using wf by (simp add: fit_key_ok_def wf_pipeline_def)
    ultimately show ?thesis using rq MetricTask
      by (auto simp: fit_requests_def split: if_splits option.splits)
  qed
qed

lemma create_tasks_fit_keys:
  assumes wf: "wf_pipeline p"
    and run: "create_tasks_fit p ids nm inc = Some (Inr tg)"
  shows "\<forall>c<length (objs tg). fit_key_ok p (memo_key (objs tg ! c))"
proof -
  let ?k1 = "map (\<lambda>s. (TrainTask, s, ids, None)) (py_range (int (length (steps_list p))))"
  let ?k2 = "if nm then map (\<lambda>b. (MetricTask, DUMMY_SCORE_STEP, [b], None)) ids else []"
  let ?g = "foldl seed (TaskGraph p) (?k1 @ ?k2)"
  have r: "fit_loop p ids inc ?g = Some (Inr tg)"
    using run unfolding create_tasks_fit_def Let_def by (cases nm) simp_all
  have seeds: "\<forall>k\<in>set (?k1 @ ?k2). fit_key_ok p k"
    by (auto simp: fit_key_ok_def py_range_def)
  have inv: "fit_inv p ids inc ?g"
    and keys: "\<forall>c<length (objs ?g). memo_key (objs ?g ! c) \<in> set (?k1 @ ?k2)"
    using fit_inv_seeds [of p ids inc "?k1 @ ?k2"] by blast+
  have k0: "\<forall>c<length (objs ?g). fit_key_ok p (memo_key (objs ?g ! c))"
    using keys seeds by blast
  show ?thesis
    by (rule fit_loop_keys [OF r inv k0]) (rule fit_key_ok_requests [OF wf])
qed

section \<open>Priority policies\<close>

text \<open>
  Claim C6. The claim says that under each policy any two distinct tasks of a graph get
  distinct priority tuples. The tuples do not contain the held-out fold, so in a
  cross-validation graph two tasks that differ only in their held-out fold can get the
  same tuple. Here, the tasks for step 0 and batch \<^verbatim>\<open>e0\<close> with held-out folds \<^verbatim>\<open>f\<close> and
  \<^verbatim>\<open>d\<close>, after the executor has initialised the statuses (both are WAITING): their
  tuples are equal under all three policies.
\<close>

theorem cross_val_priority_tie_counterexample:
  "memo_key (the_heap (start_run (the_graph
       (create_tasks_cross_val example_pipeline [''d'', ''e'', ''f''] 1 True False))) ! 13)
     = (ApplyTask, 0, [''e0''], Some ''f'') \<and>
   memo_key (the_heap (start_run (the_graph
       (create_tasks_cross_val example_pipeline [''d'', ''e'', ''f''] 1 True False))) ! 25)
     = (ApplyTask, 0, [''e0''], Some ''d'') \<and>
   list_all (\<lambda>pr.
       task_priority pr True
         (the_heap (start_run (the_graph
            (create_tasks_cross_val example_pipeline [''d'', ''e'', ''f''] 1 True False))))
         (the_heap (start_run (the_graph
            (create_tasks_cross_val example_pipeline [''d'', ''e'', ''f''] 1 True False))) ! 13)
       = task_priority pr True
         (the_heap (start_run (the_graph
            (create_tasks_cross_val example_pipeline [''d'', ''e'', ''f''] 1 True False))))
         (the_heap (start_run (the_graph
            (create_tasks_cross_val example_pipeline [''d'', ''e'', ''f''] 1 True False))) ! 25))
     [PrioStep, PrioBatch, PrioResourceAware] \<and>
   task_priority PrioStep True
         (the_heap (start_run (the_graph
            (create_tasks_cross_val example_pipeline [''d'', ''e'', ''f''] 1 True False))))
         (the_heap (start_run (the_graph
            (create_tasks_cross_val example_pipeline [''d'', ''e'', ''f''] 1 True False))) ! 13)
     = Inr [PNum 3, PNum 0, PNum 1, PStrs [''e0''], PNum 1]"
  by code_simp

lemma wf_example_pipeline: "wf_pipeline example_pipeline"
  by (simp add: wf_pipeline_def example_pipeline_def scaler_def classifier_def sys_maxsize_def)

section \<open>Spilling and loading a batch\<close>

lemma spill_Inr:
  assumes "spill heap b dir = Inr b'"
  shows "\<exists>nx ny fx fy. batch_X b = InMemory fx \<and> batch_y b = InMemory fy \<and>
           ((\<exists>c. fx = DataFrame c) \<or> fx = Ndarray) \<and> ((\<exists>u. fy = Series u) \<or> fy = Ndarray) \<and>
           b' = b\<lparr>batch_X := Path nx fx, batch_y := Path ny fy\<rparr>"
proof (cases "batch_X b")
  case X: (InMemory fx)
  show ?thesis
  proof (cases "batch_y b")
    case Y: (InMemory fy)
    show ?thesis using assms X Y
      by (cases fx; cases fy) (auto simp: spill_def ebind_Inr_iff Let_def)
  next
    case Y: (Path n f)
    show ?thesis using assms X Y
      by (cases fx) (auto simp: spill_def ebind_Inr_iff Let_def)
  qed
next
  case (Path n f)
  then show ?thesis using assms by (auto simp: spill_def ebind_Inr_iff Let_def)
qed

lemma spill_space: "spill heap b dir = Inr b' \<Longrightarrow> space b' = space b"
  using spill_Inr by fastforce

lemma load_spilled_Inr:
  assumes "load_spilled b = Inr b'"
  shows "\<exists>nx ny fx fy. batch_X b = Path nx fx \<and> batch_y b = Path ny fy \<and>
           b' = b\<lparr>batch_X := InMemory fx, batch_y := InMemory fy\<rparr>"
  using assms by (cases "batch_X b"; cases "batch_y b") (auto simp: load_spilled_def)

lemma load_spilled_space: "load_spilled b = Inr b' \<Longrightarrow> space b' = space b"
  using load_spilled_Inr by fastforce

text \<open>
  Claim C9. The space estimate of a batch is set by the constructor and by nothing else
  (spilling and loading keep it). It is the summed memory usage of the frame plus that of
  the label series exactly when the features are a pandas DataFrame and the labels a
  pandas Series. Every other batch gets the placeholder 1: not only Spark frames, as the
  claim and the comment in the constructor say, but also the in-memory numpy batches
  that \<^verbatim>\<open>status\<close>, \<^verbatim>\<open>spill\<close> and the FIT branch support.
\<close>

theorem batch_space_estimate:
  "space (Batch (DataFrame cols) (Series usage) t) = sum_list cols + usage \<and>
   space (Batch SparkDataFrame SparkDataFrame t) = 1 \<and>
   space (Batch Ndarray (Series usage) t) = 1 \<and>
   space (Batch Ndarray Ndarray t) = 1 \<and>
   batch_status True (Batch Ndarray (Series usage) t) = Inr RESIDENT \<and>
   (\<forall>heap b dir b'. spill heap b dir = Inr b' \<longrightarrow> space b' = space b) \<and>
   (\<forall>b b'. load_spilled b = Inr b' \<longrightarrow> space b' = space b)"
proof -
  have sp: "\<forall>heap b dir b'. spill heap b dir = Inr b' \<longrightarrow> space b' = space b"
    using spill_space by blast
  have ld: "\<forall>b b'. load_spilled b = Inr b' \<longrightarrow> space b' = space b"
    using load_spilled_space by blast
  have "space (Batch (DataFrame cols) (Series usage) t) = sum_list cols + usage"
    "space (Batch SparkDataFrame SparkDataFrame t) = 1"
    "space (Batch Ndarray (Series usage) t) = 1"
    "space (Batch Ndarray Ndarray t) = 1"
    "batch_status True (Batch Ndarray (Series usage) t) = Inr RESIDENT"
    by (simp_all add: Batch_def batch_status_def)
  then show ?thesis using sp ld by (intro conjI)
qed

theorem batch_space_estimate_witness:
  "space (Batch Ndarray (Series 800) (Some 3)) = 1 \<and>
   batch_status True (Batch Ndarray (Series 800) (Some 3)) = Inr RESIDENT \<and>
   load_spilled (Batch Ndarray Ndarray None\<lparr>batch_X := Path ''x'' Ndarray, batch_y := Path ''y'' Ndarray\<rparr>)
     = Inr (Batch Ndarray Ndarray None) \<and>
   space (Batch Ndarray Ndarray None)
     = space (Batch Ndarray Ndarray None\<lparr>batch_X := Path ''x'' Ndarray, batch_y := Path ''y'' Ndarray\<rparr>)"
proof -
  have l: "load_spilled (Batch Ndarray Ndarray None\<lparr>batch_X := Path ''x'' Ndarray, batch_y := Path ''y'' Ndarray\<rparr>)
     = Inr (Batch Ndarray Ndarray None)"
    by (simp add: load_spilled_def Batch_def)
  note th = batch_space_estimate [of "[]" 800 "Some 3"]
  have "space (Batch Ndarray Ndarray None)
     = space (Batch Ndarray Ndarray None\<lparr>batch_X := Path ''x'' Ndarray, batch_y := Path ''y'' Ndarray\<rparr>)"
    using th l by blast
  then show ?thesis using th l by (intro conjI) blast+
qed

section \<open>Well-formed batches\<close>

lemma batch_wf_cases:
  assumes "batch_wf b"
  obtains (mem) fx fy where "batch_X b = InMemory fx" "batch_y b = InMemory fy" "in_memory_ok fx fy"
    | (spilled) nx ny fx fy where "batch_X b = Path nx fx" "batch_y b = Path ny fy" "in_memory_ok fx fy"
  using assms by (cases "batch_X b"; cases "batch_y b") (auto simp: batch_wf_def)

lemma in_memory_ok_cases:
  assumes "in_memory_ok fx fy"
  obtains (pandas) c u where "fx = DataFrame c" "fy = Series u"
    | (mixed) u where "fx = Ndarray" "fy = Series u"
    | (numpy) "fx = Ndarray" "fy = Ndarray"
  using assms by (cases fx; cases fy) auto

lemma status_in_memory:
  "in_memory_ok fx fy \<Longrightarrow> batch_X b = InMemory fx \<Longrightarrow> batch_y b = InMemory fy \<Longrightarrow>
   batch_status True b = Inr RESIDENT"
  by (erule in_memory_ok_cases) (simp_all add: batch_status_def)

lemma status_spilled:
  "batch_X b = Path nx fx \<Longrightarrow> batch_y b = Path ny fy \<Longrightarrow> batch_status True b = Inr SPILLED"
  by (simp add: batch_status_def)

lemma batch_wf_status:
  "batch_wf b \<Longrightarrow> batch_status True b = Inr RESIDENT \<or> batch_status True b = Inr SPILLED"
  by (erule batch_wf_cases) (simp_all add: status_in_memory status_spilled)

lemma spill_wf:
  assumes wf: "batch_wf b" and res: "batch_status True b = Inr RESIDENT"
    and str: "batch_str heap b = Inr s"
  shows "\<exists>b'. spill heap b dir = Inr b' \<and> batch_wf b' \<and> batch_status True b' = Inr SPILLED \<and>
              batch_task b' = batch_task b \<and> space b' = space b"
  using wf
proof (cases rule: batch_wf_cases)
  case (mem fx fy)
  from mem(3) show ?thesis
  proof (cases rule: in_memory_ok_cases)
    case (pandas c u)
    then show ?thesis using mem str
      by (simp add: spill_def ebind_def Let_def batch_wf_def batch_status_def)
  next
    case (mixed u)
    then show ?thesis using mem str
      by (simp add: spill_def ebind_def Let_def batch_wf_def batch_status_def)
  next
    case numpy
    then show ?thesis using mem str
      by (simp add: spill_def ebind_def Let_def batch_wf_def batch_status_def)
  qed
next
  case (spilled nx ny fx fy)
  then show ?thesis using res by (simp add: status_spilled)
qed

lemma load_spilled_wf:
  assumes wf: "batch_wf b" and sp: "batch_status True b = Inr SPILLED"
  shows "\<exists>b'. load_spilled b = Inr b' \<and> batch_wf b' \<and> batch_status True b' = Inr RESIDENT \<and>
              batch_task b' = batch_task b \<and> space b' = space b"
  using wf
proof (cases rule: batch_wf_cases)
  case (mem fx fy)
  then show ?thesis using sp by (simp add: status_in_memory)
next
  case (spilled nx ny fx fy)
  let ?b' = "b\<lparr>batch_X := InMemory fx, batch_y := InMemory fy\<rparr>"
  have "load_spilled b = Inr ?b'" using spilled by (simp add: load_spilled_def)
  moreover have "batch_wf ?b'" using spilled by (simp add: batch_wf_def)
  moreover have "batch_status True ?b' = Inr RESIDENT"
    using spilled(3) by (intro status_in_memory [of fx fy]) simp_all
  ultimately show ?thesis by simp
qed

section \<open>The eviction loop\<close>

declare spill_loop.simps [simp del]

lemma spill_loop_stop:
  "\<not> rs + amount_needed > max_resident c \<Longrightarrow>
   spill_loop spark amount_needed ns L rs c heap = Inr (c, heap)"
  by (cases L) (simp_all add: spill_loop.simps)

lemma spill_loop_empty:
  "rs + amount_needed > max_resident c \<Longrightarrow>
   spill_loop spark amount_needed ns [] rs c heap
     = Inr (c\<lparr>warnings := warnings c @ [EnsureSpaceFailed]\<rparr>, heap)"
  by (simp add: spill_loop.simps)

lemma spill_loop_protected:
  "rs + amount_needed > max_resident c \<Longrightarrow> batch (heap ! a) = Some b \<Longrightarrow>
   batch_status spark b = Inr RESIDENT \<Longrightarrow> batch_task b = Some t \<Longrightarrow> a \<in> set ns \<Longrightarrow>
   batch_str heap b = Inr s \<Longrightarrow>
   spill_loop spark amount_needed ns (a # rest) rs c heap
     = spill_loop spark amount_needed ns rest rs
         (c\<lparr>warnings := warnings c @ [AbortedSpill s]\<rparr>) heap"
  by (simp add: spill_loop.simps ebind_def)

lemma spill_loop_spill:
  "rs + amount_needed > max_resident c \<Longrightarrow> batch (heap ! a) = Some b \<Longrightarrow>
   batch_status spark b = Inr RESIDENT \<Longrightarrow> batch_task b = Some t \<Longrightarrow> a \<notin> set ns \<Longrightarrow>
   spill_path c = Some dir \<Longrightarrow> spill heap b dir = Inr b' \<Longrightarrow>
   spill_loop spark amount_needed ns (a # rest) rs c heap
     = spill_loop spark amount_needed ns rest (rs - space b')
         (c\<lparr>stats := (stats c)\<lparr>spill_count := spill_count (stats c) + 1,
                spill_space := spill_space (stats c) + space b'\<rparr>\<rparr>)
         (heap[a := (heap ! a)\<lparr>batch := Some b'\<rparr>])"
  by (simp add: spill_loop.simps ebind_def)

lemma sum_list_change_one:
  fixes f g :: "nat \<Rightarrow> int"
  assumes "distinct xs" and "a \<in> set xs" and "\<forall>x\<in>set xs. x \<noteq> a \<longrightarrow> g x = f x"
  shows "sum_list (map g xs) = sum_list (map f xs) - f a + g a"
  using assms
proof (induction xs)
  case Nil
  then show ?case by simp
next
  case (Cons x xs)
  show ?case
  proof (cases "x = a")
    case True
    then have "a \<notin> set xs" using Cons.prems(1) by simp
    then have m: "map g xs = map f xs" using Cons.prems(3) by (intro map_cong) auto
    show ?thesis using True by (simp add: m)
  next
    case False
    then have "sum_list (map g xs) = sum_list (map f xs) - f a + g a"
      using Cons by simp
    then show ?thesis using False Cons.prems(3) by simp
  qed
qed

lemma resident_space_spill:
  assumes d: "distinct (map snd (cache_tasks c))" and a: "a \<in> set (map snd (cache_tasks c))"
    and al: "a < length heap" and cl: "cls (heap ! a) = ApplyTask"
    and b: "batch (heap ! a) = Some b" and r: "batch_status spark b = Inr RESIDENT"
    and s: "batch_status spark b' = Inr SPILLED"
  shows "resident_space spark c (heap[a := (heap ! a)\<lparr>batch := Some b'\<rparr>])
         = resident_space spark c heap - space b"
proof -
  let ?h = "heap[a := (heap ! a)\<lparr>batch := Some b'\<rparr>]"
  let ?f = "\<lambda>h x. case batch (h ! x) of None \<Rightarrow> 0
      | Some b \<Rightarrow> if cls (h ! x) = ApplyTask \<and> batch_status spark b = Inr RESIDENT
                  then space b else (0::int)"
  have oth: "\<forall>x\<in>set (map snd (cache_tasks c)). x \<noteq> a \<longrightarrow> ?f ?h x = ?f heap x"
  proof (intro ballI impI)
    fix x assume "x \<noteq> a"
    then have "?h ! x = heap ! x" by (metis nth_list_update_neq)
    then show "?f ?h x = ?f heap x" by (simp split: option.splits)
  qed
  have fa: "?f heap a = space b" using b cl r by simp
  have ga: "?f ?h a = 0" using al s by simp
  show ?thesis
    unfolding resident_space_def
    using sum_list_change_one [OF d a oth] fa ga by simp
qed

lemma resident_space_cong:
  "cache_tasks c' = cache_tasks c \<Longrightarrow> resident_space spark c' heap = resident_space spark c heap"
  by (simp add: resident_space_def)

lemma only_batches_changed_refl: "only_batches_changed heap heap"
  by (simp add: only_batches_changed_def)

lemma only_batches_changed_trans:
  "only_batches_changed h1 h2 \<Longrightarrow> only_batches_changed h2 h3 \<Longrightarrow> only_batches_changed h1 h3"
  unfolding only_batches_changed_def
proof (intro conjI allI impI)
  assume a: "length h2 = length h1 \<and> (\<forall>a<length h1. (h2 ! a)\<lparr>batch := batch (h1 ! a)\<rparr> = h1 ! a)"
    and b: "length h3 = length h2 \<and> (\<forall>a<length h2. (h3 ! a)\<lparr>batch := batch (h2 ! a)\<rparr> = h2 ! a)"
  show "length h3 = length h1" using a b by simp
  fix x assume x: "x < length h1"
  have 1: "(h2 ! x)\<lparr>batch := batch (h1 ! x)\<rparr> = h1 ! x" using a x by simp
  have 2: "(h3 ! x)\<lparr>batch := batch (h2 ! x)\<rparr> = h2 ! x" using a b x by simp
  have "(h3 ! x)\<lparr>batch := batch (h1 ! x)\<rparr> = ((h3 ! x)\<lparr>batch := batch (h2 ! x)\<rparr>)\<lparr>batch := batch (h1 ! x)\<rparr>"
    by simp
  then show "(h3 ! x)\<lparr>batch := batch (h1 ! x)\<rparr> = h1 ! x" using 1 2 by simp
qed

lemma only_batches_changed_update:
  "a < length heap \<Longrightarrow> only_batches_changed heap (heap[a := (heap ! a)\<lparr>batch := x\<rparr>])"
  by (simp add: only_batches_changed_def nth_update_if)

lemma only_batches_changed_fields:
  assumes "only_batches_changed heap heap'" and "a < length heap"
  shows "preds (heap' ! a) = preds (heap ! a)" and "succs (heap' ! a) = succs (heap ! a)"
    and "cls (heap' ! a) = cls (heap ! a)" and "batch_ids (heap' ! a) = batch_ids (heap ! a)"
    and "status (heap' ! a) = status (heap ! a)" and "step_id (heap' ! a) = step_id (heap ! a)"
    and "held_out (heap' ! a) = held_out (heap ! a)"
proof -
  have e: "(heap' ! a)\<lparr>batch := batch (heap ! a)\<rparr> = heap ! a"
    using assms by (simp add: only_batches_changed_def)
  show "preds (heap' ! a) = preds (heap ! a)" using arg_cong [OF e, of preds] by simp
  show "succs (heap' ! a) = succs (heap ! a)" using arg_cong [OF e, of succs] by simp
  show "cls (heap' ! a) = cls (heap ! a)" using arg_cong [OF e, of cls] by simp
  show "batch_ids (heap' ! a) = batch_ids (heap ! a)" using arg_cong [OF e, of batch_ids] by simp
  show "status (heap' ! a) = status (heap ! a)" using arg_cong [OF e, of status] by simp
  show "step_id (heap' ! a) = step_id (heap ! a)" using arg_cong [OF e, of step_id] by simp
  show "held_out (heap' ! a) = held_out (heap ! a)" using arg_cong [OF e, of held_out] by simp
qed

lemma ensured_same:
  assumes "cache_ok c heap" and "cache_tasks c' = cache_tasks c" and "max_resident c' = max_resident c"
    and "spill_path c' = spill_path c" and "cache_prio c' = cache_prio c"
    and "resident_space True c heap + amount \<le> max_resident c \<or>
         (warnings c' \<noteq> [] \<and> last (warnings c') = EnsureSpaceFailed \<and> L = [])"
  shows "ensured amount ns L c heap c' heap"
proof -
  have ok: "cache_ok c' heap" using assms(1,2) by (simp add: cache_ok_def)
  have rs: "resident_space True c' heap = resident_space True c heap"
    using assms(2) by (rule resident_space_cong)
  have keep: "\<forall>a<length heap.
        case batch (heap ! a) of
          None \<Rightarrow> batch (heap ! a) = None
        | Some b \<Rightarrow> (\<exists>b'. batch (heap ! a) = Some b' \<and> space b' = space b \<and>
                         (batch_status True b = Inr SPILLED \<longrightarrow> b' = b))"
    by (simp split: option.splits)
  have fin: "resident_space True c' heap + amount \<le> max_resident c' \<or>
      (warnings c' \<noteq> [] \<and> last (warnings c') = EnsureSpaceFailed \<and>
       (\<forall>a\<in>set L. a \<notin> set ns \<longrightarrow>
          (\<exists>b. batch (heap ! a) = Some b \<and> batch_status True b = Inr SPILLED)))"
  proof (cases "resident_space True c heap + amount \<le> max_resident c")
    case True
    then show ?thesis using assms(3) rs by simp
  next
    case False
    then have "warnings c' \<noteq> [] \<and> last (warnings c') = EnsureSpaceFailed \<and> L = []"
      using assms(6) by blast
    then show ?thesis by simp
  qed
  have same: "\<forall>a<length heap. a \<in> set ns \<or> a \<notin> set L \<longrightarrow> heap ! a = heap ! a"
    by simp
  show ?thesis
    unfolding ensured_def
    by (intro conjI) (fact ok only_batches_changed_refl assms(2-5) keep fin same)+
qed

lemma heap_ok_batch:
  assumes "heap_ok heap" and "a < length heap" and "batch (heap ! a) = Some b"
  shows "batch_wf b" and "batch_task b = Some a" and "cls (heap ! a) = ApplyTask"
    and "length (batch_ids (heap ! a)) = 1"
proof -
  have "\<forall>b. batch (heap ! a) = Some b \<longrightarrow>
           batch_wf b \<and> batch_task b = Some a \<and> cls (heap ! a) = ApplyTask \<and>
           length (batch_ids (heap ! a)) = 1"
    using assms(1,2) unfolding heap_ok_def by blast
  then have "batch_wf b \<and> batch_task b = Some a \<and> cls (heap ! a) = ApplyTask \<and>
           length (batch_ids (heap ! a)) = 1"
    using assms(3) by blast
  then show "batch_wf b" and "batch_task b = Some a" and "cls (heap ! a) = ApplyTask"
    and "length (batch_ids (heap ! a)) = 1" by blast+
qed

lemma heap_ok_refs:
  assumes "heap_ok heap" and "a < length heap"
  shows "\<forall>q\<in>set (preds (heap ! a)). q < length heap"
    and "\<forall>s\<in>set (succs (heap ! a)). s < length heap"
  using assms unfolding heap_ok_def by blast+

lemma batch_str_ok:
  assumes "heap_ok heap" and "a < length heap" and "batch (heap ! a) = Some b"
  shows "\<exists>s. batch_str heap b = Inr s"
  using heap_ok_batch [OF assms] by (simp add: batch_str_def)

lemma heap_ok_update_batch:
  assumes ok: "heap_ok heap" and a: "a < length heap"
    and wf: "batch_wf b'" and t: "batch_task b' = Some a" and had: "batch (heap ! a) = Some b"
  shows "heap_ok (heap[a := (heap ! a)\<lparr>batch := Some b'\<rparr>])"
  unfolding heap_ok_def
proof (intro allI impI conjI ballI)
  let ?h = "heap[a := (heap ! a)\<lparr>batch := Some b'\<rparr>]"
  fix x assume x: "x < length ?h"
  then have xl: "x < length heap" by simp
  have p: "preds (?h ! x) = preds (heap ! x)" and s: "succs (?h ! x) = succs (heap ! x)"
    and c: "cls (?h ! x) = cls (heap ! x)" and bi: "batch_ids (?h ! x) = batch_ids (heap ! x)"
    using xl by (simp_all add: nth_update_if)
  { fix q assume "q \<in> set (preds (?h ! x))"
    then show "q < length ?h" using heap_ok_refs(1) [OF ok xl] p by simp }
  { fix q assume "q \<in> set (succs (?h ! x))"
    then show "q < length ?h" using heap_ok_refs(2) [OF ok xl] s by simp }
  fix bb assume bb: "batch (?h ! x) = Some bb"
  have 1: "batch_wf bb \<and> batch_task bb = Some x"
  proof (cases "x = a")
    case True
    then show ?thesis using bb wf t a by simp
  next
    case False
    then have "batch (heap ! x) = Some bb" using bb by simp
    then show ?thesis using heap_ok_batch [OF ok xl] by simp
  qed
  have 2: "batch (heap ! x) \<noteq> None" using bb had by (cases "x = a") auto
  show "batch_wf bb" using 1 by simp
  show "batch_task bb = Some x" using 1 by simp
  show "cls (?h ! x) = ApplyTask" using c 2 heap_ok_batch(3) [OF ok xl] by auto
  show "length (batch_ids (?h ! x)) = 1" using bi 2 heap_ok_batch(4) [OF ok xl] by auto
qed

lemma ensuredD:
  assumes "ensured amount ns L c heap c' heap'"
  shows "cache_ok c' heap'" and "only_batches_changed heap heap'"
    and "cache_tasks c' = cache_tasks c" and "max_resident c' = max_resident c"
    and "spill_path c' = spill_path c" and "cache_prio c' = cache_prio c"
    and "\<And>a. a < length heap \<Longrightarrow> a \<in> set ns \<or> a \<notin> set L \<Longrightarrow> heap' ! a = heap ! a"
    and "\<And>a. a < length heap \<Longrightarrow> batch (heap ! a) = None \<Longrightarrow> batch (heap' ! a) = None"
    and "\<And>a b. a < length heap \<Longrightarrow> batch (heap ! a) = Some b \<Longrightarrow>
           \<exists>b'. batch (heap' ! a) = Some b' \<and> space b' = space b \<and>
                (batch_status True b = Inr SPILLED \<longrightarrow> b' = b)"
    and "resident_space True c' heap' + amount \<le> max_resident c' \<or>
         (warnings c' \<noteq> [] \<and> last (warnings c') = EnsureSpaceFailed \<and>
          (\<forall>a\<in>set L. a \<notin> set ns \<longrightarrow>
             (\<exists>b. batch (heap' ! a) = Some b \<and> batch_status True b = Inr SPILLED)))"
proof -
  note e = assms [unfolded ensured_def]
  show "cache_ok c' heap'" using e by (elim conjE)
  show "only_batches_changed heap heap'" using e by (elim conjE)
  show "cache_tasks c' = cache_tasks c" using e by (elim conjE)
  show "max_resident c' = max_resident c" using e by (elim conjE)
  show "spill_path c' = spill_path c" using e by (elim conjE)
  show "cache_prio c' = cache_prio c" using e by (elim conjE)
  have s: "\<forall>a<length heap. a \<in> set ns \<or> a \<notin> set L \<longrightarrow> heap' ! a = heap ! a"
    using e by (elim conjE)
  show "\<And>a. a < length heap \<Longrightarrow> a \<in> set ns \<or> a \<notin> set L \<Longrightarrow> heap' ! a = heap ! a"
    using s by blast
  have k: "\<forall>a<length heap.
        case batch (heap ! a) of
          None \<Rightarrow> batch (heap' ! a) = None
        | Some b \<Rightarrow> (\<exists>b'. batch (heap' ! a) = Some b' \<and> space b' = space b \<and>
                         (batch_status True b = Inr SPILLED \<longrightarrow> b' = b))"
    using e by (elim conjE)
  { fix a assume "a < length heap" and n: "batch (heap ! a) = None"
    then have "case batch (heap ! a) of
          None \<Rightarrow> batch (heap' ! a) = None
        | Some b \<Rightarrow> (\<exists>b'. batch (heap' ! a) = Some b' \<and> space b' = space b \<and>
                         (batch_status True b = Inr SPILLED \<longrightarrow> b' = b))" using k by blast
    then show "batch (heap' ! a) = None" by (simp add: n) }
  { fix a b assume "a < length heap" and n: "batch (heap ! a) = Some b"
    then have "case batch (heap ! a) of
          None \<Rightarrow> batch (heap' ! a) = None
        | Some b \<Rightarrow> (\<exists>b'. batch (heap' ! a) = Some b' \<and> space b' = space b \<and>
                         (batch_status True b = Inr SPILLED \<longrightarrow> b' = b))" using k by blast
    then show "\<exists>b'. batch (heap' ! a) = Some b' \<and> space b' = space b \<and>
                (batch_status True b = Inr SPILLED \<longrightarrow> b' = b)" by (simp add: n) }
  show "resident_space True c' heap' + amount \<le> max_resident c' \<or>
         (warnings c' \<noteq> [] \<and> last (warnings c') = EnsureSpaceFailed \<and>
          (\<forall>a\<in>set L. a \<notin> set ns \<longrightarrow>
             (\<exists>b. batch (heap' ! a) = Some b \<and> batch_status True b = Inr SPILLED)))"
    using e by (elim conjE)
qed

lemma ensuredI:
  assumes "cache_ok c' heap'" and "only_batches_changed heap heap'"
    and "cache_tasks c' = cache_tasks c" and "max_resident c' = max_resident c"
    and "spill_path c' = spill_path c" and "cache_prio c' = cache_prio c"
    and "\<And>a. a < length heap \<Longrightarrow> a \<in> set ns \<or> a \<notin> set L \<Longrightarrow> heap' ! a = heap ! a"
    and "\<And>a. a < length heap \<Longrightarrow> batch (heap ! a) = None \<Longrightarrow> batch (heap' ! a) = None"
    and "\<And>a b. a < length heap \<Longrightarrow> batch (heap ! a) = Some b \<Longrightarrow>
           \<exists>b'. batch (heap' ! a) = Some b' \<and> space b' = space b \<and>
                (batch_status True b = Inr SPILLED \<longrightarrow> b' = b)"
    and "resident_space True c' heap' + amount \<le> max_resident c' \<or>
         (warnings c' \<noteq> [] \<and> last (warnings c') = EnsureSpaceFailed \<and>
          (\<forall>a\<in>set L. a \<notin> set ns \<longrightarrow>
             (\<exists>b. batch (heap' ! a) = Some b \<and> batch_status True b = Inr SPILLED)))"
  shows "ensured amount ns L c heap c' heap'"
proof -
  have s: "\<forall>a<length heap. a \<in> set ns \<or> a \<notin> set L \<longrightarrow> heap' ! a = heap ! a"
    using assms(7) by blast
  have k: "\<forall>a<length heap.
        case batch (heap ! a) of
          None \<Rightarrow> batch (heap' ! a) = None
        | Some b \<Rightarrow> (\<exists>b'. batch (heap' ! a) = Some b' \<and> space b' = space b \<and>
                         (batch_status True b = Inr SPILLED \<longrightarrow> b' = b))"
  proof (intro allI impI)
    fix a assume a: "a < length heap"
    show "case batch (heap ! a) of
          None \<Rightarrow> batch (heap' ! a) = None
        | Some b \<Rightarrow> (\<exists>b'. batch (heap' ! a) = Some b' \<and> space b' = space b \<and>
                         (batch_status True b = Inr SPILLED \<longrightarrow> b' = b))"
    proof (cases "batch (heap ! a)")
      case None
      then show ?thesis using assms(8) [OF a] by simp
    next
      case (Some b)
      then show ?thesis using assms(9) [OF a Some] by simp
    qed
  qed
  show ?thesis
    unfolding ensured_def
    by (intro conjI) (fact assms(1-6) s k assms(10))+
qed

lemma ensured_step:
  assumes e: "ensured amount ns rest c1 heap1 c' heap'"
    and obc: "only_batches_changed heap heap1"
    and f: "cache_tasks c1 = cache_tasks c" "max_resident c1 = max_resident c"
           "spill_path c1 = spill_path c" "cache_prio c1 = cache_prio c"
    and oth: "\<And>x. x < length heap \<Longrightarrow> x \<noteq> a \<Longrightarrow> heap1 ! x = heap ! x"
    and ar: "a \<notin> set rest" and al: "a < length heap"
    and prot: "a \<in> set ns \<Longrightarrow> heap1 ! a = heap ! a"
    and had: "batch (heap ! a) = Some b"
    and now: "batch (heap1 ! a) = Some b1" "space b1 = space b"
             "batch_status True b = Inr SPILLED \<Longrightarrow> b1 = b"
    and sp: "a \<notin> set ns \<Longrightarrow> batch_status True b1 = Inr SPILLED"
  shows "ensured amount ns (a # rest) c heap c' heap'"
proof (rule ensuredI)
  note d = ensuredD [OF e]
  have len: "length heap1 = length heap" using obc by (simp add: only_batches_changed_def)
  have a1: "heap' ! a = heap1 ! a" using d(7) [of a] ar al len by simp
  show "cache_ok c' heap'" by (rule d(1))
  show "only_batches_changed heap heap'" using obc d(2) by (rule only_batches_changed_trans)
  show "cache_tasks c' = cache_tasks c" using d(3) f(1) by simp
  show "max_resident c' = max_resident c" using d(4) f(2) by simp
  show "spill_path c' = spill_path c" using d(5) f(3) by simp
  show "cache_prio c' = cache_prio c" using d(6) f(4) by simp
  show "heap' ! x = heap ! x" if x: "x < length heap" and h: "x \<in> set ns \<or> x \<notin> set (a # rest)" for x
  proof (cases "x = a")
    case True
    then have "x \<in> set ns" using h by simp
    then show ?thesis using True a1 prot by simp
  next
    case False
    have "x \<in> set ns \<or> x \<notin> set rest" using h by auto
    then have "heap' ! x = heap1 ! x" using d(7) [of x] x len by simp
    then show ?thesis using oth [OF x False] by simp
  qed
  show "batch (heap' ! x) = None" if x: "x < length heap" and n: "batch (heap ! x) = None" for x
  proof -
    have "x \<noteq> a" using n had by auto
    then have "heap1 ! x = heap ! x" using oth x by simp
    then show ?thesis using d(8) [of x] x len n by simp
  qed
  show "\<exists>b'. batch (heap' ! x) = Some b' \<and> space b' = space bb \<and>
                (batch_status True bb = Inr SPILLED \<longrightarrow> b' = bb)"
    if x: "x < length heap" and n: "batch (heap ! x) = Some bb" for x bb
  proof (cases "x = a")
    case True
    then have "bb = b" using n had by simp
    then show ?thesis using True a1 now by simp
  next
    case False
    then have "heap1 ! x = heap ! x" using oth x by simp
    then show ?thesis using d(9) [of x bb] x len n by simp
  qed
  show "resident_space True c' heap' + amount \<le> max_resident c' \<or>
         (warnings c' \<noteq> [] \<and> last (warnings c') = EnsureSpaceFailed \<and>
          (\<forall>x\<in>set (a # rest). x \<notin> set ns \<longrightarrow>
             (\<exists>b. batch (heap' ! x) = Some b \<and> batch_status True b = Inr SPILLED)))"
  proof (cases "resident_space True c' heap' + amount \<le> max_resident c'")
    case True
    then show ?thesis by (rule disjI1)
  next
    case False
    then have w: "warnings c' \<noteq> [] \<and> last (warnings c') = EnsureSpaceFailed \<and>
          (\<forall>x\<in>set rest. x \<notin> set ns \<longrightarrow>
             (\<exists>b. batch (heap' ! x) = Some b \<and> batch_status True b = Inr SPILLED))"
      using d(10) by blast
    have "\<forall>x\<in>set (a # rest). x \<notin> set ns \<longrightarrow>
             (\<exists>b. batch (heap' ! x) = Some b \<and> batch_status True b = Inr SPILLED)"
    proof (intro ballI impI)
      fix x assume x: "x \<in> set (a # rest)" and xn: "x \<notin> set ns"
      show "\<exists>b. batch (heap' ! x) = Some b \<and> batch_status True b = Inr SPILLED"
      proof (cases "x = a")
        case True
        then show ?thesis using a1 now(1) sp xn by simp
      next
        case False
        then have "x \<in> set rest" using x by simp
        then show ?thesis using w xn by blast
      qed
    qed
    then show ?thesis using w by blast
  qed
qed

lemma cache_ok_cong:
  "cache_ok c heap \<Longrightarrow> cache_tasks c' = cache_tasks c \<Longrightarrow> cache_ok c' heap"
  by (simp add: cache_ok_def)

lemma cache_ok_bound:
  "cache_ok c heap \<Longrightarrow> a \<in> set (map snd (cache_tasks c)) \<Longrightarrow> a < length heap"
  unfolding cache_ok_def by blast

lemma cache_ok_update_batch:
  assumes ok: "cache_ok c heap" and a: "a < length heap"
    and wf: "batch_wf b'" and t: "batch_task b' = Some a" and had: "batch (heap ! a) = Some b"
    and ct: "cache_tasks c' = cache_tasks c"
  shows "cache_ok c' (heap[a := (heap ! a)\<lparr>batch := Some b'\<rparr>])"
proof -
  have h: "heap_ok heap" and d: "distinct (map snd (cache_tasks c))"
    and bd: "\<forall>a\<in>set (map snd (cache_tasks c)). a < length heap"
    using ok unfolding cache_ok_def by blast+
  have "heap_ok (heap[a := (heap ! a)\<lparr>batch := Some b'\<rparr>])"
    using h a wf t had by (rule heap_ok_update_batch)
  then show ?thesis unfolding cache_ok_def using d bd ct by simp
qed

lemma spill_loop_ok:
  assumes "cache_ok c heap" and "distinct L" and "set L \<subseteq> set (map snd (cache_tasks c))"
    and "\<forall>a\<in>set L. \<exists>b. batch (heap ! a) = Some b \<and> batch_status True b = Inr RESIDENT"
    and "spill_path c = None \<longrightarrow> rs + amount \<le> max_resident c"
    and "rs = resident_space True c heap"
  shows "\<exists>c' heap'. spill_loop True amount ns L rs c heap = Inr (c', heap') \<and>
           ensured amount ns L c heap c' heap'"
  using assms
proof (induction L arbitrary: rs c heap)
  case Nil
  show ?case
  proof (cases "rs + amount > max_resident c")
    case True
    let ?c = "c\<lparr>warnings := warnings c @ [EnsureSpaceFailed]\<rparr>"
    have "spill_loop True amount ns [] rs c heap = Inr (?c, heap)"
      using True by (rule spill_loop_empty)
    moreover have "ensured amount ns [] c heap ?c heap"
      using Nil.prems(1) by (rule ensured_same) simp_all
    ultimately show ?thesis by blast
  next
    case False
    have "spill_loop True amount ns [] rs c heap = Inr (c, heap)"
      using False by (rule spill_loop_stop)
    moreover have "ensured amount ns [] c heap c heap"
      using Nil.prems(1) by (rule ensured_same) (use False Nil.prems(6) in simp_all)
    ultimately show ?thesis by blast
  qed
next
  case (Cons a rest)
  note ok = Cons.prems(1)
  have hok: "heap_ok heap" and dist: "distinct (map snd (cache_tasks c))"
    using ok unfolding cache_ok_def by blast+
  have ain: "a \<in> set (map snd (cache_tasks c))" using Cons.prems(3) by simp
  have al: "a < length heap" using ok ain by (rule cache_ok_bound)
  have ar: "a \<notin> set rest" and dr: "distinct rest" using Cons.prems(2) by simp_all
  have sub: "set rest \<subseteq> set (map snd (cache_tasks c))" using Cons.prems(3) by simp
  show ?case
  proof (cases "rs + amount > max_resident c")
    case False
    have "spill_loop True amount ns (a # rest) rs c heap = Inr (c, heap)"
      using False by (rule spill_loop_stop)
    moreover have "ensured amount ns (a # rest) c heap c heap"
      using ok by (rule ensured_same) (use False Cons.prems(6) in simp_all)
    ultimately show ?thesis by blast
  next
    case over: True
    obtain b where b: "batch (heap ! a) = Some b" and res: "batch_status True b = Inr RESIDENT"
      using Cons.prems(4) by auto
    note hb = heap_ok_batch [OF hok al b]
    obtain s where s: "batch_str heap b = Inr s" using batch_str_ok [OF hok al b] by blast
    show ?thesis
    proof (cases "a \<in> set ns")
      case True
      let ?c1 = "c\<lparr>warnings := warnings c @ [AbortedSpill s]\<rparr>"
      have eq: "spill_loop True amount ns (a # rest) rs c heap
                = spill_loop True amount ns rest rs ?c1 heap"
        using over b res hb(2) True s by (rule spill_loop_protected)
      have ok1: "cache_ok ?c1 heap" using ok by (rule cache_ok_cong) simp
      have r1: "\<forall>x\<in>set rest. \<exists>b. batch (heap ! x) = Some b \<and> batch_status True b = Inr RESIDENT"
        using Cons.prems(4) by simp
      have sp1: "spill_path ?c1 = None \<longrightarrow> rs + amount \<le> max_resident ?c1"
        using Cons.prems(5) by simp
      have rs1: "rs = resident_space True ?c1 heap"
        using Cons.prems(6) by (simp add: resident_space_def)
      have sub1: "set rest \<subseteq> set (map snd (cache_tasks ?c1))" using sub by simp
      obtain c' heap' where run: "spill_loop True amount ns rest rs ?c1 heap = Inr (c', heap')"
        and en: "ensured amount ns rest ?c1 heap c' heap'"
        using Cons.IH [OF ok1 dr sub1 r1 sp1 rs1] by blast
      have "ensured amount ns (a # rest) c heap c' heap'"
        using en only_batches_changed_refl
      proof (rule ensured_step)
        show "batch (heap ! a) = Some b" by (rule b)
        show "batch (heap ! a) = Some b" by (rule b)
        show "a \<notin> set rest" by (rule ar)
        show "a < length heap" by (rule al)
        show "a \<notin> set ns \<Longrightarrow> batch_status True b = Inr SPILLED" using True by simp
      qed simp_all
      then show ?thesis using eq run by simp
    next
      case False
      obtain dir where dir: "spill_path c = Some dir" using Cons.prems(5) over by auto
      obtain b' where sp: "spill heap b dir = Inr b'" and wf': "batch_wf b'"
        and st': "batch_status True b' = Inr SPILLED" and t': "batch_task b' = batch_task b"
        and spc: "space b' = space b"
        using spill_wf [OF hb(1) res s, of dir] by blast
      let ?c1 = "c\<lparr>stats := (stats c)\<lparr>spill_count := spill_count (stats c) + 1,
                spill_space := spill_space (stats c) + space b'\<rparr>\<rparr>"
      let ?h1 = "heap[a := (heap ! a)\<lparr>batch := Some b'\<rparr>]"
      have eq: "spill_loop True amount ns (a # rest) rs c heap
                = spill_loop True amount ns rest (rs - space b') ?c1 ?h1"
        using over b res hb(2) False dir sp by (rule spill_loop_spill)
      have t'': "batch_task b' = Some a" using t' hb(2) by simp
      have ok1: "cache_ok ?c1 ?h1" using ok al wf' t'' b by (rule cache_ok_update_batch) simp
      have oth: "?h1 ! x = heap ! x" if "x \<noteq> a" for x using that by simp
      have r1: "\<forall>x\<in>set rest. \<exists>b. batch (?h1 ! x) = Some b \<and> batch_status True b = Inr RESIDENT"
      proof
        fix x assume x: "x \<in> set rest"
        then have "x \<noteq> a" using ar by auto
        then have "?h1 ! x = heap ! x" by (rule oth)
        then show "\<exists>b. batch (?h1 ! x) = Some b \<and> batch_status True b = Inr RESIDENT"
          using Cons.prems(4) x by simp
      qed
      have sp1: "spill_path ?c1 = None \<longrightarrow> rs - space b' + amount \<le> max_resident ?c1"
        using dir by simp
      have "resident_space True c ?h1 = resident_space True c heap - space b"
        using dist ain al hb(3) b res st' by (rule resident_space_spill)
      then have rs1: "rs - space b' = resident_space True ?c1 ?h1"
        using Cons.prems(6) spc by (simp add: resident_space_def)
      have sub1: "set rest \<subseteq> set (map snd (cache_tasks ?c1))" using sub by simp
      obtain c' heap' where run: "spill_loop True amount ns rest (rs - space b') ?c1 ?h1 = Inr (c', heap')"
        and en: "ensured amount ns rest ?c1 ?h1 c' heap'"
        using Cons.IH [OF ok1 dr sub1 r1 sp1 rs1] by blast
      have h1a: "batch (?h1 ! a) = Some b'" using al by simp
      have "ensured amount ns (a # rest) c heap c' heap'"
        using en only_batches_changed_update [OF al]
      proof (rule ensured_step)
        show "batch (heap ! a) = Some b" by (rule b)
        show "batch (?h1 ! a) = Some b'" by (rule h1a)
        show "a \<notin> set rest" by (rule ar)
        show "a < length heap" by (rule al)
        show "space b' = space b" by (rule spc)
        show "batch_status True b' = Inr SPILLED" by (rule st')
        show "batch_status True b = Inr SPILLED \<Longrightarrow> b' = b" using res by simp
        show "a \<in> set ns \<Longrightarrow> ?h1 ! a = heap ! a" using False by simp
        show "\<And>x. x \<noteq> a \<Longrightarrow> ?h1 ! x = heap ! x" by (rule oth)
      qed simp_all
      then show ?thesis using eq run by simp
    qed
  qed
qed

section \<open>Totality of the parts of ensure_space\<close>

lemma emap_total: "(\<And>x. x \<in> set xs \<Longrightarrow> f x = Inr (g x)) \<Longrightarrow> emap f xs = Inr (map g xs)"
  by (induction xs) (simp_all add: ebind_def)

lemma emap_ex:
  "(\<And>x. x \<in> set xs \<Longrightarrow> \<exists>y. f x = Inr y) \<Longrightarrow> \<exists>ys. emap f xs = Inr ys \<and> length ys = length xs"
proof (induction xs)
  case Nil
  then show ?case by simp
next
  case (Cons x xs)
  obtain y where y: "f x = Inr y" using Cons.prems [of x] by auto
  obtain ys where ys: "emap f xs = Inr ys" "length ys = length xs"
    using Cons.IH Cons.prems by auto
  show ?case using y ys by (simp add: ebind_def)
qed

lemma filter_by_zip: "map fst (filter snd (zip xs (map g xs))) = filter g xs"
  by (induction xs) simp_all

lemma resident_batches_ok:
  assumes ok: "cache_ok c heap"
  shows "resident_batches True c heap = Inr (filter (is_resident heap) (map snd (cache_tasks c)))"
proof -
  have hok: "heap_ok heap" using ok unfolding cache_ok_def by blast
  let ?f = "\<lambda>a. if cls (heap ! a) = ApplyTask
              then (case batch (heap ! a) of
                      None \<Rightarrow> Inr False
                    | Some b \<Rightarrow> ebind (batch_status True b) (\<lambda>st. Inr (st = RESIDENT)))
              else Inr False"
  have "?f a = Inr (is_resident heap a)" if "a \<in> set (map snd (cache_tasks c))" for a
  proof (cases "batch (heap ! a)")
    case None
    then show ?thesis by (simp add: is_resident_def)
  next
    case (Some b)
    have al: "a < length heap" using ok that by (rule cache_ok_bound)
    have "batch_wf b" using hok al Some by (rule heap_ok_batch)
    then have "batch_status True b = Inr RESIDENT \<or> batch_status True b = Inr SPILLED"
      by (rule batch_wf_status)
    then show ?thesis using Some by (auto simp: is_resident_def ebind_def)
  qed
  then have "emap ?f (map snd (cache_tasks c))
             = Inr (map (is_resident heap) (map snd (cache_tasks c)))"
    by (rule emap_total)
  then have "resident_batches True c heap
             = Inr (map fst (filter snd (zip (map snd (cache_tasks c))
                      (map (is_resident heap) (map snd (cache_tasks c))))))"
    unfolding resident_batches_def by (simp add: ebind_def del: map_map)
  then show ?thesis unfolding filter_by_zip .
qed

lemma sum_spaces_ok:
  assumes "\<forall>a\<in>set xs. \<exists>b. batch (heap ! a) = Some b"
  shows "sum_spaces heap xs = Inr (sum_list (map (\<lambda>a. case batch (heap ! a) of None \<Rightarrow> 0 | Some b \<Rightarrow> space b) xs))"
proof -
  have "batch_space heap a = Inr (case batch (heap ! a) of None \<Rightarrow> 0 | Some b \<Rightarrow> space b)"
    if "a \<in> set xs" for a
    using assms that by (auto simp: batch_space_def)
  then have "emap (batch_space heap) xs
       = Inr (map (\<lambda>a. case batch (heap ! a) of None \<Rightarrow> 0 | Some b \<Rightarrow> space b) xs)"
    by (rule emap_total)
  then show ?thesis by (simp add: sum_spaces_def ebind_def)
qed

lemma sum_list_filter_if:
  fixes h :: "'a \<Rightarrow> int"
  shows "sum_list (map h (filter g xs)) = sum_list (map (\<lambda>a. if g a then h a else 0) xs)"
  by (induction xs) simp_all

lemma sum_spaces_residents:
  "sum_spaces heap (filter (is_resident heap) (map snd (cache_tasks c)))
   = Inr (resident_space True c heap)"
proof -
  let ?xs = "map snd (cache_tasks c)"
  let ?h = "\<lambda>a. case batch (heap ! a) of None \<Rightarrow> 0 | Some b \<Rightarrow> space b"
  have 1: "sum_spaces heap (filter (is_resident heap) ?xs)
           = Inr (sum_list (map ?h (filter (is_resident heap) ?xs)))"
    by (rule sum_spaces_ok) (auto simp: is_resident_def)
  have 2: "(if is_resident heap a then ?h a else 0)
           = (case batch (heap ! a) of None \<Rightarrow> 0
              | Some b \<Rightarrow> if cls (heap ! a) = ApplyTask \<and> batch_status True b = Inr RESIDENT
                          then space b else 0)" for a
    by (cases "batch (heap ! a)") (simp_all add: is_resident_def)
  show ?thesis
    unfolding 1 resident_space_def sum_list_filter_if 2 ..
qed

lemma non_resident_space_ok:
  assumes "heap_ok heap"
  shows "\<forall>q\<in>set qs. q < length heap \<Longrightarrow> \<exists>r. non_resident_space True heap qs = Inr r"
proof (induction qs)
  case Nil
  then show ?case by simp
next
  case (Cons q qs)
  obtain r where r: "non_resident_space True heap qs = Inr r" using Cons by auto
  have ql: "q < length heap" using Cons.prems by simp
  show ?case
  proof (cases "batch (heap ! q)")
    case None
    then show ?thesis using r by simp
  next
    case (Some b)
    have "batch_wf b" using assms ql Some by (rule heap_ok_batch)
    then have "batch_status True b = Inr RESIDENT \<or> batch_status True b = Inr SPILLED"
      by (rule batch_wf_status)
    then show ?thesis using Some r by (auto simp: ebind_def)
  qed
qed

lemma task_priority_ok:
  assumes "heap_ok heap" and "\<forall>q\<in>set (preds t). q < length heap"
  shows "\<exists>p. task_priority pr True heap t = Inr p"
proof (cases pr)
  case PrioResourceAware
  obtain r where "non_resident_space True heap (preds t) = Inr r"
    using non_resident_space_ok [OF assms] by blast
  then show ?thesis using PrioResourceAware by (simp add: task_priority_def ebind_def)
qed (simp_all add: task_priority_def)

lemma batch_priority_ok:
  assumes hok: "heap_ok heap" and al: "a < length heap" and b: "batch (heap ! a) = Some b"
  shows "\<exists>k. batch_priority pr True heap b = Inr k"
proof -
  have t: "batch_task b = Some a" using hok al b by (rule heap_ok_batch)
  let ?ss = "filter (\<lambda>s. status (heap ! s) \<in> {READY, WAITING}) (succs (heap ! a))"
  have "\<exists>p. task_priority pr True heap (heap ! s) = Inr p" if "s \<in> set ?ss" for s
  proof -
    have "s < length heap" using heap_ok_refs(2) [OF hok al] that by simp
    then have "\<forall>q\<in>set (preds (heap ! s)). q < length heap" using hok by (rule heap_ok_refs(1) [rotated])
    with hok show ?thesis by (rule task_priority_ok)
  qed
  then obtain ps where "emap (\<lambda>s. task_priority pr True heap (heap ! s)) ?ss = Inr ps"
    using emap_ex [of ?ss "\<lambda>s. task_priority pr True heap (heap ! s)"] by blast
  then show ?thesis using t by (simp add: batch_priority_def ebind_def)
qed

lemma set_insert_by_key: "set (insert_by_key x ys) = insert x (set ys)"
  by (induction ys) auto

lemma distinct_insert_by_key:
  "distinct (map snd (insert_by_key x ys)) \<longleftrightarrow> snd x \<notin> snd ` set ys \<and> distinct (map snd ys)"
  by (induction ys) (auto simp: set_insert_by_key)

lemma foldl_insert_by_key:
  "set (foldl (\<lambda>acc x. insert_by_key x acc) acc xs) = set acc \<union> set xs \<and>
   (distinct (map snd (foldl (\<lambda>acc x. insert_by_key x acc) acc xs))
      \<longleftrightarrow> distinct (map snd (acc @ xs)))"
proof (induction xs arbitrary: acc)
  case Nil
  then show ?case by simp
next
  case (Cons x xs)
  note IH = Cons.IH [of "insert_by_key x acc"]
  have 1: "set (foldl (\<lambda>acc x. insert_by_key x acc) acc (x # xs)) = set acc \<union> set (x # xs)"
    using IH by (simp add: set_insert_by_key)
  have "distinct (map snd (insert_by_key x acc @ xs)) \<longleftrightarrow> distinct (map snd (acc @ x # xs))"
    by (auto simp: set_insert_by_key distinct_insert_by_key)
  then have 2: "distinct (map snd (foldl (\<lambda>acc x. insert_by_key x acc) acc (x # xs)))
      \<longleftrightarrow> distinct (map snd (acc @ x # xs))"
    using IH by simp
  show ?case using 1 2 by blast
qed

lemma sort_by_key_props:
  "set (sort_by_key xs) = set xs" "distinct (map snd (sort_by_key xs)) \<longleftrightarrow> distinct (map snd xs)"
  using foldl_insert_by_key [of "[]" xs] by (simp_all add: sort_by_key_def)

lemma eviction_order:
  assumes "length keys = length res" and "distinct res"
  shows "distinct (rev (map snd (sort_by_key (zip keys res))))"
    and "set (rev (map snd (sort_by_key (zip keys res)))) = set res"
proof -
  have m: "map snd (zip keys res) = res" using assms(1) by simp
  show "distinct (rev (map snd (sort_by_key (zip keys res))))"
    using sort_by_key_props(2) [of "zip keys res"] assms(2) m by simp
  have "set (map snd (sort_by_key (zip keys res))) = snd ` set (zip keys res)"
    using sort_by_key_props(1) [of "zip keys res"] by simp
  also have "\<dots> = set (map snd (zip keys res))" by simp
  finally show "set (rev (map snd (sort_by_key (zip keys res)))) = set res" using m by simp
qed

lemma ensured_cong:
  assumes e: "ensured amount ns L c1 heap c' heap'"
    and s: "set L' = set L"
    and f: "cache_tasks c1 = cache_tasks c" "max_resident c1 = max_resident c"
           "spill_path c1 = spill_path c" "cache_prio c1 = cache_prio c"
  shows "ensured amount ns L' c heap c' heap'"
proof (rule ensuredI)
  note d = ensuredD [OF e]
  show "cache_ok c' heap'" by (rule d(1))
  show "only_batches_changed heap heap'" by (rule d(2))
  show "cache_tasks c' = cache_tasks c" using d(3) f(1) by simp
  show "max_resident c' = max_resident c" using d(4) f(2) by simp
  show "spill_path c' = spill_path c" using d(5) f(3) by simp
  show "cache_prio c' = cache_prio c" using d(6) f(4) by simp
  show "\<And>a. a < length heap \<Longrightarrow> a \<in> set ns \<or> a \<notin> set L' \<Longrightarrow> heap' ! a = heap ! a"
    using d(7) s by simp
  show "\<And>a. a < length heap \<Longrightarrow> batch (heap ! a) = None \<Longrightarrow> batch (heap' ! a) = None"
    by (rule d(8))
  show "\<And>a b. a < length heap \<Longrightarrow> batch (heap ! a) = Some b \<Longrightarrow>
           \<exists>b'. batch (heap' ! a) = Some b' \<and> space b' = space b \<and>
                (batch_status True b = Inr SPILLED \<longrightarrow> b' = b)"
    by (rule d(9))
  show "resident_space True c' heap' + amount \<le> max_resident c' \<or>
         (warnings c' \<noteq> [] \<and> last (warnings c') = EnsureSpaceFailed \<and>
          (\<forall>a\<in>set L'. a \<notin> set ns \<longrightarrow>
             (\<exists>b. batch (heap' ! a) = Some b \<and> batch_status True b = Inr SPILLED)))"
    using d(10) unfolding s .
qed

lemma ensure_space_ok:
  assumes ok: "cache_ok c heap"
    and prot: "\<forall>a\<in>set ns. \<exists>b. batch (heap ! a) = Some b"
    and dir: "spill_path c = None \<longrightarrow> resident_space True c heap + amount \<le> max_resident c"
  shows "\<exists>c' heap'. ensure_space True c heap amount ns = Inr (c', heap') \<and>
           ensured amount ns (filter (is_resident heap) (map snd (cache_tasks c))) c heap c' heap'"
proof -
  have hok: "heap_ok heap" and dist: "distinct (map snd (cache_tasks c))"
    using ok unfolding cache_ok_def by blast+
  let ?res = "filter (is_resident heap) (map snd (cache_tasks c))"
  obtain nss where nss: "sum_spaces heap ns = Inr nss" using sum_spaces_ok [OF prot] by blast
  let ?c1 = "c\<lparr>stats := (stats c)\<lparr>stat_min_resident := max (stat_min_resident (stats c)) (amount + nss)\<rparr>\<rparr>"
  have f: "cache_tasks ?c1 = cache_tasks c" "max_resident ?c1 = max_resident c"
      "spill_path ?c1 = spill_path c" "cache_prio ?c1 = cache_prio c"
    by simp_all
  have ok1: "cache_ok ?c1 heap" using ok f(1) by (rule cache_ok_cong)
  have res: "resident_batches True ?c1 heap = Inr ?res"
    using resident_batches_ok [OF ok1] f(1) by simp
  let ?k = "\<lambda>a. case batch (heap ! a) of
                              None \<Rightarrow> Inl AttributeError
                            | Some b \<Rightarrow> batch_priority (cache_prio ?c1) True heap b"
  have "\<exists>y. ?k a = Inr y" if "a \<in> set ?res" for a
  proof -
    note ar = that
    have "a \<in> set (map snd (cache_tasks c))" using ar by simp
    with ok have al: "a < length heap" by (rule cache_ok_bound)
    obtain b where b: "batch (heap ! a) = Some b" using ar by (auto simp: is_resident_def)
    show ?thesis using batch_priority_ok [OF hok al b] b by simp
  qed
  then obtain keys where keys: "emap ?k ?res = Inr keys" and len: "length keys = length ?res"
    using emap_ex [of ?res ?k] by blast
  have rsp: "sum_spaces heap ?res = Inr (resident_space True c heap)"
    by (rule sum_spaces_residents)
  let ?L = "rev (map snd (sort_by_key (zip keys ?res)))"
  have dres: "distinct ?res" using dist by simp
  note L = eviction_order [OF len dres]
  have run: "ensure_space True c heap amount ns
             = spill_loop True amount ns ?L (resident_space True c heap) ?c1 heap"
    unfolding ensure_space_def
    by (simp add: ebind_def Let_def nss res keys rsp)
  have sub: "set ?L \<subseteq> set (map snd (cache_tasks ?c1))" unfolding L(2) f(1) by auto
  have allres: "\<forall>a\<in>set ?L. \<exists>b. batch (heap ! a) = Some b \<and> batch_status True b = Inr RESIDENT"
    unfolding L(2) by (auto simp: is_resident_def)
  have dir1: "spill_path ?c1 = None \<longrightarrow> resident_space True c heap + amount \<le> max_resident ?c1"
    using dir f by simp
  have rs1: "resident_space True c heap = resident_space True ?c1 heap"
    using f(1) by (simp add: resident_space_def)
  obtain c' heap' where
    r: "spill_loop True amount ns ?L (resident_space True c heap) ?c1 heap = Inr (c', heap')"
    and e: "ensured amount ns ?L ?c1 heap c' heap'"
    using spill_loop_ok [OF ok1 L(1) sub allres dir1 rs1] by blast
  have "ensured amount ns ?res c heap c' heap'"
    using e L(2) [symmetric] f by (rule ensured_cong)
  then show ?thesis using run r by simp
qed

section \<open>The soft memory limit\<close>

lemma scanned_ok:
  "in_memory_ok X y \<Longrightarrow> cache_ok (scan_cache m) (scanned X y)"
  by (simp add: cache_ok_def heap_ok_def scanned_def scan_cache_def cache_enter_def BatchCache_def
      Let_def new_task_def Batch_def batch_wf_def All_less_Suc)

text \<open>
  Claim C7. The claim says that \<^verbatim>\<open>ensure_space\<close> never raises. It raises a ValueError
  as soon as the batch it picks for eviction is a Spark frame, which \<^verbatim>\<open>status\<close> reports
  as resident and \<^verbatim>\<open>spill\<close> cannot write. Here, the call the executor makes before
  it scans the second input batch, with a ceiling of 1 and the first batch, a Spark
  batch of space 1, resident.
\<close>

theorem ensure_space_spark_counterexample:
  "ensure_space True (scan_cache 1) (scanned SparkDataFrame SparkDataFrame) 1 [] = Inl ValueError"
  by code_simp

section \<open>The candidates taken by the eviction loop\<close>

lemma evicted_prefixD:
  assumes "evicted_prefix amount ns L k c heap c' heap'"
  shows "k \<le> length L" and "length heap' = length heap"
    and "\<And>a. a < length heap \<Longrightarrow>
           heap' ! a = (if a \<in> set (take k L) \<and> a \<notin> set ns then spill_task c heap a else heap ! a)"
    and "\<And>j. j < k \<Longrightarrow> resident_space True c heap
               - sum_list (map (space_of heap) (filter (\<lambda>a. a \<notin> set ns) (take j L)))
               + amount > max_resident c"
    and "k < length L \<Longrightarrow> resident_space True c' heap' + amount \<le> max_resident c'"
    and "warnings c' =
       warnings c @ map (\<lambda>a. AbortedSpill (batch_name heap a)) (filter (\<lambda>a. a \<in> set ns) (take k L))
       @ (if resident_space True c' heap' + amount > max_resident c' then [EnsureSpaceFailed] else [])"
proof -
  note e = assms [unfolded evicted_prefix_def]
  show "k \<le> length L" using e by (elim conjE)
  show "length heap' = length heap" using e by (elim conjE)
  have 1: "\<forall>a<length heap.
        heap' ! a = (if a \<in> set (take k L) \<and> a \<notin> set ns then spill_task c heap a else heap ! a)"
    using e by (elim conjE)
  show "\<And>a. a < length heap \<Longrightarrow>
           heap' ! a = (if a \<in> set (take k L) \<and> a \<notin> set ns then spill_task c heap a else heap ! a)"
    using 1 by blast
  have 2: "\<forall>j<k. resident_space True c heap
               - sum_list (map (space_of heap) (filter (\<lambda>a. a \<notin> set ns) (take j L)))
               + amount > max_resident c"
    using e by (elim conjE)
  show "\<And>j. j < k \<Longrightarrow> resident_space True c heap
               - sum_list (map (space_of heap) (filter (\<lambda>a. a \<notin> set ns) (take j L)))
               + amount > max_resident c"
    using 2 by blast
  have 3: "k < length L \<longrightarrow> resident_space True c' heap' + amount \<le> max_resident c'"
    using e by (elim conjE)
  show "k < length L \<Longrightarrow> resident_space True c' heap' + amount \<le> max_resident c'"
    using 3 by blast
  show "warnings c' =
       warnings c @ map (\<lambda>a. AbortedSpill (batch_name heap a)) (filter (\<lambda>a. a \<in> set ns) (take k L))
       @ (if resident_space True c' heap' + amount > max_resident c' then [EnsureSpaceFailed] else [])"
    using e by (elim conjE)
qed

lemma evicted_prefixI:
  assumes "k \<le> length L" and "length heap' = length heap"
    and "\<And>a. a < length heap \<Longrightarrow>
           heap' ! a = (if a \<in> set (take k L) \<and> a \<notin> set ns then spill_task c heap a else heap ! a)"
    and "\<And>j. j < k \<Longrightarrow> resident_space True c heap
               - sum_list (map (space_of heap) (filter (\<lambda>a. a \<notin> set ns) (take j L)))
               + amount > max_resident c"
    and "k < length L \<Longrightarrow> resident_space True c' heap' + amount \<le> max_resident c'"
    and "warnings c' =
       warnings c @ map (\<lambda>a. AbortedSpill (batch_name heap a)) (filter (\<lambda>a. a \<in> set ns) (take k L))
       @ (if resident_space True c' heap' + amount > max_resident c' then [EnsureSpaceFailed] else [])"
  shows "evicted_prefix amount ns L k c heap c' heap'"
proof -
  have 1: "\<forall>a<length heap.
        heap' ! a = (if a \<in> set (take k L) \<and> a \<notin> set ns then spill_task c heap a else heap ! a)"
    using assms(3) by blast
  have 2: "\<forall>j<k. resident_space True c heap
               - sum_list (map (space_of heap) (filter (\<lambda>a. a \<notin> set ns) (take j L)))
               + amount > max_resident c"
    using assms(4) by blast
  have 3: "k < length L \<longrightarrow> resident_space True c' heap' + amount \<le> max_resident c'"
    using assms(5) by blast
  show ?thesis
    unfolding evicted_prefix_def
    by (intro conjI) (fact assms(1,2) 1 2 3 assms(6))+
qed

lemma evicted_prefix_none:
  assumes "L \<noteq> [] \<longrightarrow> resident_space True c heap + amount \<le> max_resident c"
    and "cache_tasks c' = cache_tasks c" and "max_resident c' = max_resident c"
    and "warnings c' = warnings c @
           (if resident_space True c heap + amount > max_resident c then [EnsureSpaceFailed] else [])"
  shows "evicted_prefix amount ns L 0 c heap c' heap"
proof (rule evicted_prefixI)
  have rs: "resident_space True c' heap = resident_space True c heap"
    using assms(2) by (rule resident_space_cong)
  show "0 < length L \<Longrightarrow> resident_space True c' heap + amount \<le> max_resident c'"
    using assms(1,3) rs by auto
  show "warnings c' =
       warnings c @ map (\<lambda>a. AbortedSpill (batch_name heap a)) (filter (\<lambda>a. a \<in> set ns) (take 0 L))
       @ (if resident_space True c' heap + amount > max_resident c' then [EnsureSpaceFailed] else [])"
    using assms(3,4) rs by simp
qed simp_all

lemma evicted_prefix_step:
  assumes e: "evicted_prefix amount ns rest k c1 heap1 c' heap'"
    and over: "resident_space True c heap + amount > max_resident c"
    and ar: "a \<notin> set rest" and al: "a < length heap" and len: "length heap1 = length heap"
    and mr: "max_resident c1 = max_resident c"
    and h1: "\<And>x. x < length heap \<Longrightarrow>
               heap1 ! x = (if x = a \<and> a \<notin> set ns then spill_task c heap a else heap ! x)"
    and st: "\<And>x. x \<in> set rest \<Longrightarrow> spill_task c1 heap1 x = spill_task c heap x"
    and so: "\<And>x. x \<in> set rest \<Longrightarrow> space_of heap1 x = space_of heap x"
    and bn: "\<And>x. x \<in> set rest \<Longrightarrow> batch_name heap1 x = batch_name heap x"
    and rs: "resident_space True c1 heap1
             = resident_space True c heap - (if a \<notin> set ns then space_of heap a else 0)"
    and w: "warnings c1 = warnings c @ (if a \<in> set ns then [AbortedSpill (batch_name heap a)] else [])"
  shows "evicted_prefix amount ns (a # rest) (Suc k) c heap c' heap'"
proof (rule evicted_prefixI)
  note d = evicted_prefixD [OF e]
  show "Suc k \<le> length (a # rest)" using d(1) by simp
  show "length heap' = length heap" using d(2) len by simp
  show "heap' ! x = (if x \<in> set (take (Suc k) (a # rest)) \<and> x \<notin> set ns
                     then spill_task c heap x else heap ! x)" if x: "x < length heap" for x
  proof -
    have x1: "x < length heap1" using x len by simp
    note hx = d(3) [OF x1]
    show ?thesis
    proof (cases "x = a")
      case True
      have "a \<notin> set (take k rest)" using ar by (meson in_set_takeD)
      then have "heap' ! a = heap1 ! a" using hx True by simp
      then show ?thesis using h1 [OF al] True by simp
    next
      case False
      show ?thesis
      proof (cases "x \<in> set (take k rest) \<and> x \<notin> set ns")
        case True
        then have "x \<in> set rest" by (meson in_set_takeD)
        then have "spill_task c1 heap1 x = spill_task c heap x" by (rule st)
        then show ?thesis using hx True by simp
      next
        case nt: False
        then have "heap' ! x = heap1 ! x" using hx by auto
        then show ?thesis using h1 [OF x] False nt by auto
      qed
    qed
  qed
  show "resident_space True c heap
               - sum_list (map (space_of heap) (filter (\<lambda>a. a \<notin> set ns) (take j (a # rest))))
               + amount > max_resident c" if j: "j < Suc k" for j
  proof (cases j)
    case 0
    then show ?thesis using over by simp
  next
    case (Suc j')
    then have j': "j' < k" using j by simp
    have m: "map (space_of heap1) (filter (\<lambda>a. a \<notin> set ns) (take j' rest))
             = map (space_of heap) (filter (\<lambda>a. a \<notin> set ns) (take j' rest))"
      by (rule map_cong [OF refl]) (rule so, meson in_set_takeD filter_is_subset subsetD)
    show ?thesis using d(4) [OF j'] unfolding m rs mr Suc
      by (cases "a \<in> set ns") (simp_all add: algebra_simps)
  qed
  show "Suc k < length (a # rest) \<Longrightarrow> resident_space True c' heap' + amount \<le> max_resident c'"
    using d(5) by simp
  have m: "map (\<lambda>a. AbortedSpill (batch_name heap1 a)) (filter (\<lambda>a. a \<in> set ns) (take k rest))
           = map (\<lambda>a. AbortedSpill (batch_name heap a)) (filter (\<lambda>a. a \<in> set ns) (take k rest))"
  proof (rule map_cong [OF refl])
    fix x assume "x \<in> set (filter (\<lambda>a. a \<in> set ns) (take k rest))"
    then have "x \<in> set rest" by (meson in_set_takeD filter_is_subset subsetD)
    then show "AbortedSpill (batch_name heap1 x) = AbortedSpill (batch_name heap x)"
      using bn by simp
  qed
  show "warnings c' =
       warnings c @ map (\<lambda>a. AbortedSpill (batch_name heap a))
                      (filter (\<lambda>a. a \<in> set ns) (take (Suc k) (a # rest)))
       @ (if resident_space True c' heap' + amount > max_resident c' then [EnsureSpaceFailed] else [])"
    using d(6) unfolding m w by simp
qed

lemma batch_str_cong:
  "batch_task b = Some t \<Longrightarrow> heap1 ! t = heap ! t \<Longrightarrow> batch_str heap1 b = batch_str heap b"
  by (simp add: batch_str_def)

lemma spill_cong:
  "batch_task b = Some t \<Longrightarrow> heap1 ! t = heap ! t \<Longrightarrow> spill heap1 b dir = spill heap b dir"
  using batch_str_cong [of b t heap1 heap] by (simp add: spill_def)

lemma spill_task_cong:
  assumes "heap1 ! x = heap ! x" and "spill_path c1 = spill_path c"
    and "\<And>b. batch (heap ! x) = Some b \<Longrightarrow> batch_task b = Some x"
  shows "spill_task c1 heap1 x = spill_task c heap x"
proof (cases "batch (heap ! x)")
  case None
  then show ?thesis using assms(1,2) by (simp add: spill_task_def split: option.splits)
next
  case (Some b)
  have "spill heap1 b dir = spill heap b dir" for dir
    using assms(3) [OF Some] assms(1) by (rule spill_cong)
  then show ?thesis using assms(1,2) Some
    by (simp add: spill_task_def split: option.splits sum.splits)
qed

lemma spill_loop_prefix:
  assumes "cache_ok c heap" and "distinct L" and "set L \<subseteq> set (map snd (cache_tasks c))"
    and "\<forall>a\<in>set L. \<exists>b. batch (heap ! a) = Some b \<and> batch_status True b = Inr RESIDENT"
    and "spill_path c = None \<longrightarrow> rs + amount \<le> max_resident c"
    and "rs = resident_space True c heap"
  shows "\<exists>c' heap' k. spill_loop True amount ns L rs c heap = Inr (c', heap') \<and>
           evicted_prefix amount ns L k c heap c' heap'"
  using assms
proof (induction L arbitrary: rs c heap)
  case Nil
  show ?case
  proof (cases "rs + amount > max_resident c")
    case True
    let ?c = "c\<lparr>warnings := warnings c @ [EnsureSpaceFailed]\<rparr>"
    have "spill_loop True amount ns [] rs c heap = Inr (?c, heap)"
      using True by (rule spill_loop_empty)
    moreover have "evicted_prefix amount ns [] 0 c heap ?c heap"
      by (rule evicted_prefix_none) (use True Nil.prems(6) in simp_all)
    ultimately show ?thesis by blast
  next
    case False
    have "spill_loop True amount ns [] rs c heap = Inr (c, heap)"
      using False by (rule spill_loop_stop)
    moreover have "evicted_prefix amount ns [] 0 c heap c heap"
      by (rule evicted_prefix_none) (use False Nil.prems(6) in simp_all)
    ultimately show ?thesis by blast
  qed
next
  case (Cons a rest)
  note ok = Cons.prems(1)
  have hok: "heap_ok heap" and dist: "distinct (map snd (cache_tasks c))"
    using ok unfolding cache_ok_def by blast+
  have ain: "a \<in> set (map snd (cache_tasks c))" using Cons.prems(3) by simp
  have al: "a < length heap" using ok ain by (rule cache_ok_bound)
  have ar: "a \<notin> set rest" and dr: "distinct rest" using Cons.prems(2) by simp_all
  have sub: "set rest \<subseteq> set (map snd (cache_tasks c))" using Cons.prems(3) by simp
  show ?case
  proof (cases "rs + amount > max_resident c")
    case False
    have "spill_loop True amount ns (a # rest) rs c heap = Inr (c, heap)"
      using False by (rule spill_loop_stop)
    moreover have "evicted_prefix amount ns (a # rest) 0 c heap c heap"
      by (rule evicted_prefix_none) (use False Cons.prems(6) in simp_all)
    ultimately show ?thesis by blast
  next
    case over: True
    have over': "resident_space True c heap + amount > max_resident c"
      using over Cons.prems(6) by simp
    obtain b where b: "batch (heap ! a) = Some b" and res: "batch_status True b = Inr RESIDENT"
      using Cons.prems(4) by auto
    note hb = heap_ok_batch [OF hok al b]
    obtain s where s: "batch_str heap b = Inr s" using batch_str_ok [OF hok al b] by blast
    have name: "batch_name heap a = s" using b s by (simp add: batch_name_def)
    have spa: "space_of heap a = space b" using b by (simp add: space_of_def)
    have owner: "batch_task bx = Some x" if "x \<in> set rest" and "batch (heap ! x) = Some bx" for x bx
    proof -
      have "x \<in> set (map snd (cache_tasks c))" using that(1) sub by blast
      with ok have "x < length heap" by (rule cache_ok_bound)
      with hok show ?thesis using that(2) by (rule heap_ok_batch(2))
    qed
    show ?thesis
    proof (cases "a \<in> set ns")
      case True
      let ?c1 = "c\<lparr>warnings := warnings c @ [AbortedSpill s]\<rparr>"
      have eq: "spill_loop True amount ns (a # rest) rs c heap
                = spill_loop True amount ns rest rs ?c1 heap"
        using over b res hb(2) True s by (rule spill_loop_protected)
      have ok1: "cache_ok ?c1 heap" using ok by (rule cache_ok_cong) simp
      have r1: "\<forall>x\<in>set rest. \<exists>b. batch (heap ! x) = Some b \<and> batch_status True b = Inr RESIDENT"
        using Cons.prems(4) by simp
      have sp1: "spill_path ?c1 = None \<longrightarrow> rs + amount \<le> max_resident ?c1"
        using Cons.prems(5) by simp
      have rs1: "rs = resident_space True ?c1 heap"
        using Cons.prems(6) by (simp add: resident_space_def)
      have sub1: "set rest \<subseteq> set (map snd (cache_tasks ?c1))" using sub by simp
      obtain c' heap' k where run: "spill_loop True amount ns rest rs ?c1 heap = Inr (c', heap')"
        and en: "evicted_prefix amount ns rest k ?c1 heap c' heap'"
        using Cons.IH [OF ok1 dr sub1 r1 sp1 rs1] by blast
      have "evicted_prefix amount ns (a # rest) (Suc k) c heap c' heap'"
        using en over' ar al
      proof (rule evicted_prefix_step)
        show "resident_space True ?c1 heap
              = resident_space True c heap - (if a \<notin> set ns then space_of heap a else 0)"
          using True by (simp add: resident_space_def)
        show "warnings ?c1 = warnings c @ (if a \<in> set ns then [AbortedSpill (batch_name heap a)] else [])"
          using True name by simp
        show "\<And>x. x \<in> set rest \<Longrightarrow> spill_task ?c1 heap x = spill_task c heap x"
          by (rule spill_task_cong) (simp_all add: owner)
        show "\<And>x. x < length heap \<Longrightarrow>
               heap ! x = (if x = a \<and> a \<notin> set ns then spill_task c heap a else heap ! x)"
          using True by simp
      qed simp_all
      then show ?thesis using eq run by auto
    next
      case False
      obtain dir where dir: "spill_path c = Some dir" using Cons.prems(5) over by auto
      obtain b' where sp: "spill heap b dir = Inr b'" and wf': "batch_wf b'"
        and st': "batch_status True b' = Inr SPILLED" and t': "batch_task b' = batch_task b"
        and spc: "space b' = space b"
        using spill_wf [OF hb(1) res s, of dir] by blast
      let ?c1 = "c\<lparr>stats := (stats c)\<lparr>spill_count := spill_count (stats c) + 1,
                spill_space := spill_space (stats c) + space b'\<rparr>\<rparr>"
      let ?h1 = "heap[a := (heap ! a)\<lparr>batch := Some b'\<rparr>]"
      have eq: "spill_loop True amount ns (a # rest) rs c heap
                = spill_loop True amount ns rest (rs - space b') ?c1 ?h1"
        using over b res hb(2) False dir sp by (rule spill_loop_spill)
      have t'': "batch_task b' = Some a" using t' hb(2) by simp
      have ok1: "cache_ok ?c1 ?h1" using ok al wf' t'' b by (rule cache_ok_update_batch) simp
      have oth: "?h1 ! x = heap ! x" if "x \<noteq> a" for x using that by simp
      have r1: "\<forall>x\<in>set rest. \<exists>b. batch (?h1 ! x) = Some b \<and> batch_status True b = Inr RESIDENT"
      proof
        fix x assume x: "x \<in> set rest"
        then have "x \<noteq> a" using ar by auto
        then have "?h1 ! x = heap ! x" by (rule oth)
        then show "\<exists>b. batch (?h1 ! x) = Some b \<and> batch_status True b = Inr RESIDENT"
          using Cons.prems(4) x by simp
      qed
      have sp1: "spill_path ?c1 = None \<longrightarrow> rs - space b' + amount \<le> max_resident ?c1"
        using dir by simp
      have rsh: "resident_space True c ?h1 = resident_space True c heap - space b"
        using dist ain al hb(3) b res st' by (rule resident_space_spill)
      then have rs1: "rs - space b' = resident_space True ?c1 ?h1"
        using Cons.prems(6) spc by (simp add: resident_space_def)
      have sub1: "set rest \<subseteq> set (map snd (cache_tasks ?c1))" using sub by simp
      obtain c' heap' k where
        run: "spill_loop True amount ns rest (rs - space b') ?c1 ?h1 = Inr (c', heap')"
        and en: "evicted_prefix amount ns rest k ?c1 ?h1 c' heap'"
        using Cons.IH [OF ok1 dr sub1 r1 sp1 rs1] by blast
      have sta: "spill_task c heap a = (heap ! a)\<lparr>batch := Some b'\<rparr>"
        using dir b sp by (simp add: spill_task_def)
      have "evicted_prefix amount ns (a # rest) (Suc k) c heap c' heap'"
        using en over' ar al
      proof (rule evicted_prefix_step)
        show "resident_space True ?c1 ?h1
              = resident_space True c heap - (if a \<notin> set ns then space_of heap a else 0)"
          using False rsh spa by (simp add: resident_space_def)
        show "warnings ?c1 = warnings c @ (if a \<in> set ns then [AbortedSpill (batch_name heap a)] else [])"
          using False by simp
        show "spill_task ?c1 ?h1 x = spill_task c heap x" if x: "x \<in> set rest" for x
        proof (rule spill_task_cong)
          have "x \<noteq> a" using x ar by auto
          then show "?h1 ! x = heap ! x" by (rule oth)
          show "spill_path ?c1 = spill_path c" by simp
          show "\<And>bx. batch (heap ! x) = Some bx \<Longrightarrow> batch_task bx = Some x" using x by (rule owner)
        qed
        show "space_of ?h1 x = space_of heap x" if x: "x \<in> set rest" for x
        proof -
          have "x \<noteq> a" using x ar by auto
          then show ?thesis by (simp add: space_of_def)
        qed
        show "batch_name ?h1 x = batch_name heap x" if x: "x \<in> set rest" for x
        proof (cases "batch (heap ! x)")
          case None
          have "x \<noteq> a" using x ar by auto
          then show ?thesis using None by (simp add: batch_name_def)
        next
          case (Some bx)
          have xa: "x \<noteq> a" using x ar by auto
          then have e: "?h1 ! x = heap ! x" by (rule oth)
          have "batch_str ?h1 bx = batch_str heap bx"
            using owner [OF x Some] e by (rule batch_str_cong)
          then show ?thesis using Some e by (simp add: batch_name_def)
        qed
        show "?h1 ! x = (if x = a \<and> a \<notin> set ns then spill_task c heap a else heap ! x)"
          if "x < length heap" for x
          using False sta that by (cases "x = a") simp_all
      qed simp_all
      then show ?thesis using eq run by auto
    qed
  qed
qed

section \<open>The order of eviction\<close>

lemma insert_by_key_sorted:
  assumes R: "R = (\<lambda>x y. \<not> tuple_lt (fst y) (fst x) \<and> (\<not> tuple_lt (fst x) (fst y) \<longrightarrow> P x y))"
  shows "sorted_wrt R ys \<Longrightarrow> \<forall>w\<in>set ys. P w x \<Longrightarrow>
     \<forall>u\<in>set (x # ys). \<forall>v\<in>set (x # ys).
        fst u = fst v \<or> tuple_lt (fst u) (fst v) \<or> tuple_lt (fst v) (fst u) \<Longrightarrow>
     sorted_wrt R (insert_by_key x ys)"
proof (induction ys)
  case Nil
  then show ?case by simp
next
  case (Cons y ys)
  note tot = Cons.prems(3)
  show ?case
  proof (cases "tuple_lt (fst x) (fst y)")
    case True
    have "R x w" if w: "w \<in> set (y # ys)" for w
    proof -
      have nwy: "\<not> tuple_lt (fst w) (fst y)"
      proof (cases "w = y")
        case True
        then show ?thesis by (simp add: tuple_lt_irrefl)
      next
        case False
        then have "w \<in> set ys" using w by simp
        then have "R y w" using Cons.prems(1) by simp
        then show ?thesis by (simp add: R)
      qed
      have "fst w = fst y \<or> tuple_lt (fst y) (fst w)" using tot w nwy by auto
      then have xw: "tuple_lt (fst x) (fst w)" using True tuple_lt_trans by metis
      then have "\<not> tuple_lt (fst w) (fst x)" by (rule tuple_lt_asym)
      then show ?thesis using xw by (simp add: R)
    qed
    then show ?thesis using True Cons.prems(1) by simp
  next
    case False
    have 1: "sorted_wrt R (insert_by_key x ys)"
      using Cons.prems by (intro Cons.IH) auto
    have "R y x" using False Cons.prems(2) by (simp add: R)
    then have 2: "\<forall>w\<in>set (insert_by_key x ys). R y w"
      using Cons.prems(1) by (simp add: set_insert_by_key)
    show ?thesis using False 1 2 by simp
  qed
qed

lemma foldl_insert_sorted:
  assumes R: "R = (\<lambda>x y. \<not> tuple_lt (fst y) (fst x) \<and> (\<not> tuple_lt (fst x) (fst y) \<longrightarrow> P x y))"
  shows "sorted_wrt R acc \<Longrightarrow> \<forall>w\<in>set acc. \<forall>x\<in>set xs. P w x \<Longrightarrow> sorted_wrt P xs \<Longrightarrow>
     \<forall>u\<in>set (acc @ xs). \<forall>v\<in>set (acc @ xs).
        fst u = fst v \<or> tuple_lt (fst u) (fst v) \<or> tuple_lt (fst v) (fst u) \<Longrightarrow>
     sorted_wrt R (foldl (\<lambda>acc x. insert_by_key x acc) acc xs)"
proof (induction xs arbitrary: acc)
  case Nil
  then show ?case by simp
next
  case (Cons x xs)
  have 1: "sorted_wrt R (insert_by_key x acc)"
    using Cons.prems by (intro insert_by_key_sorted [OF R]) auto
  have 2: "\<forall>w\<in>set (insert_by_key x acc). \<forall>z\<in>set xs. P w z"
    using Cons.prems(2,3) by (auto simp: set_insert_by_key)
  have 3: "sorted_wrt P xs" using Cons.prems(3) by simp
  have 4: "\<forall>u\<in>set (insert_by_key x acc @ xs). \<forall>v\<in>set (insert_by_key x acc @ xs).
        fst u = fst v \<or> tuple_lt (fst u) (fst v) \<or> tuple_lt (fst v) (fst u)"
    using Cons.prems(4) by (simp add: set_insert_by_key)
  show ?case using Cons.IH [OF 1 2 3 4] by simp
qed

lemma sort_by_key_sorted:
  assumes "sorted_wrt P xs"
    and "\<forall>u\<in>set xs. \<forall>v\<in>set xs. fst u = fst v \<or> tuple_lt (fst u) (fst v) \<or> tuple_lt (fst v) (fst u)"
  shows "sorted_wrt (\<lambda>x y. \<not> tuple_lt (fst y) (fst x) \<and> (\<not> tuple_lt (fst x) (fst y) \<longrightarrow> P x y))
           (sort_by_key xs)"
  unfolding sort_by_key_def
  using assms by (intro foldl_insert_sorted [OF refl]) simp_all

lemma position_nth: "distinct xs \<Longrightarrow> i < length xs \<Longrightarrow> position xs (xs ! i) = i"
proof -
  assume d: "distinct xs" and i: "i < length xs"
  have "takeWhile (\<lambda>z. z \<noteq> xs ! i) xs = take i xs"
  proof (rule takeWhile_eq_take_P_nth)
    fix j assume "j < i" "j < length xs"
    then show "xs ! j \<noteq> xs ! i" using d i by (simp add: nth_eq_iff_index_eq)
  qed simp
  then show ?thesis using i by (simp add: position_def)
qed

lemma zip_sorted_by_position:
  assumes "distinct res"
  shows "sorted_wrt (\<lambda>u v. position res (snd u) < position res (snd v)) (zip (map f res) res)"
  unfolding sorted_wrt_iff_nth_less
  using assms by (auto simp: position_nth)

lemma emap_Inr_set: "emap f xs = Inr ys \<Longrightarrow> \<forall>y\<in>set ys. \<exists>x\<in>set xs. f x = Inr y"
proof (induction xs arbitrary: ys)
  case Nil
  then show ?case by simp
next
  case (Cons x xs)
  from Cons.prems obtain v vs where v: "f x = Inr v" and vs: "emap f xs = Inr vs" and ys: "ys = v # vs"
    by (auto simp: ebind_Inr_iff)
  show ?case using Cons.IH [OF vs] v ys by auto
qed

lemma foldl_min_in:
  "foldl (\<lambda>m v. if tuple_lt v m then v else m) x r \<in> set (x # r)"
proof (induction r arbitrary: x)
  case Nil
  then show ?case by simp
next
  case (Cons v r)
  show ?case using Cons.IH [of "if tuple_lt v x then v else x"] by auto
qed

lemma tuple_min_in: "tuple_min ps d = d \<or> tuple_min ps d \<in> set ps"
proof (cases ps)
  case Nil
  then show ?thesis by (simp add: tuple_min_def)
next
  case (Cons x r)
  then show ?thesis using foldl_min_in [of x r] by (simp add: tuple_min_def)
qed

lemma batch_priority_kind:
  assumes "batch_priority pr spark heap b = Inr k"
  shows "k = bottom \<or> (\<exists>t. task_priority pr spark heap t = Inr k)"
proof -
  from assms obtain a ps where
    ps: "emap (\<lambda>s. task_priority pr spark heap (heap ! s))
           (filter (\<lambda>s. status (heap ! s) \<in> {READY, WAITING}) (succs (heap ! a))) = Inr ps"
    and k: "k = tuple_min ps bottom"
    by (auto simp: batch_priority_def ebind_Inr_iff split: option.splits)
  show ?thesis
  proof (cases "k = bottom")
    case False
    then have "k \<in> set ps" using tuple_min_in [of ps bottom] k by auto
    then show ?thesis using emap_Inr_set [OF ps] by blast
  qed simp
qed

lemma task_priority_below_bottom:
  assumes "task_priority pr spark heap t = Inr p"
  shows "tuple_lt p bottom"
  using assms
  by (cases pr) (auto simp: task_priority_def ebind_Inr_iff bottom_def numeral_eq_Suc)

lemma batch_priority_total:
  assumes "batch_priority pr spark heap b1 = Inr k1" and "batch_priority pr spark heap b2 = Inr k2"
  shows "k1 = k2 \<or> tuple_lt k1 k2 \<or> tuple_lt k2 k1"
proof -
  from batch_priority_kind [OF assms(1)] batch_priority_kind [OF assms(2)]
  consider "k1 = bottom" "k2 = bottom"
    | t where "k1 = bottom" "task_priority pr spark heap t = Inr k2"
    | t where "k2 = bottom" "task_priority pr spark heap t = Inr k1"
    | t1 t2 where "task_priority pr spark heap t1 = Inr k1" "task_priority pr spark heap t2 = Inr k2"
    by blast
  then show ?thesis
  proof cases
    case 1
    then show ?thesis by simp
  next
    case 2
    then show ?thesis using task_priority_below_bottom by blast
  next
    case 3
    then show ?thesis using task_priority_below_bottom by blast
  next
    case 4
    then show ?thesis using task_priority_total by blast
  qed
qed

lemma key_of_resident:
  assumes hok: "heap_ok heap" and al: "a < length heap" and b: "batch (heap ! a) = Some b"
  shows "batch_priority pr True heap b = Inr (key_of pr heap a)"
proof -
  obtain k where "batch_priority pr True heap b = Inr k"
    using batch_priority_ok [OF hok al b] by blast
  then show ?thesis using b by (simp add: key_of_def)
qed

lemma comparable_keys_residents:
  assumes ok: "cache_ok c heap"
  shows "comparable_keys pr heap (filter (is_resident heap) (map snd (cache_tasks c)))"
  unfolding comparable_keys_def
proof (intro ballI)
  have hok: "heap_ok heap" using ok unfolding cache_ok_def by blast
  fix a x
  assume a: "a \<in> set (filter (is_resident heap) (map snd (cache_tasks c)))"
    and x: "x \<in> set (filter (is_resident heap) (map snd (cache_tasks c)))"
  have al: "a < length heap" using ok a by (intro cache_ok_bound [of c]) simp_all
  have xl: "x < length heap" using ok x by (intro cache_ok_bound [of c]) simp_all
  obtain ba bx where ba: "batch (heap ! a) = Some ba" and bx: "batch (heap ! x) = Some bx"
    using a x by (auto simp: is_resident_def)
  show "key_of pr heap a = key_of pr heap x \<or>
        tuple_lt (key_of pr heap a) (key_of pr heap x) \<or>
        tuple_lt (key_of pr heap x) (key_of pr heap a)"
    using key_of_resident [OF hok al ba, of pr] key_of_resident [OF hok xl bx, of pr]
    by (rule batch_priority_total)
qed

lemma eviction_order_sorted:
  assumes d: "distinct res" and cmp: "comparable_keys pr heap res"
  shows "eviction_order pr heap res
           (rev (map snd (sort_by_key (zip (map (key_of pr heap) res) res))))"
proof -
  let ?f = "key_of pr heap"
  let ?xs = "zip (map ?f res) res"
  let ?S = "sort_by_key ?xs"
  let ?P = "\<lambda>u v. position res (snd u) < position res (snd v)"
  have el: "fst u = ?f (snd u) \<and> snd u \<in> set res" if "u \<in> set ?xs" for u
    using that by (auto simp: in_set_zip) (metis nth_mem)
  have tot: "\<forall>u\<in>set ?xs. \<forall>v\<in>set ?xs.
      fst u = fst v \<or> tuple_lt (fst u) (fst v) \<or> tuple_lt (fst v) (fst u)"
  proof (intro ballI)
    fix u v assume u: "u \<in> set ?xs" and v: "v \<in> set ?xs"
    show "fst u = fst v \<or> tuple_lt (fst u) (fst v) \<or> tuple_lt (fst v) (fst u)"
      using cmp el [OF u] el [OF v] unfolding comparable_keys_def by metis
  qed
  have s1: "sorted_wrt (\<lambda>x y. \<not> tuple_lt (fst y) (fst x) \<and> (\<not> tuple_lt (fst x) (fst y) \<longrightarrow> ?P x y)) ?S"
    using zip_sorted_by_position [OF d] tot by (rule sort_by_key_sorted)
  have s2: "sorted_wrt (\<lambda>u v. \<not> tuple_lt (?f (snd v)) (?f (snd u)) \<and>
              (\<not> tuple_lt (?f (snd u)) (?f (snd v)) \<longrightarrow> ?P u v)) ?S"
  proof (rule sorted_wrt_mono_rel [OF _ s1])
    fix u v assume "u \<in> set ?S" "v \<in> set ?S"
    then have "fst u = ?f (snd u)" "fst v = ?f (snd v)"
      using el by (simp_all add: sort_by_key_props(1))
    then show "\<not> tuple_lt (fst v) (fst u) \<and> (\<not> tuple_lt (fst u) (fst v) \<longrightarrow> ?P u v) \<Longrightarrow>
          \<not> tuple_lt (?f (snd v)) (?f (snd u)) \<and> (\<not> tuple_lt (?f (snd u)) (?f (snd v)) \<longrightarrow> ?P u v)"
      by simp
  qed
  have len: "length (map ?f res) = length res" by simp
  note L = eviction_order [OF len d]
  have "sorted_wrt (\<lambda>a x. \<not> tuple_lt (?f a) (?f x) \<and>
                        (\<not> tuple_lt (?f x) (?f a) \<longrightarrow> position res x < position res a))
          (rev (map snd ?S))"
    unfolding sorted_wrt_rev sorted_wrt_map using s2 .
  then show ?thesis unfolding eviction_order_def using L by simp
qed

lemma evicted_prefix_cong:
  assumes e: "evicted_prefix amount ns L k c1 heap c' heap'"
    and f: "cache_tasks c1 = cache_tasks c" "max_resident c1 = max_resident c"
           "spill_path c1 = spill_path c" "warnings c1 = warnings c"
  shows "evicted_prefix amount ns L k c heap c' heap'"
proof -
  have rs: "resident_space True c1 heap = resident_space True c heap"
    using f(1) by (rule resident_space_cong)
  have st: "spill_task c1 heap = spill_task c heap"
    using f(3) by (simp add: spill_task_def fun_eq_iff)
  show ?thesis using e unfolding evicted_prefix_def rs st f(2) f(4) .
qed

lemma ensure_space_run:
  assumes ok: "cache_ok c heap"
    and prot: "\<forall>a\<in>set ns. \<exists>b. batch (heap ! a) = Some b"
  shows "\<exists>c1. cache_tasks c1 = cache_tasks c \<and> max_resident c1 = max_resident c \<and>
           spill_path c1 = spill_path c \<and> warnings c1 = warnings c \<and> cache_prio c1 = cache_prio c \<and>
           ensure_space True c heap amount ns
           = spill_loop True amount ns
               (rev (map snd (sort_by_key
                  (zip (map (key_of (cache_prio c) heap)
                          (filter (is_resident heap) (map snd (cache_tasks c))))
                       (filter (is_resident heap) (map snd (cache_tasks c)))))))
               (resident_space True c heap) c1 heap"
proof -
  have hok: "heap_ok heap" using ok unfolding cache_ok_def by blast
  let ?res = "filter (is_resident heap) (map snd (cache_tasks c))"
  obtain nss where nss: "sum_spaces heap ns = Inr nss" using sum_spaces_ok [OF prot] by blast
  let ?c1 = "c\<lparr>stats := (stats c)\<lparr>stat_min_resident := max (stat_min_resident (stats c)) (amount + nss)\<rparr>\<rparr>"
  have f: "cache_tasks ?c1 = cache_tasks c" by simp
  have ok1: "cache_ok ?c1 heap" using ok f by (rule cache_ok_cong)
  have res: "resident_batches True ?c1 heap = Inr ?res"
    using resident_batches_ok [OF ok1] f by simp
  let ?k = "\<lambda>a. case batch (heap ! a) of
                              None \<Rightarrow> Inl AttributeError
                            | Some b \<Rightarrow> batch_priority (cache_prio ?c1) True heap b"
  have "?k a = Inr (key_of (cache_prio c) heap a)" if "a \<in> set ?res" for a
  proof -
    note ar = that
    have "a \<in> set (map snd (cache_tasks c))" using ar by simp
    with ok have al: "a < length heap" by (rule cache_ok_bound)
    obtain b where b: "batch (heap ! a) = Some b" using ar by (auto simp: is_resident_def)
    show ?thesis using key_of_resident [OF hok al b, of "cache_prio c"] b by simp
  qed
  then have keys: "emap ?k ?res = Inr (map (key_of (cache_prio c) heap) ?res)"
    by (rule emap_total)
  have rsp: "sum_spaces heap ?res = Inr (resident_space True c heap)"
    by (rule sum_spaces_residents)
  have run: "ensure_space True c heap amount ns
             = spill_loop True amount ns
                 (rev (map snd (sort_by_key (zip (map (key_of (cache_prio c) heap) ?res) ?res))))
                 (resident_space True c heap) ?c1 heap"
    unfolding ensure_space_def
    by (simp add: ebind_def Let_def nss res keys rsp)
  show ?thesis
    by (rule exI [of _ ?c1]) (use run in simp)
qed

lemma ensure_space_exact:
  assumes ok: "cache_ok c heap"
    and prot: "\<forall>a\<in>set ns. \<exists>b. batch (heap ! a) = Some b"
    and dir: "spill_path c = None \<longrightarrow> resident_space True c heap + amount \<le> max_resident c"
  shows "\<exists>c' heap' L k. ensure_space True c heap amount ns = Inr (c', heap') \<and>
           ensured amount ns (filter (is_resident heap) (map snd (cache_tasks c))) c heap c' heap' \<and>
           comparable_keys (cache_prio c) heap (filter (is_resident heap) (map snd (cache_tasks c))) \<and>
           eviction_order (cache_prio c) heap (filter (is_resident heap) (map snd (cache_tasks c))) L \<and>
           evicted_prefix amount ns L k c heap c' heap'"
proof -
  let ?res = "filter (is_resident heap) (map snd (cache_tasks c))"
  let ?L = "rev (map snd (sort_by_key (zip (map (key_of (cache_prio c) heap) ?res) ?res)))"
  have dist: "distinct (map snd (cache_tasks c))" using ok unfolding cache_ok_def by blast
  have dres: "distinct ?res" using dist by simp
  have cmp: "comparable_keys (cache_prio c) heap ?res" using ok by (rule comparable_keys_residents)
  have ord: "eviction_order (cache_prio c) heap ?res ?L" using dres cmp by (rule eviction_order_sorted)
  obtain c' heap' where r: "ensure_space True c heap amount ns = Inr (c', heap')"
    and en: "ensured amount ns ?res c heap c' heap'"
    using ensure_space_ok [OF ok prot dir] by blast
  obtain c1 where f: "cache_tasks c1 = cache_tasks c" "max_resident c1 = max_resident c"
      "spill_path c1 = spill_path c" "warnings c1 = warnings c"
    and run: "ensure_space True c heap amount ns
              = spill_loop True amount ns ?L (resident_space True c heap) c1 heap"
    using ensure_space_run [OF ok prot, of amount] by blast
  have ok1: "cache_ok c1 heap" using ok f(1) by (rule cache_ok_cong)
  have dL: "distinct ?L" and sL: "set ?L = set ?res"
    using ord unfolding eviction_order_def by blast+
  have sub: "set ?L \<subseteq> set (map snd (cache_tasks c1))" unfolding sL f(1) by auto
  have allres: "\<forall>a\<in>set ?L. \<exists>b. batch (heap ! a) = Some b \<and> batch_status True b = Inr RESIDENT"
    unfolding sL by (auto simp: is_resident_def)
  have dir1: "spill_path c1 = None \<longrightarrow> resident_space True c heap + amount \<le> max_resident c1"
    using dir f by simp
  have rs1: "resident_space True c heap = resident_space True c1 heap"
    using f(1) by (simp add: resident_space_def)
  obtain c'' heap'' k where
    r2: "spill_loop True amount ns ?L (resident_space True c heap) c1 heap = Inr (c'', heap'')"
    and ev: "evicted_prefix amount ns ?L k c1 heap c'' heap''"
    using spill_loop_prefix [OF ok1 dL sub allres dir1 rs1] by blast
  have same: "c'' = c'" "heap'' = heap'" using r r2 run by simp_all
  have "evicted_prefix amount ns ?L k c heap c' heap'"
    using ev f unfolding same by (rule evicted_prefix_cong)
  then show ?thesis using r en cmp ord by blast
qed

section \<open>What ensure_space does\<close>

lemma scanned_two_ok: "cache_ok (scan_two_cache m) scanned_two"
  by (simp add: cache_ok_def heap_ok_def scanned_two_def scan_two_cache_def cache_enter_def
      BatchCache_def Let_def new_task_def Batch_def batch_wf_def All_less_Suc numeral_eq_Suc
      upt_rec memo_key_def)

text \<open>
  Claim C7, amended. With pyspark importable, every batch of the heap held in one of the
  pandas or numpy representations (or spilled), every protected batch present, and a
  spill directory at hand whenever the resident total plus the amount exceeds the
  ceiling, \<^verbatim>\<open>ensure_space\<close> returns normally, and what it has done is this. The keys
  of the resident batches are comparable; the loop takes the resident batches by
  descending key, the lowest priority first, among equal keys the later of the dict
  first; it takes a batch only while the resident total plus the amount is above the
  ceiling, and stops before the end of the list only with the ceiling met; every batch
  it takes is spilled unless it is protected, in which case a warning is logged; nothing
  else in the heap changes; and the failure warning is logged exactly when the total is
  still above the ceiling on return, which happens only when every resident batch that
  is not protected has been spilled.
\<close>

theorem ensure_space_soft_limit:
  assumes "cache_ok c heap"
    and "\<forall>a\<in>set no_spill_set. \<exists>b. batch (heap ! a) = Some b"
    and "spill_path c = None \<longrightarrow> resident_space True c heap + amount_needed \<le> max_resident c"
  shows "\<exists>c' heap' L k.
           ensure_space True c heap amount_needed no_spill_set = Inr (c', heap') \<and>
           ensured amount_needed no_spill_set
             (filter (is_resident heap) (map snd (cache_tasks c))) c heap c' heap' \<and>
           comparable_keys (cache_prio c) heap (filter (is_resident heap) (map snd (cache_tasks c))) \<and>
           eviction_order (cache_prio c) heap (filter (is_resident heap) (map snd (cache_tasks c))) L \<and>
           evicted_prefix amount_needed no_spill_set L k c heap c' heap'"
  using assms by (rule ensure_space_exact)

theorem ensure_space_soft_limit_witness:
  "cache_ok (scan_two_cache 250) scanned_two \<and>
   spill_path (scan_two_cache 250) = Some ''tmp'' \<and>
   batch_states (ensure_space True (scan_two_cache 250) scanned_two 100 [])
     = [Some (Inr RESIDENT), Some (Inr SPILLED), None, None, None, None] \<and>
   (\<exists>c' heap' L k.
      ensure_space True (scan_two_cache 250) scanned_two 100 [] = Inr (c', heap') \<and>
      ensured 100 []
        (filter (is_resident scanned_two) (map snd (cache_tasks (scan_two_cache 250))))
        (scan_two_cache 250) scanned_two c' heap' \<and>
      comparable_keys (cache_prio (scan_two_cache 250)) scanned_two
        (filter (is_resident scanned_two) (map snd (cache_tasks (scan_two_cache 250)))) \<and>
      eviction_order (cache_prio (scan_two_cache 250)) scanned_two
        (filter (is_resident scanned_two) (map snd (cache_tasks (scan_two_cache 250)))) L \<and>
      evicted_prefix 100 [] L k (scan_two_cache 250) scanned_two c' heap')"
proof -
  have ok: "cache_ok (scan_two_cache 250) scanned_two" by (rule scanned_two_ok)
  have dir: "spill_path (scan_two_cache 250) = Some ''tmp''"
    by (simp add: scan_two_cache_def cache_enter_def BatchCache_def sys_maxsize_def)
  have run: "batch_states (ensure_space True (scan_two_cache 250) scanned_two 100 [])
     = [Some (Inr RESIDENT), Some (Inr SPILLED), None, None, None, None]"
    by code_simp
  have "\<exists>c' heap' L k.
      ensure_space True (scan_two_cache 250) scanned_two 100 [] = Inr (c', heap') \<and>
      ensured 100 []
        (filter (is_resident scanned_two) (map snd (cache_tasks (scan_two_cache 250))))
        (scan_two_cache 250) scanned_two c' heap' \<and>
      comparable_keys (cache_prio (scan_two_cache 250)) scanned_two
        (filter (is_resident scanned_two) (map snd (cache_tasks (scan_two_cache 250)))) \<and>
      eviction_order (cache_prio (scan_two_cache 250)) scanned_two
        (filter (is_resident scanned_two) (map snd (cache_tasks (scan_two_cache 250)))) L \<and>
      evicted_prefix 100 [] L k (scan_two_cache 250) scanned_two c' heap'"
    using ensure_space_soft_limit [of "scan_two_cache 250" scanned_two "[]" 100] ok dir by simp
  then show ?thesis using ok dir run by (intro conjI)
qed

section \<open>Keys of cross-validation tasks\<close>

lemma expand_keys:
  assumes ok: "dict_ok g" and a: "a < length (objs g)"
    and fr: "\<forall>c\<in>set (fresh_tasks g). c < length (objs g)"
    and old: "\<forall>c<length (objs g). K (memo_key (objs g ! c))"
    and new: "\<forall>k\<in>set ks. K k"
  shows "dict_ok (expand a ks g)" and "step_id_preds (expand a ks g) = step_id_preds g"
    and "\<forall>c\<in>set (fresh_tasks (expand a ks g)). c < length (objs (expand a ks g))"
    and "\<forall>c<length (objs (expand a ks g)). K (memo_key (objs (expand a ks g) ! c))"
proof -
  let ?g2 = "foldl (append_pred a) g ks"
  have g3: "expand a ks g = link_succs a ?g2" by (simp add: expand_def)
  have e2: "extends ks g ?g2" using append_preds_effect [OF ok a, of ks] by blast
  have ok2: "dict_ok ?g2" and sp2: "step_id_preds ?g2 = step_id_preds g"
    and le2: "length (objs g) \<le> length (objs ?g2)"
    and fr2: "fresh_tasks ?g2 = fresh_tasks g @ [length (objs g)..<length (objs ?g2)]"
    using e2 by (simp_all add: extends_def)
  have k2: "\<forall>c<length (objs ?g2). K (memo_key (objs ?g2 ! c))"
    using e2 old new by (rule keys_extends)
  note ls = link_succs_effect [OF ok2, where a = a]
  show "dict_ok (expand a ks g)" unfolding g3 by (rule ls(1))
  show "step_id_preds (expand a ks g) = step_id_preds g" unfolding g3 using ls(3) sp2 by simp
  show "\<forall>c\<in>set (fresh_tasks (expand a ks g)). c < length (objs (expand a ks g))"
    unfolding g3 ls(2) ls(4) fr2 using fr le2 by auto
  show "\<forall>c<length (objs (expand a ks g)). K (memo_key (objs (expand a ks g) ! c))"
    unfolding g3 ls(4) using ls(6) k2 by simp
qed

lemma cv_loop_keys:
  assumes run: "cv_loop p folds n sf g = Some (Inr tg)"
    and ok: "dict_ok g" and sp: "step_id_preds g = step_id_preds (TaskGraph p)"
    and fr: "\<forall>c\<in>set (fresh_tasks g). c < length (objs g)"
    and keys: "\<forall>c<length (objs g). K (memo_key (objs g ! c))"
    and closed: "\<And>t g ks. K (memo_key t) \<Longrightarrow> step_id_preds g = step_id_preds (TaskGraph p) \<Longrightarrow>
        cv_requests p g folds n sf t = Inr ks \<Longrightarrow> \<forall>k\<in>set ks. K k"
  shows "\<forall>c<length (objs tg). K (memo_key (objs tg ! c))"
proof -
  let ?I = "\<lambda>g. dict_ok g \<and> step_id_preds g = step_id_preds (TaskGraph p) \<and>
                 (\<forall>c\<in>set (fresh_tasks g). c < length (objs g)) \<and>
                 (\<forall>c<length (objs g). K (memo_key (objs g ! c)))"
  have "?I tg \<and> fresh_tasks tg = []"
  proof (rule cv_loop_invariant [OF run, where I = ?I])
    show "?I g" using ok sp fr keys by simp
  next
    fix g a g1 ks
    assume I: "?I g" and ne: "fresh_tasks g \<noteq> []" and pf: "pop_fresh g = (a, g1)"
      and rq: "cv_requests p g1 folds n sf (objs g1 ! a) = Inr ks"
    have o1: "objs g1 = objs g" and a: "a = last (fresh_tasks g)"
      and sp1: "step_id_preds g1 = step_id_preds g"
      and f1: "fresh_tasks g1 = butlast (fresh_tasks g)"
      and g1: "g1 = g\<lparr>fresh_tasks := butlast (fresh_tasks g)\<rparr>"
      using pf by (auto simp: pop_fresh_def)
    have ok1: "dict_ok g1" using I by (simp add: g1 dict_ok_def)
    have "a \<in> set (fresh_tasks g)" using ne a by simp
    then have al: "a < length (objs g1)" using I o1 by simp
    have fr1: "\<forall>c\<in>set (fresh_tasks g1). c < length (objs g1)"
      using I f1 o1 by (auto dest: in_set_butlastD)
    have old: "\<forall>c<length (objs g1). K (memo_key (objs g1 ! c))" using I o1 by simp
    have spg: "step_id_preds g1 = step_id_preds (TaskGraph p)" using I sp1 by simp
    have "K (memo_key (objs g1 ! a))" using old al by simp
    then have new: "\<forall>k\<in>set ks. K k" using closed spg rq by blast
    note e = expand_keys [OF ok1 al fr1 old new]
    show "?I (expand a ks g1)" using e spg by simp
  qed
  then show ?thesis by simp
qed

lemma cv_held_loop_keys:
  "cv_held_loop sf bids mk qs h = Inr r \<Longrightarrow> (\<forall>q\<in>set qs. \<forall>h'. \<forall>k\<in>set (mk q h'). K k) \<Longrightarrow>
   \<forall>k\<in>set r. K k"
proof (induction qs arbitrary: h r)
  case Nil
  then show ?case by simp
next
  case (Cons q qs)
  from Cons.prems(1) obtain h' r' where
    r': "cv_held_loop sf bids mk qs h' = Inr r'" and r: "r = mk q h' @ r'"
    by (auto simp: ebind_Inr_iff)
  have "\<forall>k\<in>set r'. K k" using Cons.IH [OF r'] Cons.prems(2) by simp
  then show ?case using r Cons.prems(2) by auto
qed

lemma step_key_ok_requests:
  assumes wf: "wf_pipeline p" and ok: "step_key_ok p (memo_key t)"
    and sp: "step_id_preds g = step_id_preds (TaskGraph p)"
    and rq: "cv_requests p g folds n sf t = Inr ks"
  shows "\<forall>k\<in>set ks. step_key_ok p k"
proof -
  have pb: "\<And>ps. lookup (step_id_preds g) (step_id t) = Inr ps \<Longrightarrow>
       \<forall>q\<in>set ps. \<forall>bs h. step_key_ok p (ApplyTask, q, bs, h)"
    using lookup_preds_bound [OF wf] sp by (simp add: step_key_ok_def)
  show ?thesis
  proof (cases "cls t")
    case TrainTask
    then have s: "step_id t < int (length (steps_list p))"
      using ok by (simp add: step_key_ok_def memo_key_def)
    then have tr: "\<forall>bs h. step_key_ok p (TrainTask, step_id t, bs, h)"
      by (simp add: step_key_ok_def)
    from rq TrainTask obtain step where
      body: "(if is_pretrained step then Inr []
            else if length (batch_ids t) = 1 then
              ebind (lookup (step_id_preds g) (step_id t)) (\<lambda>ps.
              ebind (emap (\<lambda>q.
                       if q = DUMMY_INPUT_STEP then Inr None
                       else if sf then Inr (held_out t)
                       else ebind (first_fold (batch_ids t)) (\<lambda>fld. Inr (Some fld))) ps) (\<lambda>hs.
                Inr (map (\<lambda>(q, h). (ApplyTask, q, batch_ids t, h)) (zip ps hs))))
            else
              ebind (lookup (step_id_preds g) (step_id t)) (\<lambda>ps.
              ebind (if ps = [DUMMY_INPUT_STEP] then Inr None
                     else (case held_out t of
                             None \<Rightarrow>
                               ebind (emap get_fold (batch_ids t)) (\<lambda>fs.
                                 let hofs = remdups (filter (\<lambda>fld. fld \<notin> set fs) folds)
                                 in if length hofs = 1 then Inr (Some (hd hofs))
                                    else Inl AssertionError)
                           | Some h \<Rightarrow> Inr (Some h))) (\<lambda>held.
                if is_associative step then
                  Inr (map (\<lambda>b. (TrainTask, step_id t, [b], if \<not> sf then None else held))
                           (batch_ids t))
                else if is_incremental step then
                  ebind (cv_held_loop sf (batch_ids t)
                           (\<lambda>q h. [(ApplyTask, q, last_slice (batch_ids t), h)]) ps held) (\<lambda>r.
                    Inr ((TrainTask, step_id t, butlast (batch_ids t), held) # r))
                else
                  cv_held_loop sf (batch_ids t)
                    (\<lambda>q h. map (\<lambda>b. (ApplyTask, q, [b], h)) (batch_ids t)) ps held)))
          = Inr ks"
      by (auto simp: cv_requests_def ebind_Inr_iff)
    show ?thesis
    proof (cases "is_pretrained step")
      case True
      then show ?thesis using body by simp
    next
      case np: False
      show ?thesis
      proof (cases "length (batch_ids t) = 1")
        case True
        from body np True obtain ps hs where
          lk: "lookup (step_id_preds g) (step_id t) = Inr ps"
          and ks: "ks = map (\<lambda>(q, h). (ApplyTask, q, batch_ids t, h)) (zip ps hs)"
          by (auto simp: ebind_Inr_iff)
        show ?thesis
        proof
          fix k assume "k \<in> set ks"
          then obtain q h where "(q, h) \<in> set (zip ps hs)" and k: "k = (ApplyTask, q, batch_ids t, h)"
            using ks by auto
          then have "q \<in> set ps" by (meson set_zip_leftD)
          then show "step_key_ok p k" using pb [OF lk] k by simp
        qed
      next
        case False
        from body np False obtain ps held where
          lk: "lookup (step_id_preds g) (step_id t) = Inr ps"
          and rest: "(if is_associative step then
                  Inr (map (\<lambda>b. (TrainTask, step_id t, [b], if \<not> sf then None else held))
                           (batch_ids t))
                else if is_incremental step then
                  ebind (cv_held_loop sf (batch_ids t)
                           (\<lambda>q h. [(ApplyTask, q, last_slice (batch_ids t), h)]) ps held) (\<lambda>r.
                    Inr ((TrainTask, step_id t, butlast (batch_ids t), held) # r))
                else
                  cv_held_loop sf (batch_ids t)
                    (\<lambda>q h. map (\<lambda>b. (ApplyTask, q, [b], h)) (batch_ids t)) ps held) = Inr ks"
          by (auto simp: ebind_Inr_iff)
        note p = pb [OF lk]
        show ?thesis
        proof (cases "is_associative step")
          case True
          then show ?thesis using rest tr by auto
        next
          case na: False
          show ?thesis
          proof (cases "is_incremental step")
            case True
            from rest na True obtain r where
              r: "cv_held_loop sf (batch_ids t)
                    (\<lambda>q h. [(ApplyTask, q, last_slice (batch_ids t), h)]) ps held = Inr r"
              and ks: "ks = (TrainTask, step_id t, butlast (batch_ids t), held) # r"
              by (auto simp: ebind_Inr_iff)
            have "\<forall>k\<in>set r. step_key_ok p k"
              by (rule cv_held_loop_keys [OF r]) (use p in simp)
            then show ?thesis using ks tr by simp
          next
            case False
            then have r: "cv_held_loop sf (batch_ids t)
                    (\<lambda>q h. map (\<lambda>b. (ApplyTask, q, [b], h)) (batch_ids t)) ps held = Inr ks"
              using rest na by simp
            show ?thesis
              by (rule cv_held_loop_keys [OF r]) (use p in auto)
          qed
        qed
      qed
    qed
  next
    case ApplyTask
    then have s: "step_id t < int (length (steps_list p))"
      using ok by (simp add: step_key_ok_def memo_key_def)
    then have tr: "\<forall>bs h. step_key_ok p (TrainTask, step_id t, bs, h)"
      by (simp add: step_key_ok_def)
    show ?thesis using rq ApplyTask pb tr
      by (auto simp: cv_requests_def ebind_Inr_iff split: if_splits)
  next
    case MetricTask
    then have s: "step_id t = DUMMY_SCORE_STEP"
      using ok by (simp add: step_key_ok_def memo_key_def)
    have "\<forall>bs h. step_key_ok p (ApplyTask, DUMMY_INPUT_STEP, bs, h)"
      by (simp add: step_key_ok_def DUMMY_INPUT_STEP_def)
    moreover have "\<forall>k bs h. get_last p = Some k \<longrightarrow> step_key_ok p (ApplyTask, int k, bs, h)"
      using wf by (simp add: step_key_ok_def wf_pipeline_def)
    moreover have "\<forall>bs h. step_key_ok p (MetricTask, step_id t, bs, h)"
      using s by (simp add: step_key_ok_def)
    ultimately show ?thesis using rq MetricTask
      by (auto simp: cv_requests_def split: if_splits option.splits)
  qed
qed

lemma create_tasks_cross_val_keys:
  assumes wf: "wf_pipeline p"
    and run: "create_tasks_cross_val p folds n sf ke = Some (Inr tg)"
  shows "\<forall>c<length (objs tg). step_key_ok p (memo_key (objs tg ! c))"
proof -
  let ?k1 = "map (\<lambda>h. (MetricTask, DUMMY_SCORE_STEP, map (batch_id h) (py_range n), Some h)) folds"
  let ?k2 = "if ke then concat (map (\<lambda>s. map (\<lambda>h. (TrainTask, s,
                                    batch_ids_except folds n (Some h), Some h))
                                  folds)
                           (py_range (int (length (steps_list p))))) else []"
  let ?g = "foldl seed (TaskGraph p) (?k1 @ ?k2)"
  have r: "cv_loop p folds n sf ?g = Some (Inr tg)"
    using run unfolding create_tasks_cross_val_def Let_def by (cases ke) simp_all
  have seeds: "\<forall>k\<in>set (?k1 @ ?k2). step_key_ok p k"
    by (auto simp: step_key_ok_def py_range_def)
  note e = seeds_effect [OF dict_ok_TaskGraph, where ks = "?k1 @ ?k2" and p1 = p]
  have ex: "extends (?k1 @ ?k2) (TaskGraph p) ?g" using e by blast
  have ok: "dict_ok ?g" and sp: "step_id_preds ?g = step_id_preds (TaskGraph p)"
    and fr: "fresh_tasks ?g = fresh_tasks (TaskGraph p) @ [length (objs (TaskGraph p))..<length (objs ?g)]"
    using ex by (simp_all add: extends_def)
  have fr0: "\<forall>c\<in>set (fresh_tasks ?g). c < length (objs ?g)"
    unfolding fr by (auto simp: TaskGraph_def)
  have k0: "\<forall>c<length (objs ?g). step_key_ok p (memo_key (objs ?g ! c))"
    by (rule keys_extends [OF ex _ seeds]) (simp add: TaskGraph_def)
  show ?thesis
    by (rule cv_loop_keys [OF r ok sp fr0 k0]) (rule step_key_ok_requests [OF wf])
qed

section \<open>Priorities in both modes\<close>

lemma status_value_inj: "status_value s = status_value s' \<longleftrightarrow> s = s'"
  by (cases s; cases s') simp_all

lemma task_priority_eq_iff:
  assumes "task_priority pr spark h t1 = Inr p1" and "task_priority pr spark h t2 = Inr p2"
  shows "p1 = p2 \<longleftrightarrow>
         status t1 = status t2 \<and> step_id t1 = step_id t2 \<and> batch_ids t1 = batch_ids t2 \<and>
         train_flag t1 = train_flag t2 \<and>
         (pr = PrioResourceAware \<longrightarrow>
            non_resident_space spark h (preds t1) = non_resident_space spark h (preds t2))"
  using assms
  by (cases pr) (auto simp: task_priority_def ebind_Inr_iff status_value_inj)

lemma step_key_ok_cls:
  assumes wf: "wf_pipeline p"
    and ka: "step_key_ok p (memo_key t1)" and kb: "step_key_ok p (memo_key t2)"
    and s: "step_id t1 = step_id t2"
  shows "train_flag t1 = train_flag t2 \<longleftrightarrow> cls t1 = cls t2"
proof -
  have lt: "int (length (steps_list p)) \<le> DUMMY_SCORE_STEP"
    using wf by (simp add: wf_pipeline_def DUMMY_SCORE_STEP_def)
  show ?thesis using ka kb s lt
    by (cases "cls t1"; cases "cls t2") (auto simp: step_key_ok_def memo_key_def train_flag_def)
qed

text \<open>
  Claim C6, amended. Under each of the three policies the comparison of priority tuples
  is a strict order (irreflexive, transitive), and the tuple of a READY task is strictly
  below the tuple of a WAITING task. In a graph built in either mode, whatever the
  executor has assigned to the fields of the tasks that are not part of their keys, the
  tuples of two distinct tasks are equal exactly when the tasks agree on status, class,
  step and batch ids (and, under the resource-aware policy, on the non-resident space of
  their inputs); the two tasks then differ in their held-out fold, which no policy puts
  into the tuple. In every other case one tuple is strictly below the other. A fit-mode
  graph has no such pair: there any two distinct tasks get distinct tuples.
\<close>

theorem priority_strict_total_order:
  assumes wf: "wf_pipeline p"
    and run: "create_tasks_fit p ids need_metrics incremental = Some (Inr tg) \<or>
              create_tasks_cross_val p folds n same_fold keep_estimator = Some (Inr tg)"
    and heap: "map memo_key heap = map memo_key (objs tg)"
    and a: "a < length heap" and b: "b < length heap" and ab: "a \<noteq> b"
    and pa: "task_priority pr spark heap (heap ! a) = Inr pa"
    and pb: "task_priority pr spark heap (heap ! b) = Inr pb"
  shows "(pa = pb \<longleftrightarrow>
            status (heap ! a) = status (heap ! b) \<and> cls (heap ! a) = cls (heap ! b) \<and>
            step_id (heap ! a) = step_id (heap ! b) \<and> batch_ids (heap ! a) = batch_ids (heap ! b) \<and>
            (pr = PrioResourceAware \<longrightarrow>
               non_resident_space spark heap (preds (heap ! a))
               = non_resident_space spark heap (preds (heap ! b)))) \<and>
         (pa = pb \<longrightarrow> held_out (heap ! a) \<noteq> held_out (heap ! b)) \<and>
         (create_tasks_fit p ids need_metrics incremental = Some (Inr tg) \<longrightarrow> pa \<noteq> pb) \<and>
         (pa \<noteq> pb \<longrightarrow> tuple_lt pa pb \<or> tuple_lt pb pa) \<and>
         \<not> (tuple_lt pa pb \<and> tuple_lt pb pa) \<and>
         (\<forall>x. \<not> tuple_lt x x) \<and> (\<forall>x y z. tuple_lt x y \<and> tuple_lt y z \<longrightarrow> tuple_lt x z) \<and>
         (\<forall>h t1 t2 p1 p2. status t1 = READY \<and> status t2 = WAITING \<and>
            task_priority pr spark h t1 = Inr p1 \<and> task_priority pr spark h t2 = Inr p2
            \<longrightarrow> tuple_lt p1 p2)"
proof -
  have len: "length heap = length (objs tg)" using heap by (metis length_map)
  have ka: "memo_key (heap ! a) = memo_key (objs tg ! a)"
    using heap a len by (metis nth_map)
  have kb: "memo_key (heap ! b) = memo_key (objs tg ! b)"
    using heap b len by (metis nth_map)
  have steps: "rtranclp build_step (TaskGraph p) tg"
    using run build_steps_create_tasks_fit build_steps_create_tasks_cross_val by blast
  have ok: "dict_ok tg" using dict_ok_build_steps [OF steps dict_ok_TaskGraph] .
  have d: "distinct (map memo_key (objs tg))" using ok by (simp add: dict_ok_def)
  have kne: "memo_key (heap ! a) \<noteq> memo_key (heap ! b)"
    using nth_eq_iff_index_eq [OF d, of a b] ka kb a b ab len by simp
  have keys: "\<forall>c<length (objs tg). step_key_ok p (memo_key (objs tg ! c))"
  proof (cases "create_tasks_fit p ids need_metrics incremental = Some (Inr tg)")
    case True
    have "\<forall>c<length (objs tg). fit_key_ok p (memo_key (objs tg ! c))"
      using wf True by (rule create_tasks_fit_keys)
    then show ?thesis by (auto simp: fit_key_ok_def step_key_ok_def)
  next
    case False
    then have "create_tasks_cross_val p folds n same_fold keep_estimator = Some (Inr tg)"
      using run by simp
    with wf show ?thesis by (rule create_tasks_cross_val_keys)
  qed
  have sa: "step_key_ok p (memo_key (heap ! a))" and sb: "step_key_ok p (memo_key (heap ! b))"
    using keys a b len ka kb by simp_all
  note e = task_priority_eq_iff [OF pa pb]
  have iff: "pa = pb \<longleftrightarrow>
            status (heap ! a) = status (heap ! b) \<and> cls (heap ! a) = cls (heap ! b) \<and>
            step_id (heap ! a) = step_id (heap ! b) \<and> batch_ids (heap ! a) = batch_ids (heap ! b) \<and>
            (pr = PrioResourceAware \<longrightarrow>
               non_resident_space spark heap (preds (heap ! a))
               = non_resident_space spark heap (preds (heap ! b)))"
    unfolding e using step_key_ok_cls [OF wf sa sb] by blast
  have held: "pa = pb \<longrightarrow> held_out (heap ! a) \<noteq> held_out (heap ! b)"
    using iff kne by (auto simp: memo_key_def)
  have fit: "create_tasks_fit p ids need_metrics incremental = Some (Inr tg) \<longrightarrow> pa \<noteq> pb"
  proof
    assume r: "create_tasks_fit p ids need_metrics incremental = Some (Inr tg)"
    have "fit_key_ok p (memo_key (heap ! a))" "fit_key_ok p (memo_key (heap ! b))"
      using create_tasks_fit_keys [OF wf r] a b len ka kb by simp_all
    then have "held_out (heap ! a) = held_out (heap ! b)"
      by (simp add: fit_key_ok_def memo_key_def)
    then show "pa \<noteq> pb" using held by blast
  qed
  have tot: "pa \<noteq> pb \<longrightarrow> tuple_lt pa pb \<or> tuple_lt pb pa"
    using task_priority_total [OF pa pb] by blast
  have asym: "\<not> (tuple_lt pa pb \<and> tuple_lt pb pa)" using tuple_lt_asym by blast
  have rw: "\<forall>h t1 t2 p1 p2. status t1 = READY \<and> status t2 = WAITING \<and>
            task_priority pr spark h t1 = Inr p1 \<and> task_priority pr spark h t2 = Inr p2
            \<longrightarrow> tuple_lt p1 p2"
    using ready_before_waiting by blast
  have tr: "\<forall>x y z. tuple_lt x y \<and> tuple_lt y z \<longrightarrow> tuple_lt x z"
    using tuple_lt_trans by blast
  have ir: "\<forall>x. \<not> tuple_lt x x" using tuple_lt_irrefl by blast
  show ?thesis using iff held fit tot asym ir tr rw by (intro conjI)
qed

theorem priority_strict_total_order_witness:
  "wf_pipeline example_pipeline \<and>
   built (create_tasks_cross_val example_pipeline [''d'', ''e'', ''f''] 1 True False) \<and>
   task_priority PrioBatch True
     (the_heap (start_run (the_graph
        (create_tasks_cross_val example_pipeline [''d'', ''e'', ''f''] 1 True False))))
     (the_heap (start_run (the_graph
        (create_tasks_cross_val example_pipeline [''d'', ''e'', ''f''] 1 True False))) ! 13)
     = Inr [PNum 3, PNum 1, PStrs [''e0''], PNum 0, PNum 1] \<and>
   task_priority PrioBatch True
     (the_heap (start_run (the_graph
        (create_tasks_cross_val example_pipeline [''d'', ''e'', ''f''] 1 True False))))
     (the_heap (start_run (the_graph
        (create_tasks_cross_val example_pipeline [''d'', ''e'', ''f''] 1 True False))) ! 25)
     = Inr [PNum 3, PNum 1, PStrs [''e0''], PNum 0, PNum 1] \<and>
   cls (the_heap (start_run (the_graph
        (create_tasks_cross_val example_pipeline [''d'', ''e'', ''f''] 1 True False))) ! 13)
     = cls (the_heap (start_run (the_graph
        (create_tasks_cross_val example_pipeline [''d'', ''e'', ''f''] 1 True False))) ! 25) \<and>
   held_out (the_heap (start_run (the_graph
        (create_tasks_cross_val example_pipeline [''d'', ''e'', ''f''] 1 True False))) ! 13)
     \<noteq> held_out (the_heap (start_run (the_graph
        (create_tasks_cross_val example_pipeline [''d'', ''e'', ''f''] 1 True False))) ! 25) \<and>
   task_priority PrioBatch True
     (the_heap (start_run (the_graph
        (create_tasks_cross_val example_pipeline [''d'', ''e'', ''f''] 1 True False))))
     (the_heap (start_run (the_graph
        (create_tasks_cross_val example_pipeline [''d'', ''e'', ''f''] 1 True False))) ! 14)
     = Inr [PNum 3, PNum 1, PStrs [''e0''], PNum 1, PNum 1] \<and>
   (tuple_lt [PNum 3, PNum 1, PStrs [''e0''], PNum 0, PNum 1]
             [PNum 3, PNum 1, PStrs [''e0''], PNum 1, PNum 1] \<or>
    tuple_lt [PNum 3, PNum 1, PStrs [''e0''], PNum 1, PNum 1]
             [PNum 3, PNum 1, PStrs [''e0''], PNum 0, PNum 1])"
proof -
  let ?G = "the_graph (create_tasks_cross_val example_pipeline [''d'', ''e'', ''f''] 1 True False)"
  let ?H = "the_heap (start_run ?G)"
  have bt: "built (create_tasks_cross_val example_pipeline [''d'', ''e'', ''f''] 1 True False)"
    by code_simp
  have r: "create_tasks_fit example_pipeline [] False False = Some (Inr ?G) \<or>
           create_tasks_cross_val example_pipeline [''d'', ''e'', ''f''] 1 True False = Some (Inr ?G)"
    using built_the_graph [OF bt] by simp
  have h: "map memo_key ?H = map memo_key (objs ?G)" by code_simp
  have l: "13 < length ?H" "25 < length ?H" "14 < length ?H" by code_simp+
  have p13: "task_priority PrioBatch True ?H (?H ! 13)
      = Inr [PNum 3, PNum 1, PStrs [''e0''], PNum 0, PNum 1]" by code_simp
  have p25: "task_priority PrioBatch True ?H (?H ! 25)
      = Inr [PNum 3, PNum 1, PStrs [''e0''], PNum 0, PNum 1]" by code_simp
  have p14: "task_priority PrioBatch True ?H (?H ! 14)
      = Inr [PNum 3, PNum 1, PStrs [''e0''], PNum 1, PNum 1]" by code_simp
  have ne: "(13::nat) \<noteq> 25" "(13::nat) \<noteq> 14" by simp_all
  note t1 = priority_strict_total_order [OF wf_example_pipeline r h l(1) l(2) ne(1) p13 p25]
  note t2 = priority_strict_total_order [OF wf_example_pipeline r h l(1) l(3) ne(2) p13 p14]
  have c: "cls (?H ! 13) = cls (?H ! 25)" using t1 by blast
  have ho: "held_out (?H ! 13) \<noteq> held_out (?H ! 25)" using t1 by blast
  have lt: "tuple_lt [PNum 3, PNum 1, PStrs [''e0''], PNum 0, PNum 1]
             [PNum 3, PNum 1, PStrs [''e0''], PNum 1, PNum 1] \<or>
    tuple_lt [PNum 3, PNum 1, PStrs [''e0''], PNum 1, PNum 1]
             [PNum 3, PNum 1, PStrs [''e0''], PNum 0, PNum 1]"
    using t2 by simp
  show ?thesis using wf_example_pipeline bt p13 p25 c ho p14 lt by (intro conjI)
qed

section \<open>Loading the input batches of a task\<close>

lemma check_resident_Inr:
  "check_resident spark heap xs = Inr u \<Longrightarrow>
   \<forall>a\<in>set xs. \<exists>b. batch (heap ! a) = Some b \<and> batch_status spark b = Inr RESIDENT"
proof (induction xs)
  case Nil
  then show ?case by simp
next
  case (Cons a xs)
  from Cons.prems obtain b where b: "batch (heap ! a) = Some b"
    by (cases "batch (heap ! a)") auto
  from Cons.prems b have st: "batch_status spark b = Inr RESIDENT"
    and r: "check_resident spark heap xs = Inr u"
    by (auto simp: ebind_Inr_iff split: if_splits)
  show ?case using Cons.IH [OF r] b st by simp
qed

lemma check_resident_ok:
  "\<forall>a\<in>set xs. \<exists>b. batch (heap ! a) = Some b \<and> batch_status spark b = Inr RESIDENT \<Longrightarrow>
   check_resident spark heap xs = Inr ()"
  by (induction xs) (auto simp: ebind_def)

lemma Xy_resident: "batch_status spark b = Inr RESIDENT \<Longrightarrow> Xy spark b = Inr (batch_X b, batch_y b)"
  by (simp add: Xy_def ebind_def)

lemma load_input_batches_Inr:
  assumes "load_input_batches spark c heap t = Inr (c', heap')"
  shows "\<forall>a\<in>set (preds t). cls (heap ! a) = ApplyTask \<longrightarrow>
           (\<exists>b. batch (heap' ! a) = Some b \<and> batch_status spark b = Inr RESIDENT)"
proof -
  from assms obtain ap u where ap: "get_apply_preds heap t = Inr ap"
    and ch: "check_resident spark heap' ap = Inr u"
    by (auto simp: load_input_batches_def ebind_Inr_iff)
  have "ap = filter (\<lambda>a. cls (heap ! a) = ApplyTask) (preds t)"
    using ap by (auto simp: get_apply_preds_def Let_def split: if_splits)
  then show ?thesis using check_resident_Inr [OF ch] by simp
qed

lemma load_loop_resident:
  "\<forall>a\<in>set xs. \<exists>b. batch (heap ! a) = Some b \<and> batch_status spark b = Inr RESIDENT \<Longrightarrow>
   load_loop spark ns xs c heap = Inr (c, heap)"
  by (induction xs) (auto simp: ebind_def)

lemma load_loop_ok:
  assumes "cache_ok c heap"
    and "\<forall>a\<in>set ns. a < length heap \<and> (\<exists>b. batch (heap ! a) = Some b)"
    and "set xs \<subseteq> set ns"
    and "spill_path c \<noteq> None"
  shows "\<exists>c' heap'. load_loop True ns xs c heap = Inr (c', heap') \<and> cache_ok c' heap' \<and>
           only_batches_changed heap heap' \<and>
           (\<forall>a\<in>set ns. a \<in> set xs \<or>
                (\<exists>b. batch (heap ! a) = Some b \<and> batch_status True b = Inr RESIDENT) \<longrightarrow>
              (\<exists>b. batch (heap' ! a) = Some b \<and> batch_status True b = Inr RESIDENT))"
  using assms
proof (induction xs arbitrary: c heap)
  case Nil
  then show ?case by (simp add: only_batches_changed_refl)
next
  case (Cons a xs)
  note ok = Cons.prems(1) and nsb = Cons.prems(2) and dir = Cons.prems(4)
  have hok: "heap_ok heap" using ok unfolding cache_ok_def by blast
  have ans: "a \<in> set ns" and sub: "set xs \<subseteq> set ns" using Cons.prems(3) by simp_all
  have al: "a < length heap" using nsb ans by blast
  obtain b where b: "batch (heap ! a) = Some b" using nsb ans by blast
  note hb = heap_ok_batch [OF hok al b]
  show ?case
  proof (cases "batch_status True b = Inr SPILLED")
    case False
    then have res: "batch_status True b = Inr RESIDENT" using batch_wf_status [OF hb(1)] by simp
    have eq: "load_loop True ns (a # xs) c heap = load_loop True ns xs c heap"
      using b res by (simp add: ebind_def)
    obtain c' heap' where run: "load_loop True ns xs c heap = Inr (c', heap')"
      and ok': "cache_ok c' heap'" and obc: "only_batches_changed heap heap'"
      and keep: "\<forall>x\<in>set ns. x \<in> set xs \<or>
                (\<exists>b. batch (heap ! x) = Some b \<and> batch_status True b = Inr RESIDENT) \<longrightarrow>
              (\<exists>b. batch (heap' ! x) = Some b \<and> batch_status True b = Inr RESIDENT)"
      using Cons.IH [OF ok nsb sub dir] by blast
    have "\<forall>x\<in>set ns. x \<in> set (a # xs) \<or>
                (\<exists>b. batch (heap ! x) = Some b \<and> batch_status True b = Inr RESIDENT) \<longrightarrow>
              (\<exists>b. batch (heap' ! x) = Some b \<and> batch_status True b = Inr RESIDENT)"
    proof (intro ballI impI)
      fix x assume x: "x \<in> set ns"
        and h: "x \<in> set (a # xs) \<or>
                (\<exists>b. batch (heap ! x) = Some b \<and> batch_status True b = Inr RESIDENT)"
      have "x \<in> set xs \<or> (\<exists>b. batch (heap ! x) = Some b \<and> batch_status True b = Inr RESIDENT)"
        using h b res by auto
      then show "\<exists>b. batch (heap' ! x) = Some b \<and> batch_status True b = Inr RESIDENT"
        using keep x by blast
    qed
    then show ?thesis using eq run ok' obc by simp
  next
    case sp: True
    have prot: "\<forall>x\<in>set ns. \<exists>b. batch (heap ! x) = Some b" using nsb by blast
    have d0: "spill_path c = None \<longrightarrow> resident_space True c heap + space b \<le> max_resident c"
      using dir by auto
    obtain c1 heap1 where es: "ensure_space True c heap (space b) ns = Inr (c1, heap1)"
      and en: "ensured (space b) ns (filter (is_resident heap) (map snd (cache_tasks c))) c heap c1 heap1"
      using ensure_space_ok [OF ok prot d0] by blast
    note d = ensuredD [OF en]
    have len1: "length heap1 = length heap" using d(2) by (simp add: only_batches_changed_def)
    have same: "heap1 ! x = heap ! x" if "x \<in> set ns" for x
      using d(7) [of x] that nsb by blast
    have b1: "batch (heap1 ! a) = Some b" using same [OF ans] b by simp
    obtain b2 where ld: "load_spilled b = Inr b2" and wf2: "batch_wf b2"
      and st2: "batch_status True b2 = Inr RESIDENT" and t2: "batch_task b2 = batch_task b"
      using load_spilled_wf [OF hb(1) sp] by blast
    let ?c2 = "c1\<lparr>stats := (stats c1)\<lparr>load_count := load_count (stats c1) + 1,
                                 load_space := load_space (stats c1) + space b2\<rparr>\<rparr>"
    let ?h2 = "heap1[a := (heap1 ! a)\<lparr>batch := Some b2\<rparr>]"
    have eq: "load_loop True ns (a # xs) c heap = load_loop True ns xs ?c2 ?h2"
      using b sp es b1 ld by (simp add: ebind_def)
    have al1: "a < length heap1" using al len1 by simp
    have t2': "batch_task b2 = Some a" using t2 hb(2) by simp
    have ok2: "cache_ok ?c2 ?h2" using d(1) al1 wf2 t2' b1 by (rule cache_ok_update_batch) simp
    have h2: "?h2 ! x = heap ! x" if "x \<in> set ns" "x \<noteq> a" for x
      using same [OF that(1)] that(2) by simp
    have h2a: "batch (?h2 ! a) = Some b2" using al1 by simp
    have nsb2: "\<forall>x\<in>set ns. x < length ?h2 \<and> (\<exists>b. batch (?h2 ! x) = Some b)"
    proof
      fix x assume x: "x \<in> set ns"
      show "x < length ?h2 \<and> (\<exists>b. batch (?h2 ! x) = Some b)"
      proof (cases "x = a")
        case True
        then show ?thesis using h2a al1 by simp
      next
        case False
        then show ?thesis using h2 [OF x False] nsb x len1 by simp
      qed
    qed
    have dir2: "spill_path ?c2 \<noteq> None" using d(5) dir by simp
    obtain c' heap' where run: "load_loop True ns xs ?c2 ?h2 = Inr (c', heap')"
      and ok': "cache_ok c' heap'" and obc: "only_batches_changed ?h2 heap'"
      and keep: "\<forall>x\<in>set ns. x \<in> set xs \<or>
                (\<exists>b. batch (?h2 ! x) = Some b \<and> batch_status True b = Inr RESIDENT) \<longrightarrow>
              (\<exists>b. batch (heap' ! x) = Some b \<and> batch_status True b = Inr RESIDENT)"
      using Cons.IH [OF ok2 nsb2 sub dir2] by blast
    have obc2: "only_batches_changed heap heap'"
      using only_batches_changed_trans [OF d(2) only_batches_changed_trans
              [OF only_batches_changed_update [OF al1] obc]] .
    have "\<forall>x\<in>set ns. x \<in> set (a # xs) \<or>
                (\<exists>b. batch (heap ! x) = Some b \<and> batch_status True b = Inr RESIDENT) \<longrightarrow>
              (\<exists>b. batch (heap' ! x) = Some b \<and> batch_status True b = Inr RESIDENT)"
    proof (intro ballI impI)
      fix x assume x: "x \<in> set ns"
        and h: "x \<in> set (a # xs) \<or>
                (\<exists>b. batch (heap ! x) = Some b \<and> batch_status True b = Inr RESIDENT)"
      have "x \<in> set xs \<or> (\<exists>b. batch (?h2 ! x) = Some b \<and> batch_status True b = Inr RESIDENT)"
      proof (cases "x = a")
        case True
        then show ?thesis using h2a st2 by blast
      next
        case False
        then show ?thesis using h h2 [OF x False] by auto
      qed
      then show "\<exists>b. batch (heap' ! x) = Some b \<and> batch_status True b = Inr RESIDENT"
        using keep x by blast
    qed
    then show ?thesis using eq run ok' obc2 by simp
  qed
qed

end
